(* ===== verification/Prelude.thy ===== *)
theory Prelude
  imports Main "HOL-Library.Word" "HOL-Library.AList" "HOL-Library.Multiset"
begin

text \<open>
  Shared vocabulary of the development: the machine integers of the Rust sources, the
  result type in which every early return and every panic is a value, byte slices, the
  uninitialised output buffers that the SSZ encoders fill through
  \<^verbatim>\<open>src/unsafe_vec.rs\<close>, and hash maps.

  Conventions used by every theory.
  \<^item> \<open>u8\<close>, \<open>u32\<close>, \<open>u64\<close> and \<open>u128\<close> are words: \<open>+\<close>, \<open>-\<close> and \<open>*\<close> wrap, which is what
    the release profile of the crate does (no \<^verbatim>\<open>overflow-checks\<close> in \<^verbatim>\<open>Cargo.toml\<close>).
    Where the code relies on the absence of wrap-around, a lemma says so.
  \<^item> \<open>usize\<close> values (lengths and indices of objects in memory) are \<open>nat\<close>; the target is
    a 64-bit machine, so \<^verbatim>\<open>x as usize\<close> of a \<open>u64\<close> is \<open>unat x\<close>.
  \<^item> \<^verbatim>\<open>Result<T, String>\<close> is \<open>error + 'a\<close>; the operator \<^verbatim>\<open>?\<close> is \<open>and_then\<close>.
  \<^item> A \<^verbatim>\<open>HashMap\<close> is an association list with distinct keys; the order of the list stands
    for the (unspecified) iteration order.
\<close>

section \<open>Machine integers\<close>

type_synonym u8 = "8 word"
type_synonym u32 = "32 word"
type_synonym u64 = "64 word"
type_synonym u128 = "128 word"

named_theorems result_simps \<open>case analysis on results\<close>
named_theorems codec_simps \<open>closed forms of the SSZ encoders and decoders\<close>

definition saturating_sub :: "'a::len word \<Rightarrow> 'a word \<Rightarrow> 'a word" where
  "saturating_sub a b = (if b \<le> a then a - b else 0)"

lemma unat_saturating_sub: "unat (saturating_sub a b) = unat a - unat b"
  by (simp add: saturating_sub_def unat_sub word_le_nat_alt)

lemma unat_drop_bit: "unat (drop_bit n w) = unat w div 2 ^ n"
  by (subst unat_drop_bit_eq) (rule drop_bit_eq_div)

lemma unat_bound: "unat (w :: 'a::len word) < 2 ^ LENGTH('a)"
  by (rule unsigned_less)

lemma unat_add_no_wrap:
  "unat a + unat b < 2 ^ LENGTH('a) \<Longrightarrow> unat (a + b :: 'a::len word) = unat a + unat b"
  by (simp add: unat_word_ariths)

lemma unat_mult_no_wrap:
  "unat a * unat b < 2 ^ LENGTH('a) \<Longrightarrow> unat (a * b :: 'a::len word) = unat a * unat b"
  by (simp add: unat_word_ariths)

lemma unat_diff_le: "b \<le> a \<Longrightarrow> unat (a - b) = unat a - unat b"
  by (rule unat_sub)

lemma word_eq_iff_unat: "a = b \<longleftrightarrow> unat a = unat b"
  by (auto dest: word_unat_eq_iff [THEN iffD2])

section \<open>Errors and results\<close>

text \<open>
  \<open>Err\<close> and \<open>ErrFmt\<close> are the two ways the code builds an error string (a literal, or
  \<^verbatim>\<open>format!\<close> with numbers). \<open>Panic\<close> is an unwinding panic (slice or index out of range,
  failed \<^verbatim>\<open>expect\<close>), \<open>UB\<close> an out-of-bounds raw write or a read of uninitialised memory,
  and \<open>Diverge\<close> a loop that runs for ever.
\<close>

datatype error = Err string | ErrFmt string "nat list" | Panic | UB | Diverge

type_synonym 'a result = "error + 'a"

definition and_then :: "'a result \<Rightarrow> ('a \<Rightarrow> 'b result) \<Rightarrow> 'b result" where
  "and_then r f = (case r of Inl e \<Rightarrow> Inl e | Inr x \<Rightarrow> f x)"

lemma and_then_simps [simp]:
  "and_then (Inl e) f = Inl e"
  "and_then (Inr x) f = f x"
  by (simp_all add: and_then_def)

lemma and_then_cong [fundef_cong]:
  "r = r' \<Longrightarrow> (\<And>x. r' = Inr x \<Longrightarrow> f x = f' x) \<Longrightarrow> and_then r f = and_then r' f'"
  by (auto simp: and_then_def split: sum.splits)

lemma and_then_eq_Inr [result_simps]:
  "and_then r f = Inr y \<longleftrightarrow> (\<exists>x. r = Inr x \<and> f x = Inr y)"
  by (auto simp: and_then_def split: sum.splits)

lemma and_then_eq_Inl [result_simps]:
  "and_then r f = Inl e \<longleftrightarrow> r = Inl e \<or> (\<exists>x. r = Inr x \<and> f x = Inl e)"
  by (auto simp: and_then_def split: sum.splits)

lemma and_then_total: "\<exists>y. r = Inr y \<Longrightarrow> (\<And>x. \<exists>z. f x = Inr z) \<Longrightarrow> \<exists>z. and_then r f = Inr z"
  by auto

lemma and_then_assoc: "and_then (and_then r f) g = and_then r (\<lambda>x. and_then (f x) g)"
  by (cases r) simp_all

definition is_ok :: "'a result \<Rightarrow> bool" where
  "is_ok r = (case r of Inl _ \<Rightarrow> False | Inr _ \<Rightarrow> True)"

text \<open>A result that is a value or an error string: the call neither panics, nor writes
  out of bounds, nor runs for ever.\<close>

definition graceful :: "'a result \<Rightarrow> bool" where
  "graceful r = (r \<noteq> Inl Panic \<and> r \<noteq> Inl UB \<and> r \<noteq> Inl Diverge)"

lemma graceful_simps [simp]:
  "graceful (Inr x)" "graceful (Inl (Err s))" "graceful (Inl (ErrFmt s ns))"
  "\<not> graceful (Inl Panic)" "\<not> graceful (Inl UB)" "\<not> graceful (Inl Diverge)"
  by (simp_all add: graceful_def)

lemma graceful_and_then:
  "graceful r \<Longrightarrow> (\<And>x. r = Inr x \<Longrightarrow> graceful (f x)) \<Longrightarrow> graceful (and_then r f)"
  by (cases r) (auto simp: graceful_def)

lemma and_then_Inr_right [simp]: "and_then r Inr = r"
  by (cases r) simp_all

text \<open>\<^verbatim>\<open>iter().map(f).collect::<Result<Vec<_>, _>>()\<close>: the first error, or all values.\<close>

fun traverse :: "('a \<Rightarrow> 'b result) \<Rightarrow> 'a list \<Rightarrow> 'b list result" where
  "traverse f [] = Inr []"
| "traverse f (x # xs) =
     and_then (f x) (\<lambda>y. and_then (traverse f xs) (\<lambda>ys. Inr (y # ys)))"

lemma traverse_eq_Inr: "traverse f xs = Inr ys \<longleftrightarrow> list_all2 (\<lambda>x y. f x = Inr y) xs ys"
  by (induction xs arbitrary: ys) (auto simp: and_then_eq_Inr list_all2_Cons1)

lemma traverse_total: "(\<And>x. x \<in> set xs \<Longrightarrow> f x = Inr (g x)) \<Longrightarrow> traverse f xs = Inr (map g xs)"
  by (induction xs) auto

lemma traverse_graceful: "(\<And>x. x \<in> set xs \<Longrightarrow> graceful (f x)) \<Longrightarrow> graceful (traverse f xs)"
  by (induction xs) (auto intro!: graceful_and_then)

text \<open>\<^verbatim>\<open>Result::ok\<close>: an error value becomes \<^verbatim>\<open>None\<close>, a panic goes through.\<close>

definition ok_value :: "'a result \<Rightarrow> 'a option result" where
  "ok_value r =
     (case r of
        Inr x \<Rightarrow> Inr (Some x)
      | Inl e \<Rightarrow> if e \<in> {Panic, UB, Diverge} then Inl e else Inr None)"

text \<open>\<^verbatim>\<open>if let Ok(x) = r { return Ok(x) }\<close> followed by another attempt.\<close>

definition or_else :: "'a result \<Rightarrow> 'a result \<Rightarrow> 'a result" where
  "or_else r r' = and_then (ok_value r) (\<lambda>v. case v of Some x \<Rightarrow> Inr x | None \<Rightarrow> r')"

lemma or_else_simps [simp]:
  "or_else (Inr x) r' = Inr x" "or_else (Inl (Err s)) r' = r'" "or_else (Inl (ErrFmt s ns)) r' = r'"
  "or_else (Inl Panic) r' = Inl Panic"
  by (simp_all add: or_else_def ok_value_def)

section \<open>Byte slices\<close>

text \<open>\<^verbatim>\<open>&bytes[a..b]\<close> and \<^verbatim>\<open>&bytes[a..]\<close> panic when the range is not inside the slice.\<close>

definition slice :: "nat \<Rightarrow> nat \<Rightarrow> 'a list \<Rightarrow> 'a list result" where
  "slice a b xs = (if a \<le> b \<and> b \<le> length xs then Inr (take (b - a) (drop a xs)) else Inl Panic)"

definition slice_from :: "nat \<Rightarrow> 'a list \<Rightarrow> 'a list result" where
  "slice_from a xs = (if a \<le> length xs then Inr (drop a xs) else Inl Panic)"

lemma slice_in_range: "a \<le> b \<Longrightarrow> b \<le> length xs \<Longrightarrow> slice a b xs = Inr (take (b - a) (drop a xs))"
  by (simp add: slice_def)

lemma slice_from_in_range: "a \<le> length xs \<Longrightarrow> slice_from a xs = Inr (drop a xs)"
  by (simp add: slice_from_def)

lemma slice_eq_Inr: "slice a b xs = Inr ys \<longleftrightarrow> a \<le> b \<and> b \<le> length xs \<and> ys = take (b - a) (drop a xs)"
  by (auto simp: slice_def)

text \<open>Reading a field of a concatenation: the slice that skips the parts before it.\<close>

lemma slice_append_mid:
  "length xs = a \<Longrightarrow> b = a + length ys \<Longrightarrow> slice a b (xs @ ys @ zs) = Inr ys"
  by (simp add: slice_def)

lemma slice_append_end:
  "length xs = a \<Longrightarrow> b = a + length ys \<Longrightarrow> slice a b (xs @ ys) = Inr ys"
  by (simp add: slice_def)

lemma slice_from_append: "length xs = a \<Longrightarrow> slice_from a (xs @ ys) = Inr ys"
  by (simp add: slice_from_def)

section \<open>Output buffers\<close>

text \<open>
  The encoders allocate with \<^verbatim>\<open>Vec::with_capacity(n)\<close>, call \<^verbatim>\<open>set_len(n)\<close> without
  initialising, and fill the buffer with \<^verbatim>\<open>write_bytes_at\<close>. A byte that was never
  written is \<open>None\<close>.
\<close>

type_synonym buf = "u8 option list"

definition uninit :: "nat \<Rightarrow> buf" where
  "uninit n = replicate n None"

definition write_bytes_at :: "buf \<Rightarrow> nat \<Rightarrow> u8 list \<Rightarrow> buf result" where
  "write_bytes_at buf offset bytes =
     (if offset + length bytes \<le> length buf
      then Inr (take offset buf @ map Some bytes @ drop (offset + length bytes) buf)
      else Inl UB)"

fun write_all :: "buf \<Rightarrow> (nat \<times> u8 list) list \<Rightarrow> buf result" where
  "write_all buf [] = Inr buf"
| "write_all buf ((offset, bytes) # ws) =
     and_then (write_bytes_at buf offset bytes) (\<lambda>buf'. write_all buf' ws)"

definition assume_init :: "buf \<Rightarrow> u8 list result" where
  "assume_init buf = (if None \<in> set buf then Inl UB else Inr (map the buf))"

definition encode_with :: "nat \<Rightarrow> (nat \<times> u8 list) list \<Rightarrow> u8 list result" where
  "encode_with n ws = and_then (write_all (uninit n) ws) assume_init"

text \<open>Writes that tile the buffer from left to right.\<close>

fun tiles :: "nat \<Rightarrow> (nat \<times> u8 list) list \<Rightarrow> nat \<Rightarrow> bool" where
  "tiles k [] n = (k = n)"
| "tiles k ((offset, bytes) # ws) n = (offset = k \<and> tiles (k + length bytes) ws n)"

lemma tiles_le: "tiles k ws n \<Longrightarrow> k \<le> n"
  by (induction k ws n rule: tiles.induct) auto

lemma write_all_tiles:
  "tiles k ws n \<Longrightarrow> length done = k \<Longrightarrow> length rest = n - k \<Longrightarrow>
   write_all (map Some done @ rest) ws = Inr (map Some (done @ concat (map snd ws)))"
proof (induction k ws n arbitrary: "done" rest rule: tiles.induct)
  case (1 k n)
  then show ?case by simp
next
  case (2 k offset bytes ws n)
  then have le: "k + length bytes \<le> n" and off: "offset = k"
    by (auto dest: tiles_le)
  have "write_bytes_at (map Some done @ rest) offset bytes
      = Inr (map Some (done @ bytes) @ drop (length bytes) rest)"
    using 2(3,4) le off by (simp add: write_bytes_at_def)
  moreover have "write_all (map Some (done @ bytes) @ drop (length bytes) rest) ws
      = Inr (map Some ((done @ bytes) @ concat (map snd ws)))"
    using 2 le by (intro "2.IH") auto
  ultimately show ?case by simp
qed

text \<open>An encoder whose writes tile its buffer is memory safe and yields the concatenation.\<close>

lemma encode_with_tiles:
  assumes "tiles 0 ws n"
  shows "encode_with n ws = Inr (concat (map snd ws))"
proof -
  have "write_all (map Some [] @ uninit n) ws = Inr (map Some ([] @ concat (map snd ws)))"
    using assms by (rule write_all_tiles) (simp_all add: uninit_def)
  then show ?thesis by (auto simp: encode_with_def assume_init_def comp_def)
qed

section \<open>Hash maps\<close>

type_synonym ('k, 'v) hmap = "('k \<times> 'v) list"

abbreviation hm_get :: "('k, 'v) hmap \<Rightarrow> 'k \<Rightarrow> 'v option" where
  "hm_get \<equiv> map_of"

abbreviation hm_insert :: "'k \<Rightarrow> 'v \<Rightarrow> ('k, 'v) hmap \<Rightarrow> ('k, 'v) hmap" where
  "hm_insert \<equiv> AList.update"

abbreviation hm_remove :: "'k \<Rightarrow> ('k, 'v) hmap \<Rightarrow> ('k, 'v) hmap" where
  "hm_remove \<equiv> AList.delete"

definition hm_contains :: "('k, 'v) hmap \<Rightarrow> 'k \<Rightarrow> bool" where
  "hm_contains m k = (map_of m k \<noteq> None)"

definition hm_wf :: "('k, 'v) hmap \<Rightarrow> bool" where
  "hm_wf m = distinct (map fst m)"

lemma hm_contains_iff: "hm_contains m k \<longleftrightarrow> k \<in> fst ` set m"
  by (simp add: hm_contains_def map_of_eq_None_iff)

lemma hm_get_insert [simp]: "map_of (AList.update k v m) = (map_of m)(k \<mapsto> v)"
  by (induction m) auto

lemma hm_get_remove [simp]: "map_of (AList.delete k m) = (map_of m)(k := None)"
  by (induction m) auto

lemma hm_wf_empty [simp]: "hm_wf []"
  by (simp add: hm_wf_def)

lemma hm_wf_insert [simp]: "hm_wf m \<Longrightarrow> hm_wf (AList.update k v m)"
  by (simp add: hm_wf_def distinct_update)

lemma hm_wf_remove [simp]: "hm_wf m \<Longrightarrow> hm_wf (AList.delete k m)"
  by (simp add: hm_wf_def distinct_delete)

lemma hm_wf_filter [simp]: "hm_wf m \<Longrightarrow> hm_wf (filter P m)"
  by (auto simp: hm_wf_def distinct_map filter_map intro: inj_on_subset)

end
