(* ===== verification/Bytes.thy ===== *)
theory Bytes
  imports Prelude
begin

text \<open>
  The primitive types of \<^verbatim>\<open>src/types/\<close>: fixed-width byte strings and 64-bit integers,
  with their SSZ encoders and decoders. \<^verbatim>\<open>Bytes32\<close>, \<^verbatim>\<open>Bytes52\<close> and \<^verbatim>\<open>Bytes3112\<close>
  are arrays of 32, 52 and 3112 bytes; they are words of 256, 416 and 24896 bits, read
  big-endian, so that the lexicographic order on \<^verbatim>\<open>as_array()\<close> is the order of the
  words and the all-zero array is \<open>0\<close>. The locale \<open>fixed_codec\<close> is the contract of a
  fixed-length SSZ type and is interpreted for each of them.
\<close>

unbundle bit_operations_syntax

type_synonym bytes32 = "256 word"
type_synonym bytes52 = "416 word"
type_synonym bytes3112 = "24896 word"

section \<open>Little-endian and big-endian byte strings\<close>

definition le_bytes :: "nat \<Rightarrow> 'a::len word \<Rightarrow> u8 list" where
  "le_bytes n w = map (\<lambda>i. ucast (drop_bit (8 * i) w)) [0..<n]"

fun from_le_bytes :: "u8 list \<Rightarrow> 'a::len word" where
  "from_le_bytes [] = 0"
| "from_le_bytes (b # bs) = ucast b OR push_bit 8 (from_le_bytes bs)"

definition be_bytes :: "nat \<Rightarrow> 'a::len word \<Rightarrow> u8 list" where
  "be_bytes n w = rev (le_bytes n w)"

definition from_be_bytes :: "u8 list \<Rightarrow> 'a::len word" where
  "from_be_bytes bs = from_le_bytes (rev bs)"

lemma length_le_bytes [simp]: "length (le_bytes n w) = n"
  by (simp add: le_bytes_def)

lemma length_be_bytes [simp]: "length (be_bytes n w) = n"
  by (simp add: be_bytes_def)

lemma bit_from_le_bytes:
  "bit (from_le_bytes bs :: 'a::len word) j \<longleftrightarrow>
     j < LENGTH('a) \<and> j < 8 * length bs \<and> bit (bs ! (j div 8)) (j mod 8)"
proof (induction bs arbitrary: j)
  case Nil
  then show ?case by simp
next
  case (Cons b bs)
  show ?case
  proof (cases "j < 8")
    case True
    then show ?thesis by (auto simp: bit_or_iff bit_push_bit_iff bit_unsigned_iff)
  next
    case False
    then have *: "\<not> bit b j" by (auto dest: bit_imp_le_length)
    have "j div 8 = Suc ((j - 8) div 8)" "j mod 8 = (j - 8) mod 8"
      using False by (auto simp: le_div_geq le_mod_geq)
    then show ?thesis
      using Cons.IH [of "j - 8"] False * by (auto simp: bit_or_iff bit_push_bit_iff bit_unsigned_iff)
  qed
qed

lemma nth_le_bytes: "i < n \<Longrightarrow> le_bytes n w ! i = ucast (drop_bit (8 * i) w)"
  by (simp add: le_bytes_def)

lemma from_le_le_bytes:
  assumes "LENGTH('a::len) = 8 * n"
  shows "from_le_bytes (le_bytes n w) = (w :: 'a word)"
proof (rule bit_word_eqI)
  fix j assume j: "j < LENGTH('a)"
  then have "j div 8 < n" using assms by auto
  then show "bit (from_le_bytes (le_bytes n w) :: 'a word) j \<longleftrightarrow> bit w j"
    using j assms by (simp add: bit_from_le_bytes nth_le_bytes bit_unsigned_iff bit_drop_bit_eq)
qed

lemma le_from_le_bytes:
  assumes "LENGTH('a::len) = 8 * n" "length bs = n"
  shows "le_bytes n (from_le_bytes bs :: 'a word) = bs"
proof (rule nth_equalityI)
  fix i assume "i < length (le_bytes n (from_le_bytes bs :: 'a word))"
  then have i: "i < n" by simp
  show "le_bytes n (from_le_bytes bs :: 'a word) ! i = bs ! i"
  proof (rule bit_word_eqI)
    fix k assume k: "k < LENGTH(8)"
    then have "8 * i + k < 8 * n" using i by auto
    then show "bit (le_bytes n (from_le_bytes bs :: 'a word) ! i) k \<longleftrightarrow> bit (bs ! i) k"
      using i k assms
      by (simp add: nth_le_bytes bit_unsigned_iff bit_drop_bit_eq bit_from_le_bytes add.commute)
  qed
qed (simp add: assms)

lemma from_be_be_bytes:
  "LENGTH('a::len) = 8 * n \<Longrightarrow> from_be_bytes (be_bytes n w) = (w :: 'a word)"
  by (simp add: from_be_bytes_def be_bytes_def from_le_le_bytes)

lemma be_from_be_bytes:
  "LENGTH('a::len) = 8 * n \<Longrightarrow> length bs = n \<Longrightarrow> be_bytes n (from_be_bytes bs :: 'a word) = bs"
  by (simp add: from_be_bytes_def be_bytes_def le_from_le_bytes)

abbreviation le64 :: "u64 \<Rightarrow> u8 list" where "le64 \<equiv> le_bytes 8"
abbreviation le32 :: "u32 \<Rightarrow> u8 list" where "le32 \<equiv> le_bytes 4"

lemmas le_roundtrips [simp] =
  from_le_le_bytes [where 'a = 64 and n = 8, simplified]
  from_le_le_bytes [where 'a = 32 and n = 4, simplified]
  le_from_le_bytes [where 'a = 64 and n = 8, simplified]
  le_from_le_bytes [where 'a = 32 and n = 4, simplified]
  from_be_be_bytes [where 'a = 256 and n = 32, simplified]
  from_be_be_bytes [where 'a = 416 and n = 52, simplified]
  from_be_be_bytes [where 'a = 24896 and n = 3112, simplified]
  be_from_be_bytes [where 'a = 256 and n = 32, simplified]
  be_from_be_bytes [where 'a = 416 and n = 52, simplified]
  be_from_be_bytes [where 'a = 24896 and n = 3112, simplified]

text \<open>The order of roots is the lexicographic order of their byte arrays.\<close>

fun be_nat :: "u8 list \<Rightarrow> nat" where
  "be_nat [] = 0"
| "be_nat (b # bs) = unat b * 256 ^ length bs + be_nat bs"

lemma be_nat_bound: "be_nat bs < 256 ^ length bs"
proof (induction bs)
  case (Cons b bs)
  have "unat b < 256" using unat_bound [of b] by simp
  then have "unat b * 256 ^ length bs \<le> 255 * 256 ^ length bs" by (intro mult_le_mono1) simp
  then have "unat b * 256 ^ length bs + be_nat bs < 256 * 256 ^ length bs"
    using Cons.IH by linarith
  then show ?case by simp
qed simp

lemma be_nat_snoc: "be_nat (bs @ [b]) = 256 * be_nat bs + unat b"
  by (induction bs) (auto simp: algebra_simps)

lemma be_nat_less_iff_lexordp:
  "length xs = length ys \<Longrightarrow> be_nat xs < be_nat ys \<longleftrightarrow> ord_class.lexordp xs ys"
proof (induction xs ys rule: list_induct2)
  case (Cons x xs y ys)
  have bx: "be_nat xs < 256 ^ length ys" and by': "be_nat ys < 256 ^ length ys"
    using be_nat_bound [of xs] be_nat_bound [of ys] Cons.hyps by simp_all
  have lt: "be_nat (a # as) < be_nat (b # bs)"
    if "a < b" "length as = length bs" for a b as bs
  proof -
    have "unat a + 1 \<le> unat b" using that(1) by (simp add: word_less_nat_alt)
    then have "(unat a + 1) * 256 ^ length bs \<le> unat b * 256 ^ length bs" by (rule mult_le_mono1)
    then show ?thesis using be_nat_bound [of as] that(2) by simp
  qed
  show ?case
  proof (cases x y rule: linorder_cases)
    case less
    then show ?thesis using lt [of x y xs ys] Cons.hyps by simp
  next
    case equal
    then show ?thesis using Cons by simp
  next
    case greater
    then show ?thesis using lt [of y x ys xs] Cons.hyps by simp
  qed
qed simp

lemma unat_from_le_bytes:
  "8 * length bs \<le> LENGTH('a::len) \<Longrightarrow> unat (from_le_bytes bs :: 'a word) = be_nat (rev bs)"
proof (induction bs)
  case (Cons b bs)
  let ?w = "from_le_bytes bs :: 'a word"
  have IH: "unat ?w = be_nat (rev bs)" using Cons by simp
  have "8 + 8 * length bs \<le> LENGTH('a)" using Cons.prems by simp
  then have pw: "(256::nat) * 256 ^ length bs \<le> 2 ^ LENGTH('a)"
    using power_increasing [of "8 + 8 * length bs" "LENGTH('a)" "2::nat"]
    by (simp add: power_add power_mult)
  have ub: "unat b < 256" using unat_bound [of b] by simp
  have bnd: "256 * unat ?w + unat b < 2 ^ LENGTH('a)"
    using be_nat_bound [of "rev bs"] IH ub pw by simp
  have uc: "unat (ucast b :: 'a word) = unat b"
    using ub bnd by (simp add: unsigned_ucast_eq take_bit_eq_mod)
  have pb: "unat (push_bit 8 ?w) = 256 * unat ?w"
    using bnd by (subst unsigned_push_bit_eq)
      (simp add: push_bit_nat_eq take_bit_eq_mod push_bit_eq_mult mult.commute)
  have "unat (ucast b OR push_bit 8 ?w) = unat (ucast b + push_bit 8 ?w)"
  proof -
    have "ucast b AND push_bit 8 ?w = 0"
      by (rule bit_word_eqI) (auto simp: bit_and_iff bit_push_bit_iff bit_unsigned_iff
          dest: bit_imp_le_length)
    then show ?thesis by (simp add: disjunctive_add_eq_or)
  qed
  also have "\<dots> = unat b + 256 * unat ?w"
    using bnd uc pb by (subst unat_add_no_wrap) simp_all
  finally show ?case using IH by (simp add: be_nat_snoc)
qed simp

theorem root_order_is_byte_order:
  "(a :: bytes32) < b \<longleftrightarrow> ord_class.lexordp (be_bytes 32 a) (be_bytes 32 b)"
proof -
  have "unat w = be_nat (be_bytes 32 w)" for w :: bytes32
    using unat_from_le_bytes [of "le_bytes 32 w", where 'a = 256] from_le_le_bytes [of 32 w]
    by (simp add: be_bytes_def)
  then have "a < b \<longleftrightarrow> be_nat (be_bytes 32 a) < be_nat (be_bytes 32 b)"
    by (simp add: word_less_nat_alt)
  then show ?thesis by (simp add: be_nat_less_iff_lexordp)
qed

section \<open>SSZ primitives\<close>

subsection \<open>Encoders and decoders\<close>

text \<open>\<^verbatim>\<open>fixed_len\<close> checks of the \<^verbatim>\<open>decode_ssz_checked\<close> functions: the exact length, or an
  error with the expected and the actual length.\<close>

definition checked_len :: "string \<Rightarrow> nat \<Rightarrow> (u8 list \<Rightarrow> 'a result) \<Rightarrow> u8 list \<Rightarrow> 'a result" where
  "checked_len message n decode bytes =
     (if length bytes \<noteq> n then Inl (ErrFmt message [n, length bytes]) else decode bytes)"

definition uint64_encode :: "u64 \<Rightarrow> u8 list result" where
  "uint64_encode v = encode_with 8 [(0, le64 v)]"

text \<open>\<^verbatim>\<open>buf.copy_from_slice(bytes)\<close> panics unless there are exactly eight bytes.\<close>

definition uint64_decode :: "u8 list \<Rightarrow> u64 result" where
  "uint64_decode bytes = (if length bytes = 8 then Inr (from_le_bytes bytes) else Inl Panic)"

text \<open>Reading a little-endian \<^verbatim>\<open>u32\<close> offset at \<^verbatim>\<open>bytes[i..i + 4]\<close>, as a \<^verbatim>\<open>usize\<close>.\<close>

definition offset_at :: "nat \<Rightarrow> u8 list \<Rightarrow> nat result" where
  "offset_at i bytes =
     and_then (slice i (i + 4) bytes) (\<lambda>b. Inr (unat (from_le_bytes b :: u32)))"

definition bytes52_from_slice :: "u8 list \<Rightarrow> bytes52 result" where
  "bytes52_from_slice bytes = and_then (slice 0 52 bytes) (\<lambda>b. Inr (from_be_bytes b))"

definition bytes3112_from_slice :: "u8 list \<Rightarrow> bytes3112 result" where
  "bytes3112_from_slice bytes = and_then (slice 0 3112 bytes) (\<lambda>b. Inr (from_be_bytes b))"

definition bytes52_encode :: "bytes52 \<Rightarrow> u8 list result" where
  "bytes52_encode v = encode_with 52 [(0, be_bytes 52 v)]"

definition bytes52_decode :: "u8 list \<Rightarrow> bytes52 result" where
  "bytes52_decode bytes = bytes52_from_slice bytes"

definition bytes3112_encode :: "bytes3112 \<Rightarrow> u8 list result" where
  "bytes3112_encode v = encode_with 3112 [(0, be_bytes 3112 v)]"

definition bytes3112_decode :: "u8 list \<Rightarrow> bytes3112 result" where
  "bytes3112_decode bytes = bytes3112_from_slice bytes"

text \<open>\<^verbatim>\<open>ByteList<LIMIT>\<close> holds a vector of at most \<open>limit\<close> bytes.\<close>

definition byte_list_new :: "nat \<Rightarrow> u8 list \<Rightarrow> u8 list result" where
  "byte_list_new limit data =
     (if length data > limit
      then Inl (ErrFmt ''ByteList length {} exceeds limit {}'' [length data, limit]) else Inr data)"

definition byte_list_encode :: "u8 list \<Rightarrow> u8 list result" where
  "byte_list_encode data = Inr data"

definition byte_list_decode :: "u8 list \<Rightarrow> u8 list result" where
  "byte_list_decode bytes = Inr bytes"

definition byte_list_decode_checked :: "nat \<Rightarrow> u8 list \<Rightarrow> u8 list result" where
  "byte_list_decode_checked limit bytes =
     (if length bytes > limit
      then Inl (ErrFmt ''ByteList length {} exceeds limit {}'' [length bytes, limit])
      else byte_list_decode bytes)"

subsection \<open>The contract of fixed-length types\<close>

locale fixed_layout =
  fixes enc :: "'a \<Rightarrow> u8 list result" and dec :: "u8 list \<Rightarrow> 'a result" and n :: nat
  assumes enc_total: "\<exists>bs. enc x = Inr bs \<and> length bs = n"
    and enc_dec: "length bs = n \<Longrightarrow> \<exists>x. dec bs = Inr x \<and> enc x = Inr bs"
begin

lemma enc_length: "enc x = Inr bs \<Longrightarrow> length bs = n"
  using enc_total [of x] by auto

lemma checked_graceful: "graceful (checked_len message n dec bs)"
  using enc_dec [of bs] by (auto simp: checked_len_def)

lemma checked_sound: "checked_len message n dec bs = Inr x \<Longrightarrow> enc x = Inr bs"
  using enc_dec [of bs] by (auto simp: checked_len_def split: if_splits)

lemma checked_rejects:
  "length bs \<noteq> n \<Longrightarrow> checked_len message n dec bs = Inl (ErrFmt message [n, length bs])"
  by (simp add: checked_len_def)

end

locale fixed_codec = fixed_layout +
  assumes dec_enc: "enc x = Inr bs \<Longrightarrow> dec bs = Inr x"
begin

lemma enc_inject: "enc x = enc y \<Longrightarrow> x = y"
proof -
  assume eq: "enc x = enc y"
  obtain bs where bs: "enc x = Inr bs" using enc_total [of x] by auto
  with eq have "enc y = Inr bs" by simp
  with bs have "dec bs = Inr x" "dec bs = Inr y" by (auto intro: dec_enc)
  then show "x = y" by simp
qed

text \<open>The checked decoder accepts exactly the encodings.\<close>

lemma checked_iff: "checked_len message n dec bs = Inr x \<longleftrightarrow> enc x = Inr bs"
proof
  assume "enc x = Inr bs"
  then have "length bs = n" and "dec bs = Inr x" by (rule enc_length, rule dec_enc)
  then show "checked_len message n dec bs = Inr x" by (simp add: checked_len_def)
qed (rule checked_sound)

lemma checked_roundtrip: "and_then (enc x) (checked_len message n dec) = Inr x"
proof -
  obtain bs where "enc x = Inr bs" using enc_total [of x] by auto
  then show ?thesis using checked_iff by simp
qed

end

lemma uint64_encode_eq [codec_simps]: "uint64_encode v = Inr (le64 v)"
  unfolding uint64_encode_def by (subst encode_with_tiles) simp_all

lemma bytes52_encode_eq [codec_simps]: "bytes52_encode v = Inr (be_bytes 52 v)"
  unfolding bytes52_encode_def by (subst encode_with_tiles) simp_all

lemma bytes3112_encode_eq [codec_simps]: "bytes3112_encode v = Inr (be_bytes 3112 v)"
  unfolding bytes3112_encode_def by (subst encode_with_tiles) simp_all

lemma uint64_decode_eq [codec_simps]: "length bs = 8 \<Longrightarrow> uint64_decode bs = Inr (from_le_bytes bs)"
  by (simp add: uint64_decode_def)

lemma bytes52_decode_eq [codec_simps]: "length bs = 52 \<Longrightarrow> bytes52_decode bs = Inr (from_be_bytes bs)"
  by (simp add: bytes52_decode_def bytes52_from_slice_def slice_def)

lemma bytes3112_decode_eq [codec_simps]:
  "length bs = 3112 \<Longrightarrow> bytes3112_decode bs = Inr (from_be_bytes bs)"
  by (simp add: bytes3112_decode_def bytes3112_from_slice_def slice_def)

interpretation uint64: fixed_codec uint64_encode uint64_decode 8
  by unfold_locales (auto simp: codec_simps)

interpretation bytes52: fixed_codec bytes52_encode bytes52_decode 52
  by unfold_locales (auto simp: codec_simps)

interpretation bytes3112: fixed_codec bytes3112_encode bytes3112_decode 3112
  by unfold_locales (auto simp: codec_simps)

lemma byte_list_checked_iff:
  "byte_list_decode_checked limit bs = Inr d \<longleftrightarrow> d = bs \<and> length bs \<le> limit"
  by (auto simp: byte_list_decode_checked_def byte_list_decode_def)

lemma offset_at_le32 [simp]: "length xs = i \<Longrightarrow> offset_at i (xs @ le32 w @ ys) = Inr (unat w)"
  by (simp add: offset_at_def slice_def)

lemma offset_at_0_le32 [simp]: "offset_at 0 (le32 w @ ys) = Inr (unat w)"
  by (simp add: offset_at_def slice_def)

lemma offset_at_graceful: "i + 4 \<le> length bs \<Longrightarrow> graceful (offset_at i bs)"
  by (simp add: offset_at_def slice_def)

end
