(* ===== verification/Slot.thy ===== *)
theory Slot
  imports Prelude
begin

text \<open>
  Slot arithmetic and slot timing: \<^verbatim>\<open>src/slot.rs\<close>. A \<^verbatim>\<open>Slot\<close> is a newtype around
  \<^verbatim>\<open>Uint64\<close>, hence a \<open>u64\<close>. The theory proves that the bit-by-bit integer square root
  is the floor of the square root, that \<open>is_justifiable_after\<close> decides the 3SF-mini rule
  (distance at most 5, a square, or a pronic number), and the timing of slots and
  intervals on the wall clock.
\<close>

type_synonym slot = u64

section \<open>Definitions\<close>

subsection \<open>Constants\<close>

definition SLOT_DURATION_SECS :: u64 where "SLOT_DURATION_SECS = 4"
definition SLOT_DURATION_MILLIS :: u128 where
  "SLOT_DURATION_MILLIS = ucast SLOT_DURATION_SECS * 1000"
definition INTERVALS_PER_SLOT :: u64 where "INTERVALS_PER_SLOT = 5"
definition SLOT_INTERVAL_MILLIS :: u128 where
  "SLOT_INTERVAL_MILLIS = SLOT_DURATION_MILLIS div ucast INTERVALS_PER_SLOT"
definition ACCEPTANCE_INTERVAL_INDEX :: u64 where "ACCEPTANCE_INTERVAL_INDEX = 4"
definition SAFE_TARGET_INTERVAL_INDEX :: u64 where "SAFE_TARGET_INTERVAL_INDEX = 3"
definition AGGREGATION_INTERVAL_INDEX :: u64 where "AGGREGATION_INTERVAL_INDEX = 2"
definition ATTESTATION_INTERVAL_INDEX :: u64 where "ATTESTATION_INTERVAL_INDEX = 1"

subsection \<open>Justification distance\<close>

definition justified_index_after :: "slot \<Rightarrow> slot \<Rightarrow> u64 option" where
  "justified_index_after candidate_slot finalized_slot =
     (if candidate_slot \<le> finalized_slot then None
      else Some (candidate_slot - finalized_slot - 1))"

text \<open>\<open>isqrt_shrink\<close> is the first loop of \<^verbatim>\<open>isqrt_u64\<close>, \<open>isqrt_loop\<close> the second.\<close>

function isqrt_shrink :: "u64 \<Rightarrow> u64 \<Rightarrow> u64" where
  "isqrt_shrink x b = (if b > x then isqrt_shrink x (drop_bit 2 b) else b)"
  by pat_completeness auto
termination
proof (relation "measure (\<lambda>(x, b). unat b)")
  fix x b :: u64
  assume "x < b"
  then have "0 < unat b" by (simp add: word_less_nat_alt)
  then show "((x, drop_bit 2 b), (x, b)) \<in> measure (\<lambda>(x, b). unat b)"
    by (simp add: unat_drop_bit)
qed simp

function isqrt_loop :: "u64 \<Rightarrow> u64 \<Rightarrow> u64 \<Rightarrow> u64" where
  "isqrt_loop x res b =
     (if b \<noteq> 0 then
        (let tmp = res + b in
         if x \<ge> tmp then isqrt_loop (x - tmp) (drop_bit 1 res + b) (drop_bit 2 b)
         else isqrt_loop x (drop_bit 1 res) (drop_bit 2 b))
      else res)"
  by pat_completeness auto
termination
proof (relation "measure (\<lambda>(x, res, b). unat b)")
  fix x res b tmp :: u64
  assume "b \<noteq> 0"
  then have "0 < unat b" by (simp add: unat_gt_0)
  then have *: "unat (drop_bit 2 b) < unat b"
    by (simp add: unat_drop_bit)
  then show "((x - tmp, drop_bit 1 res + b, drop_bit 2 b), x, res, b)
      \<in> measure (\<lambda>(x, res, b). unat b)" by simp
  from * show "((x, drop_bit 1 res, drop_bit 2 b), x, res, b)
      \<in> measure (\<lambda>(x, res, b). unat b)" by simp
qed simp

declare isqrt_shrink.simps [simp del] isqrt_loop.simps [simp del]

definition isqrt_u64 :: "u64 \<Rightarrow> u64" where
  "isqrt_u64 n = isqrt_loop n 0 (isqrt_shrink n (push_bit 62 1))"

definition is_justifiable_after :: "slot \<Rightarrow> slot \<Rightarrow> bool result" where
  "is_justifiable_after candidate_slot finalized_slot =
     (if candidate_slot < finalized_slot
      then Inl (Err ''candidate slot must be >= finalized slot'')
      else let delta = candidate_slot - finalized_slot in
        if delta \<le> 5 then Inr True
        else let sqrt = isqrt_u64 delta in
          if sqrt * sqrt = delta then Inr True
          else let four_delta_plus_one = 4 * delta + 1;
                   sqrt2 = isqrt_u64 four_delta_plus_one
               in Inr (sqrt2 * sqrt2 = four_delta_plus_one \<and> sqrt2 mod 2 = 1))"

subsection \<open>Wall clock\<close>

definition slot_index_from_unix_millis :: "u64 \<Rightarrow> u128 \<Rightarrow> u64" where
  "slot_index_from_unix_millis genesis_time_secs unix_now_millis =
     (let genesis_millis = ucast genesis_time_secs * 1000;
          elapsed = saturating_sub unix_now_millis genesis_millis
      in ucast (elapsed div SLOT_DURATION_MILLIS))"

definition slot_index_from_unix_secs :: "u64 \<Rightarrow> u64 \<Rightarrow> u64" where
  "slot_index_from_unix_secs genesis_time_secs unix_now_secs =
     slot_index_from_unix_millis genesis_time_secs (ucast unix_now_secs * 1000)"

text \<open>The \<^verbatim>\<open>Duration\<close> returned is its number of milliseconds.\<close>

definition next_slot_boundary_delay :: "u64 \<Rightarrow> u128 \<Rightarrow> u64" where
  "next_slot_boundary_delay genesis_time_secs unix_now_millis =
     (let genesis_millis = ucast genesis_time_secs * 1000;
          elapsed = saturating_sub unix_now_millis genesis_millis;
          next_slot = elapsed div SLOT_DURATION_MILLIS + 1;
          next_boundary_millis = genesis_millis + next_slot * SLOT_DURATION_MILLIS;
          delay_millis = saturating_sub next_boundary_millis unix_now_millis
      in ucast (min delay_millis (ucast (- 1 :: u64))))"

definition interval_index_from_unix_millis :: "u64 \<Rightarrow> u128 \<Rightarrow> u64" where
  "interval_index_from_unix_millis genesis_time_secs unix_now_millis =
     (let genesis_millis = ucast genesis_time_secs * 1000;
          elapsed = saturating_sub unix_now_millis genesis_millis;
          in_slot = elapsed mod SLOT_DURATION_MILLIS
      in ucast (in_slot div SLOT_INTERVAL_MILLIS))"

section \<open>The integer square root\<close>

text \<open>
  Stage \<open>k\<close> of the loop has fixed the bits of the root above \<open>k\<close> in a number \<open>R\<close>:
  \<open>res\<close> holds \<open>R * 2 ^ (k + 1)\<close> and \<open>x\<close> what is left of the radicand, \<open>n - R\<^sup>2\<close>.
\<close>

lemma root_below_two_32:
  fixes R n k :: nat
  assumes "R\<^sup>2 \<le> n" "n < 2 ^ 64" "2 ^ Suc k dvd R" "k \<le> 31"
  shows "R + 2 ^ Suc k \<le> 2 ^ 32"
proof -
  have "R\<^sup>2 < (2 ^ 32)\<^sup>2" using assms by (simp flip: power_mult)
  then have "R < 2 ^ 32" by (rule power_less_imp_less_base) simp
  moreover have "(2::nat) ^ Suc k dvd 2 ^ 32" using assms(4) by (intro le_imp_power_dvd) simp
  ultimately show ?thesis using assms(3)
    by (metis dvd_add_right_iff dvd_diff_nat dvd_imp_le le_add_diff_inverse less_imp_le_nat
        nat_add_left_cancel_le zero_less_diff)
qed

definition isqrt_stage :: "nat \<Rightarrow> nat \<Rightarrow> nat \<Rightarrow> u64 \<Rightarrow> u64 \<Rightarrow> bool" where
  "isqrt_stage m n R x res \<longleftrightarrow>
     unat res = R * 2 ^ m \<and> 2 ^ m dvd R \<and> unat x + R\<^sup>2 = n \<and> n < (R + 2 ^ m)\<^sup>2"

lemma isqrt_step:
  assumes b: "unat b = 4 ^ k" and k: "k \<le> 31" and n: "n < 2 ^ 64"
    and stage: "isqrt_stage (Suc k) n R x res"
  shows "\<exists>R' x' res'. isqrt_loop x res b = isqrt_loop x' res' (drop_bit 2 b) \<and>
           isqrt_stage k n R' x' res'"
proof -
  define d :: nat where "d = 2 ^ k"
  have d2: "2 ^ Suc k = 2 * d" and dpos: "0 < d" by (simp_all add: d_def)
  from stage have res: "unat res = R * (2 * d)" and dvd: "2 * d dvd R"
    and x: "unat x + R\<^sup>2 = n" and up: "n < (R + 2 * d)\<^sup>2"
    unfolding isqrt_stage_def d2 by simp_all
  have "d * d = (2 * 2) ^ k" unfolding d_def by (rule power_mult_distrib [symmetric])
  then have b': "unat b = d * d" using b by simp
  have "R + 2 * d \<le> 2 ^ 32"
    using root_below_two_32 [of R n k] x n dvd k unfolding d2 by simp
  then have "R + d < 2 ^ 32" using dpos by linarith
  then have "(R + d)\<^sup>2 < (2 ^ 32)\<^sup>2" by (rule power_strict_mono) simp_all
  then have sq: "(R + d) * (R + d) < 2 ^ 64" by (simp add: power2_eq_square)
  have tmp_lt: "R * (2 * d) + d * d < 2 ^ 64"
    by (rule le_less_trans [OF _ sq]) (simp add: algebra_simps)
  have tmp: "unat (res + b) = R * (2 * d) + d * d"
    using tmp_lt by (subst unat_add_no_wrap) (simp_all add: res b')
  have bnz: "b \<noteq> 0" using b' dpos by (auto simp: word_eq_iff_unat)
  have half: "unat (drop_bit 1 res) = R * d"
    by (simp add: unat_drop_bit res)
  have ddvd: "d dvd R" using dvd by (rule dvd_mult_right)
  show ?thesis
  proof (cases "res + b \<le> x")
    case True
    have le: "R * (2 * d) + d * d \<le> unat x"
      using True tmp by (simp add: word_le_nat_alt)
    have x': "unat (x - (res + b)) + (R + d)\<^sup>2 = n"
      using True tmp le x by (simp add: unat_diff_le power2_eq_square algebra_simps)
    have "R * d + d * d < 2 ^ 64" using tmp_lt by simp
    then have r': "unat (drop_bit 1 res + b) = (R + d) * d"
      using half b' by (subst unat_add_no_wrap) (simp_all add: distrib_right)
    have "n < (R + d + d)\<^sup>2" using up by (simp add: mult_2 add.assoc)
    then have "isqrt_stage k n (R + d) (x - (res + b)) (drop_bit 1 res + b)"
      using r' ddvd x' unfolding isqrt_stage_def d_def [symmetric] by simp
    then show ?thesis
      using True bnz by (subst isqrt_loop.simps) (auto simp: Let_def)
  next
    case False
    then have "unat x < R * (2 * d) + d * d"
      using tmp by (simp add: word_le_nat_alt)
    then have "n < (R + d)\<^sup>2" using x by (simp add: power2_eq_square algebra_simps)
    then have "isqrt_stage k n R x (drop_bit 1 res)"
      using half ddvd x unfolding isqrt_stage_def d_def [symmetric] by simp
    then show ?thesis
      using False bnz by (subst isqrt_loop.simps) (auto simp: Let_def)
  qed
qed

lemma isqrt_loop_correct:
  assumes "unat b = 4 ^ k" "k \<le> 31" "n < 2 ^ 64" "isqrt_stage (Suc k) n R x res"
  shows "(unat (isqrt_loop x res b))\<^sup>2 \<le> n \<and> n < (unat (isqrt_loop x res b) + 1)\<^sup>2"
  using assms
proof (induction k arbitrary: x res b R)
  case 0
  obtain R' x' res' where "isqrt_loop x res b = isqrt_loop x' res' (drop_bit 2 b)"
    and st: "isqrt_stage 0 n R' x' res'"
    using isqrt_step [OF 0(1,2,3,4)] by blast
  moreover have "drop_bit 2 b = 0" using 0(1) by (simp add: word_eq_iff_unat unat_drop_bit)
  ultimately have "isqrt_loop x res b = res'" by (simp add: isqrt_loop.simps)
  then show ?case using st by (auto simp: isqrt_stage_def)
next
  case (Suc k)
  obtain R' x' res' where "isqrt_loop x res b = isqrt_loop x' res' (drop_bit 2 b)"
    and "isqrt_stage (Suc k) n R' x' res'"
    using isqrt_step [OF Suc.prems] by blast
  moreover have "unat (drop_bit 2 b) = 4 ^ k" using Suc.prems(1) by (simp add: unat_drop_bit)
  ultimately show ?case using Suc.IH [of "drop_bit 2 b" R' x' res'] Suc.prems by simp
qed

lemma isqrt_shrink_pow4:
  assumes "unat b = 4 ^ k" "unat x < 4 ^ Suc k" "x \<noteq> 0"
  shows "\<exists>j \<le> k. unat (isqrt_shrink x b) = 4 ^ j \<and> unat x < 4 ^ Suc j"
  using assms
proof (induction k arbitrary: b)
  case 0
  then have "\<not> x < b" by (auto simp: word_less_nat_alt word_eq_iff_unat)
  with 0 show ?case by (subst isqrt_shrink.simps) auto
next
  case (Suc k)
  show ?case
  proof (cases "x < b")
    case True
    then have "unat x < 4 ^ Suc k" using Suc.prems(1) by (simp add: word_less_nat_alt)
    moreover have "unat (drop_bit 2 b) = 4 ^ k" using Suc.prems(1) by (simp add: unat_drop_bit)
    ultimately obtain j where "j \<le> k" "unat (isqrt_shrink x (drop_bit 2 b)) = 4 ^ j"
      "unat x < 4 ^ Suc j" using Suc.IH Suc.prems(3) by blast
    then show ?thesis using True by (subst isqrt_shrink.simps) (auto intro: exI [of _ j])
  next
    case False
    then show ?thesis using Suc.prems by (subst isqrt_shrink.simps) auto
  qed
qed

lemma isqrt_shrink_zero: "isqrt_shrink 0 b = 0"
proof (induction "unat b" arbitrary: b rule: less_induct)
  case less
  show ?case
  proof (cases "b = 0")
    case False
    then have "unat (drop_bit 2 b) < unat b" by (simp add: unat_drop_bit unat_gt_0)
    with less False show ?thesis by (subst isqrt_shrink.simps) (simp add: word_neq_0_conv)
  qed (simp add: isqrt_shrink.simps)
qed

lemma isqrt_u64_bounds:
  "(unat (isqrt_u64 n))\<^sup>2 \<le> unat n \<and> unat n < (unat (isqrt_u64 n) + 1)\<^sup>2"
proof (cases "n = 0")
  case True
  then show ?thesis by (simp add: isqrt_u64_def isqrt_shrink_zero isqrt_loop.simps)
next
  case False
  have "unat (push_bit 62 (1::u64)) = 4 ^ 31" by simp
  moreover have lt: "unat n < 4 ^ Suc 31" using unat_bound [of n] by simp
  ultimately obtain j where j: "j \<le> 31" "unat (isqrt_shrink n (push_bit 62 1)) = 4 ^ j"
    "unat n < 4 ^ Suc j" using isqrt_shrink_pow4 False by blast
  have "(2::nat) ^ Suc j * 2 ^ Suc j = (2 * 2) ^ Suc j" by (rule power_mult_distrib [symmetric])
  then have "(0 + (2::nat) ^ Suc j)\<^sup>2 = 4 ^ Suc j" by (simp only: power2_eq_square add_0) simp
  then have "isqrt_stage (Suc j) (unat n) 0 n 0"
    using j(3) unfolding isqrt_stage_def by (simp only: unat_0) simp
  then show ?thesis
    using isqrt_loop_correct [OF j(2,1) _] lt by (simp add: isqrt_u64_def)
qed


section \<open>Justifiable slots\<close>

lemma isqrt_square_iff:
  "isqrt_u64 n * isqrt_u64 n = n \<longleftrightarrow> (\<exists>m. unat n = m * m)"
proof -
  let ?r = "unat (isqrt_u64 n)"
  have fl: "?r * ?r \<le> unat n" "unat n < (?r + 1) * (?r + 1)"
    using isqrt_u64_bounds [of n] by (simp_all add: power2_eq_square)
  have "?r * ?r < 2 ^ LENGTH(64)" using fl(1) unat_bound [of n] by simp
  then have "unat (isqrt_u64 n * isqrt_u64 n) = ?r * ?r" by (rule unat_mult_no_wrap)
  then have "isqrt_u64 n * isqrt_u64 n = n \<longleftrightarrow> ?r * ?r = unat n" by (simp add: word_eq_iff_unat)
  also have "\<dots> \<longleftrightarrow> (\<exists>m. unat n = m * m)"
  proof
    assume "\<exists>m. unat n = m * m"
    then obtain m where m: "unat n = m * m" ..
    have "?r \<le> m"
    proof (rule ccontr)
      assume "\<not> ?r \<le> m"
      then have "m * m < ?r * ?r" by (simp add: mult_strict_mono)
      with fl(1) m show False by simp
    qed
    moreover have "m < ?r + 1"
    proof (rule ccontr)
      assume "\<not> m < ?r + 1"
      then have "(?r + 1) * (?r + 1) \<le> m * m" by (intro mult_le_mono) simp_all
      with fl(2) m show False by simp
    qed
    ultimately have "m = ?r" by simp
    then show "?r * ?r = unat n" using m by simp
  next
    assume "?r * ?r = unat n"
    then show "\<exists>m. unat n = m * m" by (intro exI [of _ ?r]) simp
  qed
  finally show ?thesis .
qed

text \<open>\<open>4 d + 1\<close> is a square exactly when \<open>d\<close> is a product of two consecutive numbers.\<close>

lemma four_d_plus_one_square:
  "(\<exists>s. 4 * d + 1 = s * s) \<longleftrightarrow> (\<exists>m. d = m * (m + 1))" for d :: nat
proof
  assume "\<exists>s. 4 * d + 1 = s * s"
  then obtain s where s: "4 * d + 1 = s * s" ..
  have "odd (s * s)" unfolding s [symmetric] by simp
  then have "odd s" by simp
  then obtain m where "s = 2 * m + 1" by (blast elim: oddE)
  with s have "4 * d = 4 * (m * (m + 1))" by (simp add: algebra_simps)
  then have "d = m * (m + 1)" by (simp only: mult_cancel1) simp
  then show "\<exists>m. d = m * (m + 1)" ..
next
  assume "\<exists>m. d = m * (m + 1)"
  then obtain m where "d = m * (m + 1)" ..
  then have "4 * d + 1 = (2 * m + 1) * (2 * m + 1)" by (simp add: algebra_simps)
  then show "\<exists>s. 4 * d + 1 = s * s" ..
qed

lemma odd_isqrt:
  assumes "isqrt_u64 n * isqrt_u64 n = n" "odd (unat n)"
  shows "isqrt_u64 n mod 2 = 1"
proof -
  have "bit (unat n) 0" using assms(2) by (simp only: bit_0 not_False_eq_True)
  then have "bit n 0" by (simp only: bit_unsigned_iff)
  then have "odd n" by (simp only: bit_0 not_False_eq_True)
  then have "odd (isqrt_u64 n * isqrt_u64 n)" unfolding assms(1) .
  then have "odd (isqrt_u64 n)" by simp
  then show ?thesis by (simp add: odd_iff_mod_2_eq_one)
qed

text \<open>The 3SF-mini rule on the distance between a slot and the last finalized slot.\<close>

definition justifiable_distance :: "nat \<Rightarrow> bool" where
  "justifiable_distance d \<longleftrightarrow> d \<le> 5 \<or> (\<exists>m. d = m * m) \<or> (\<exists>m. d = m * (m + 1))"

lemma is_justifiable_after_eq:
  assumes "finalized \<le> candidate" and small: "unat candidate - unat finalized < 2 ^ 62"
  shows "is_justifiable_after candidate finalized =
           Inr (justifiable_distance (unat candidate - unat finalized))"
proof -
  define d where "d = candidate - finalized"
  define e where "e = 4 * d + 1"
  have d: "unat d = unat candidate - unat finalized"
    using assms(1) unfolding d_def by (rule unat_diff_le)
  have m4: "unat (4 * d) = 4 * unat d"
    using small d by (subst unat_mult_no_wrap) simp_all
  have e: "unat e = 4 * unat d + 1"
    using small d m4 unfolding e_def by (subst unat_add_no_wrap) simp_all
  have le5: "d \<le> 5 \<longleftrightarrow> unat d \<le> 5" by (simp add: word_le_nat_alt)
  have sq: "isqrt_u64 e * isqrt_u64 e = e \<longleftrightarrow> (\<exists>m. unat d = m * (m + 1))"
    unfolding isqrt_square_iff four_d_plus_one_square [symmetric] e ..
  have odd: "isqrt_u64 e * isqrt_u64 e = e \<Longrightarrow> isqrt_u64 e mod 2 = 1"
    by (rule odd_isqrt) (simp_all add: e)
  have "is_justifiable_after candidate finalized =
      Inr (d \<le> 5 \<or> isqrt_u64 d * isqrt_u64 d = d \<or>
           isqrt_u64 e * isqrt_u64 e = e \<and> isqrt_u64 e mod 2 = 1)"
    using assms(1) unfolding is_justifiable_after_def Let_def d_def [symmetric] e_def [symmetric]
    by simp
  also have "\<dots> = Inr (justifiable_distance (unat d))"
    unfolding sum.inject justifiable_distance_def le5 isqrt_square_iff [of d] sq [symmetric]
    using odd by blast
  finally show ?thesis using d by simp
qed

lemma is_justifiable_after_error:
  "candidate < finalized \<Longrightarrow>
   is_justifiable_after candidate finalized = Inl (Err ''candidate slot must be >= finalized slot'')"
  by (simp add: is_justifiable_after_def)

lemma is_justifiable_after_graceful: "graceful (is_justifiable_after c f)"
  by (simp add: is_justifiable_after_def Let_def)

lemma is_justifiable_after_near:
  "f \<le> c \<Longrightarrow> c - f \<le> 5 \<Longrightarrow> is_justifiable_after c f = Inr True"
  by (simp add: is_justifiable_after_def)

text \<open>
  (integer square root). The digit-by-digit routine computes the floor of the square
  root for every 64-bit input, without wrap-around.
\<close>

theorem isqrt_u64_is_floor_sqrt:
  "unat (isqrt_u64 n) * unat (isqrt_u64 n) \<le> unat n \<and>
   unat n < (unat (isqrt_u64 n) + 1) * (unat (isqrt_u64 n) + 1)"
  using isqrt_u64_bounds [of n] by (simp add: power2_eq_square)

text \<open>
  C39 (justifiable slots). For a candidate less than \<open>2 ^ 62\<close> slots after the finalized
  slot, \<^verbatim>\<open>is_justifiable_after\<close> is the 3SF-mini rule: the distance is at most five, a
  square, or a product of two consecutive numbers. A candidate before the finalized slot is
  an error. The routine never panics.
\<close>

theorem justifiable_iff_distance_rule:
  assumes "unat candidate - unat finalized < 2 ^ 62"
  shows "is_justifiable_after candidate finalized =
    (if candidate < finalized then Inl (Err ''candidate slot must be >= finalized slot'')
     else Inr (justifiable_distance (unat candidate - unat finalized)))"
  using assms is_justifiable_after_eq is_justifiable_after_error by (auto simp: not_less)

theorem justifiable_iff_distance_rule_witness:
  "is_justifiable_after 16 4 = Inr True \<and>
   is_justifiable_after 3 4 = Inl (Err ''candidate slot must be >= finalized slot'')"
proof -
  have "\<exists>m :: nat. 12 = m * (m + 1)" by (rule exI [of _ "3 :: nat"]) simp
  then have "justifiable_distance 12" by (auto simp: justifiable_distance_def)
  then show ?thesis
    using justifiable_iff_distance_rule [of 16 4] justifiable_iff_distance_rule [of 3 4] by simp
qed

section \<open>The slot clock\<close>

lemma clock_constants [simp]:
  "SLOT_DURATION_MILLIS = 4000" "SLOT_INTERVAL_MILLIS = 800"
  by (simp_all add: SLOT_DURATION_MILLIS_def SLOT_INTERVAL_MILLIS_def SLOT_DURATION_SECS_def
      INTERVALS_PER_SLOT_def)

lemma unat_ucast_u128: "unat (ucast (g :: u64) :: u128) = unat g"
  using unat_bound [of g] by (simp add: unsigned_ucast_eq take_bit_eq_mod)

lemma unat_genesis_millis: "unat (ucast (g :: u64) * 1000 :: u128) = unat g * 1000"
  using unat_bound [of g] by (subst unat_mult_no_wrap) (simp_all add: unat_ucast_u128)

lemma len128: "LENGTH(128) = 128"
  by simp

lemma unat_elapsed:
  "unat (saturating_sub now (ucast (g :: u64) * 1000 :: u128)) = unat now - unat g * 1000"
  by (simp add: unat_saturating_sub unat_genesis_millis)

lemma unat_ucast_u64: "unat (ucast (w :: u128) :: u64) = unat w mod 2 ^ 64"
  by (simp add: unsigned_ucast_eq take_bit_eq_mod)

lemma slot_index_millis:
  "unat (slot_index_from_unix_millis g now) = ((unat now - unat g * 1000) div 4000) mod 2 ^ 64"
  by (simp add: slot_index_from_unix_millis_def Let_def unat_ucast_u64 unat_div unat_elapsed)

lemma interval_index_millis:
  "unat (interval_index_from_unix_millis g now) = (unat now - unat g * 1000) mod 4000 div 800"
proof -
  have "(unat now - unat g * 1000) mod 4000 div 800 < 2 ^ 64"
    by (rule le_less_trans [of _ "4000"]) (auto intro: order_trans [OF div_le_dividend] less_imp_le)
  then show ?thesis
    by (simp add: interval_index_from_unix_millis_def Let_def unat_ucast_u64 unat_div unat_mod
        unat_elapsed)
qed

lemma next_boundary_millis:
  assumes "unat g * 1000 + ((unat now - unat g * 1000) div 4000 + 1) * 4000 < 2 ^ 128"
  shows "unat (next_slot_boundary_delay g now) =
    min (unat g * 1000 + ((unat now - unat g * 1000) div 4000 + 1) * 4000 - unat now) (2 ^ 64 - 1)"
proof -
  let ?q = "(unat now - unat g * 1000) div 4000"
  let ?e = "saturating_sub now (ucast g * 1000 :: u128)"
  have q: "unat (?e div 4000 + 1) = ?q + 1"
    using assms by (subst unat_add_no_wrap) (simp_all add: unat_div unat_elapsed)
  have m: "unat ((?e div 4000 + 1) * 4000) = (?q + 1) * 4000"
    using assms by (subst unat_mult_no_wrap) (simp_all add: q)
  have b: "unat (ucast g * 1000 + (?e div 4000 + 1) * 4000 :: u128) =
      unat g * 1000 + (?q + 1) * 4000"
    using assms by (subst unat_add_no_wrap) (simp_all only: m unat_genesis_millis len128)
  have "unat (- 1 :: u64) = 2 ^ 64 - 1" by (simp add: unsigned_minus_1_eq_mask mask_eq_exp_minus_1)
  then have mx: "unat (ucast (- 1 :: u64) :: u128) = 2 ^ 64 - 1" by (simp only: unat_ucast_u128)
  have mn: "unat (min a c) = min (unat a) (unat c)" for a c :: u128
    by (simp add: min_def word_le_nat_alt)
  show ?thesis
    unfolding next_slot_boundary_delay_def Let_def clock_constants unat_ucast_u64 mn
      unat_saturating_sub b mx by simp
qed

text \<open>
  (slot clock). At \<open>offset\<close> milliseconds into slot \<open>s\<close> after genesis, the clock reads
  slot \<open>s\<close>, the interval is the 800 ms fifth of the slot that contains the offset, and the
  delay to the next slot boundary is what is left of the 4000 ms.
\<close>

theorem slot_clock_reads_slot:
  assumes now: "unat now = unat g * 1000 + s * 4000 + offset"
    and offset: "offset < 4000" and s: "s < 2 ^ 64" and room: "unat now + 4000 < 2 ^ 128"
  shows "unat (slot_index_from_unix_millis g now) = s \<and>
         unat (interval_index_from_unix_millis g now) = offset div 800 \<and>
         unat (next_slot_boundary_delay g now) = 4000 - offset"
proof -
  have e: "unat now - unat g * 1000 = s * 4000 + offset" using now by simp
  have q: "(s * 4000 + offset) div 4000 = s" using offset by simp
  have "unat g * 1000 + (s + 1) * 4000 < 2 ^ 128" using now room by simp
  then show ?thesis
    using offset s now next_boundary_millis [of g now]
    by (simp add: slot_index_millis interval_index_millis e q)
qed

theorem slot_clock_reads_slot_witness:
  "unat (slot_index_from_unix_millis 10 22500) = 3 \<and>
   unat (interval_index_from_unix_millis 10 22500) = 0 \<and>
   unat (next_slot_boundary_delay 10 22500) = 3500"
  using slot_clock_reads_slot [of 22500 10 3 500] by simp

text \<open>
  (before genesis). Until genesis the clock reads slot 0 and interval 0, and the delay
  leads to the boundary of slot 1, not to genesis: a ticker anchored on it before genesis
  makes no tick at the start of slot 0.
\<close>

theorem before_genesis_boundary_is_slot_one:
  assumes "unat now < unat g * 1000"
    and "unat g * 1000 + 4000 - unat now < 2 ^ 64"
  shows "slot_index_from_unix_millis g now = 0 \<and>
         interval_index_from_unix_millis g now = 0 \<and>
         unat now + unat (next_slot_boundary_delay g now) = unat g * 1000 + 4000"
proof -
  have "unat g * 1000 + 4000 < 2 ^ 128" using unat_bound [of g] by simp
  then show ?thesis
    using assms next_boundary_millis [of g now]
    by (simp add: word_eq_iff_unat slot_index_millis interval_index_millis)
qed

theorem before_genesis_boundary_is_slot_one_witness:
  "slot_index_from_unix_millis 10 9000 = 0 \<and>
   unat (9000 :: u128) + unat (next_slot_boundary_delay 10 9000) = unat (10 :: u64) * 1000 + 4000"
  using before_genesis_boundary_is_slot_one [of 9000 10] by simp

end
