(* ===== verification/Containers.thy ===== *)
theory Containers
  imports Bytes Slot
begin

text \<open>
  The consensus containers of \<^verbatim>\<open>src/containers/\<close> as records, the operations of the
  external crate \<^verbatim>\<open>peam_ssz\<close> that the sources call, and the \<^verbatim>\<open>hash_tree_root\<close>
  functions. Field names carry a prefix of their struct.

  \<^verbatim>\<open>SszList<T, N>\<close> is the list of its elements. \<^verbatim>\<open>BitList<N>\<close> is the pair of public
  fields the sources read and write directly: the backing bytes and the length in bits.
\<close>

section \<open>Data\<close>

record bitlist =
  bl_data :: "u8 list"
  bl_len :: nat

definition bitlist_default :: bitlist where
  "bitlist_default = \<lparr>bl_data = [], bl_len = 0\<rparr>"

record config =
  genesis_time :: u64

record checkpoint =
  cp_root :: bytes32
  cp_slot :: slot

type_synonym validator_index = u64

record validator =
  v_pubkey :: bytes52
  v_index :: validator_index
  v_balance :: u64

record attestation_data =
  ad_slot :: slot
  ad_head :: checkpoint
  ad_target :: checkpoint
  ad_source :: checkpoint

record attestation =
  att_bits :: bitlist
  att_data :: attestation_data

record signed_attestation =
  sa_validator_id :: u64
  sa_message :: attestation_data
  sa_signature :: bytes3112

record aggregated_signature_proof =
  ap_participants :: bitlist
  ap_proof_data :: "u8 list"

record signed_aggregated_attestation =
  saa_data :: attestation_data
  saa_proof :: aggregated_signature_proof

record block_header =
  bh_slot :: slot
  bh_proposer_index :: validator_index
  bh_parent_root :: bytes32
  bh_state_root :: bytes32
  bh_body_root :: bytes32

record block_body =
  bb_attestations :: "attestation list"

record block =
  b_slot :: slot
  b_proposer_index :: validator_index
  b_parent_root :: bytes32
  b_state_root :: bytes32
  b_body :: block_body

record block_with_attestation =
  bwa_block :: block
  bwa_proposer_attestation :: attestation

record block_signatures =
  bs_attestation_signatures :: "aggregated_signature_proof list"
  bs_proposer_signature :: bytes3112

record signed_block =
  sb_message :: block_with_attestation
  sb_signature :: block_signatures

record block_with_signatures =
  bws_block :: block
  bws_signatures :: "aggregated_signature_proof list"

record state =
  st_config :: config
  st_slot :: slot
  st_latest_block_header :: block_header
  st_latest_justified :: checkpoint
  st_latest_finalized :: checkpoint
  st_historical_block_hashes :: "bytes32 list"
  st_justified_slots :: bitlist
  st_validators :: "validator list"
  st_justifications_roots :: "bytes32 list"
  st_justifications_validators :: bitlist

definition HISTORICAL_ROOTS_LIMIT :: nat where "HISTORICAL_ROOTS_LIMIT = 262144"
definition VALIDATOR_REGISTRY_LIMIT :: nat where "VALIDATOR_REGISTRY_LIMIT = 4096"
definition JUSTIFICATION_VALIDATORS_LIMIT :: nat where
  "JUSTIFICATION_VALIDATORS_LIMIT = 1073741824"
definition ATTESTATIONS_LIMIT :: nat where "ATTESTATIONS_LIMIT = 4096"
definition SIGNATURE_BYTES :: nat where "SIGNATURE_BYTES = 3112"
definition PROOF_MAX_BYTES :: nat where "PROOF_MAX_BYTES = 1048576"
definition MAX_BLOCKS_PER_REQUEST :: nat where "MAX_BLOCKS_PER_REQUEST = 1024"

lemmas limits = HISTORICAL_ROOTS_LIMIT_def VALIDATOR_REGISTRY_LIMIT_def
  JUSTIFICATION_VALIDATORS_LIMIT_def ATTESTATIONS_LIMIT_def SIGNATURE_BYTES_def
  PROOF_MAX_BYTES_def MAX_BLOCKS_PER_REQUEST_def

section \<open>The external SSZ crate\<close>

text \<open>
  The operations of \<^verbatim>\<open>peam_ssz\<close>, whose sources are not part of the repository: hashing
  and merkleization, the bounded list operations the state transition calls, and for
  \<^verbatim>\<open>BitList\<close> and each instance of \<^verbatim>\<open>SszList\<close> the encoder, the trusting and the checked
  decoder and the hash-tree root (the \<open>nat\<close> argument is the capacity of the list type).
  Every definition that uses one takes the record as its first argument.
\<close>

record 'a seq_ops =
  sq_encode :: "'a list \<Rightarrow> u8 list result"
  sq_decode :: "nat \<Rightarrow> u8 list \<Rightarrow> 'a list result"
  sq_decode_checked :: "nat \<Rightarrow> u8 list \<Rightarrow> 'a list result"
  sq_root :: "nat \<Rightarrow> 'a list \<Rightarrow> bytes32"

record hash_ops =
  hash_nodes :: "bytes32 \<Rightarrow> bytes32 \<Rightarrow> bytes32"
  merkleize :: "bytes32 list \<Rightarrow> bytes32"
  merkleize_tree_root :: "bytes32 list \<Rightarrow> bytes32"
  merkleize_tree_root_3 :: "bytes32 list \<Rightarrow> bytes32"
  merkleize_tree_root_4 :: "bytes32 list \<Rightarrow> bytes32"
  merkleize_with_limit :: "bytes32 list \<Rightarrow> nat \<Rightarrow> bytes32 result"
  chunkify_fixed :: "u8 list \<Rightarrow> bytes32 list"
  mix_in_length :: "bytes32 \<Rightarrow> nat \<Rightarrow> bytes32"

record bits_ops =
  bits_encode :: "bitlist \<Rightarrow> u8 list"
  bits_decode :: "nat \<Rightarrow> u8 list \<Rightarrow> bitlist result"
  bits_decode_checked :: "nat \<Rightarrow> u8 list \<Rightarrow> bitlist result"
  bits_root :: "nat \<Rightarrow> bitlist \<Rightarrow> bytes32"
  bits_new :: "nat \<Rightarrow> bool list \<Rightarrow> bitlist result"

record list_ops =
  roots_push :: "nat \<Rightarrow> bytes32 list \<Rightarrow> bytes32 \<Rightarrow> bytes32 list result"
  roots_extend_copy :: "nat \<Rightarrow> bytes32 list \<Rightarrow> nat \<Rightarrow> bytes32 \<Rightarrow> bytes32 list result"
  roots_new :: "nat \<Rightarrow> bytes32 list \<Rightarrow> bytes32 list result"

record ssz_lib =
  lib_hash :: hash_ops
  lib_bits :: bits_ops
  lib_list :: list_ops
  lib_roots :: "bytes32 seq_ops"
  lib_validators :: "validator seq_ops"
  lib_attestations :: "attestation seq_ops"
  lib_proofs :: "aggregated_signature_proof seq_ops"
  lib_blocks :: "signed_block seq_ops"

text \<open>
  What the code relies on. \<^verbatim>\<open>SszList<T, N>\<close> is documented as a list bounded to \<open>N\<close>
  elements, so building or pushing within the capacity succeeds and going beyond it is an
  error value; SSZ decoders are documented to invert the encoders, and checked decoders to
  report malformed input as an error value.
\<close>

definition list_ops_bounded :: "ssz_lib \<Rightarrow> bool" where
  "list_ops_bounded L \<longleftrightarrow>
     (\<forall>limit xs x. if length xs < limit then roots_push (lib_list L) limit xs x = Inr (xs @ [x])
        else (\<exists>e. roots_push (lib_list L) limit xs x = Inl (Err e))) \<and>
     (\<forall>limit xs k x. if length xs + k \<le> limit
        then roots_extend_copy (lib_list L) limit xs k x = Inr (xs @ replicate k x)
        else (\<exists>e. roots_extend_copy (lib_list L) limit xs k x = Inl (Err e))) \<and>
     (\<forall>limit xs. if length xs \<le> limit then roots_new (lib_list L) limit xs = Inr xs
        else (\<exists>e. roots_new (lib_list L) limit xs = Inl (Err e)))"

lemma list_ops_Inr:
  assumes "list_ops_bounded L"
  shows "roots_push (lib_list L) limit xs x = Inr ys \<longleftrightarrow> length xs < limit \<and> ys = xs @ [x]"
    and "roots_extend_copy (lib_list L) limit xs k x = Inr ys \<longleftrightarrow>
      length xs + k \<le> limit \<and> ys = xs @ replicate k x"
    and "roots_new (lib_list L) limit xs = Inr ys \<longleftrightarrow> length xs \<le> limit \<and> ys = xs"
proof -
  note L = assms [unfolded list_ops_bounded_def]
  from L [THEN conjunct1, rule_format, of xs limit x]
  show "roots_push (lib_list L) limit xs x = Inr ys \<longleftrightarrow> length xs < limit \<and> ys = xs @ [x]"
    by (auto split: if_splits)
  from L [THEN conjunct2, THEN conjunct1, rule_format, of xs k limit x]
  show "roots_extend_copy (lib_list L) limit xs k x = Inr ys \<longleftrightarrow>
      length xs + k \<le> limit \<and> ys = xs @ replicate k x" by (auto split: if_splits)
  from L [THEN conjunct2, THEN conjunct2, rule_format, of xs limit]
  show "roots_new (lib_list L) limit xs = Inr ys \<longleftrightarrow> length xs \<le> limit \<and> ys = xs" by (auto split: if_splits)
qed

text \<open>A bit list as the library builds it: exactly the bytes its length needs, and no bit
  set past its length.\<close>

definition bitlist_wf :: "bitlist \<Rightarrow> bool" where
  "bitlist_wf b \<longleftrightarrow> length (bl_data b) = (bl_len b + 7) div 8 \<and>
     (\<forall>i < 8 * length (bl_data b). bl_len b \<le> i \<longrightarrow> \<not> bit (bl_data b ! (i div 8)) (i mod 8))"

definition bits_roundtrip :: "ssz_lib \<Rightarrow> nat \<Rightarrow> bitlist \<Rightarrow> bool" where
  "bits_roundtrip L limit b \<longleftrightarrow>
     bits_decode (lib_bits L) limit (bits_encode (lib_bits L) b) = Inr b \<and>
     bits_decode_checked (lib_bits L) limit (bits_encode (lib_bits L) b) = Inr b"

definition seq_roundtrip :: "'a seq_ops \<Rightarrow> nat \<Rightarrow> 'a list \<Rightarrow> u8 list \<Rightarrow> bool" where
  "seq_roundtrip ops limit xs bs \<longleftrightarrow> sq_encode ops xs = Inr bs \<and>
     sq_decode ops limit bs = Inr xs \<and> sq_decode_checked ops limit bs = Inr xs"

section \<open>Hash-tree roots\<close>

definition zero_root :: bytes32 where "zero_root = 0"

definition uint64_root :: "u64 \<Rightarrow> bytes32" where
  "uint64_root v = from_be_bytes (le64 v @ replicate 24 0)"

definition slot_root :: "slot \<Rightarrow> bytes32" where "slot_root s = uint64_root s"

definition config_root :: "config \<Rightarrow> bytes32" where
  "config_root c = uint64_root (genesis_time c)"

definition validator_index_root :: "validator_index \<Rightarrow> bytes32" where
  "validator_index_root i = uint64_root i"

definition bytes52_root :: "ssz_lib \<Rightarrow> bytes52 \<Rightarrow> bytes32" where
  "bytes52_root L v =
     hash_nodes (lib_hash L) (from_be_bytes (take 32 (be_bytes 52 v)))
       (from_be_bytes (drop 32 (be_bytes 52 v) @ replicate 12 0))"

definition byte_list_root :: "ssz_lib \<Rightarrow> nat \<Rightarrow> u8 list \<Rightarrow> bytes32" where
  "byte_list_root L limit data =
     (let chunks = chunkify_fixed (lib_hash L) data;
          limit_chunks = (limit + 31) div 32;
          root = (case merkleize_with_limit (lib_hash L) chunks limit_chunks of
                    Inl _ \<Rightarrow> zero_root | Inr r \<Rightarrow> r)
      in mix_in_length (lib_hash L) root (length data))"

definition bytes3112_root :: "ssz_lib \<Rightarrow> bytes3112 \<Rightarrow> bytes32" where
  "bytes3112_root L v =
     (let chunks = chunkify_fixed (lib_hash L) (be_bytes 3112 v)
      in case merkleize_with_limit (lib_hash L) chunks (length chunks) of
           Inl _ \<Rightarrow> zero_root | Inr r \<Rightarrow> r)"

definition checkpoint_root :: "ssz_lib \<Rightarrow> checkpoint \<Rightarrow> bytes32" where
  "checkpoint_root L c = hash_nodes (lib_hash L) (cp_root c) (slot_root (cp_slot c))"

definition validator_root :: "ssz_lib \<Rightarrow> validator \<Rightarrow> bytes32" where
  "validator_root L v =
     hash_nodes (lib_hash L) (bytes52_root L (v_pubkey v)) (validator_index_root (v_index v))"

definition attestation_data_root :: "ssz_lib \<Rightarrow> attestation_data \<Rightarrow> bytes32" where
  "attestation_data_root L d =
     (let left = hash_nodes (lib_hash L) (slot_root (ad_slot d)) (checkpoint_root L (ad_head d));
          right = hash_nodes (lib_hash L) (checkpoint_root L (ad_target d))
                    (checkpoint_root L (ad_source d))
      in hash_nodes (lib_hash L) left right)"

definition attestation_root :: "ssz_lib \<Rightarrow> attestation \<Rightarrow> bytes32" where
  "attestation_root L a =
     hash_nodes (lib_hash L) (bits_root (lib_bits L) VALIDATOR_REGISTRY_LIMIT (att_bits a))
       (attestation_data_root L (att_data a))"

definition signed_attestation_root :: "ssz_lib \<Rightarrow> signed_attestation \<Rightarrow> bytes32" where
  "signed_attestation_root L a =
     merkleize_tree_root_3 (lib_hash L)
       [uint64_root (sa_validator_id a), attestation_data_root L (sa_message a),
        bytes3112_root L (sa_signature a)]"

definition aggregated_signature_proof_root :: "ssz_lib \<Rightarrow> aggregated_signature_proof \<Rightarrow> bytes32" where
  "aggregated_signature_proof_root L p =
     hash_nodes (lib_hash L)
       (bits_root (lib_bits L) VALIDATOR_REGISTRY_LIMIT (ap_participants p))
       (byte_list_root L PROOF_MAX_BYTES (ap_proof_data p))"

definition signed_aggregated_attestation_root ::
    "ssz_lib \<Rightarrow> signed_aggregated_attestation \<Rightarrow> bytes32" where
  "signed_aggregated_attestation_root L a =
     hash_nodes (lib_hash L) (attestation_data_root L (saa_data a))
       (aggregated_signature_proof_root L (saa_proof a))"

definition block_header_root :: "ssz_lib \<Rightarrow> block_header \<Rightarrow> bytes32" where
  "block_header_root L h =
     merkleize_tree_root (lib_hash L)
       [slot_root (bh_slot h), validator_index_root (bh_proposer_index h), bh_parent_root h,
        bh_state_root h, bh_body_root h]"

definition block_body_root :: "ssz_lib \<Rightarrow> block_body \<Rightarrow> bytes32" where
  "block_body_root L b = sq_root (lib_attestations L) ATTESTATIONS_LIMIT (bb_attestations b)"

definition block_root :: "ssz_lib \<Rightarrow> block \<Rightarrow> bytes32" where
  "block_root L b =
     merkleize_tree_root (lib_hash L)
       [slot_root (b_slot b), validator_index_root (b_proposer_index b), b_parent_root b,
        b_state_root b, block_body_root L (b_body b)]"

definition block_header_of :: "ssz_lib \<Rightarrow> block \<Rightarrow> block_header" where
  "block_header_of L b =
     \<lparr>bh_slot = b_slot b, bh_proposer_index = b_proposer_index b,
      bh_parent_root = b_parent_root b, bh_state_root = b_state_root b,
      bh_body_root = block_body_root L (b_body b)\<rparr>"

definition block_with_attestation_root :: "ssz_lib \<Rightarrow> block_with_attestation \<Rightarrow> bytes32" where
  "block_with_attestation_root L m =
     hash_nodes (lib_hash L) (block_root L (bwa_block m))
       (attestation_root L (bwa_proposer_attestation m))"

definition block_signatures_root :: "ssz_lib \<Rightarrow> block_signatures \<Rightarrow> bytes32" where
  "block_signatures_root L s =
     hash_nodes (lib_hash L)
       (sq_root (lib_proofs L) ATTESTATIONS_LIMIT (bs_attestation_signatures s))
       (bytes3112_root L (bs_proposer_signature s))"

definition signed_block_root :: "ssz_lib \<Rightarrow> signed_block \<Rightarrow> bytes32" where
  "signed_block_root L sb =
     hash_nodes (lib_hash L) (block_with_attestation_root L (sb_message sb))
       (block_signatures_root L (sb_signature sb))"

definition block_with_signatures_root :: "ssz_lib \<Rightarrow> block_with_signatures \<Rightarrow> bytes32" where
  "block_with_signatures_root L b =
     hash_nodes (lib_hash L) (block_root L (bws_block b))
       (sq_root (lib_proofs L) ATTESTATIONS_LIMIT (bws_signatures b))"

definition state_root :: "ssz_lib \<Rightarrow> state \<Rightarrow> bytes32" where
  "state_root L s =
     merkleize (lib_hash L)
       [config_root (st_config s), slot_root (st_slot s),
        block_header_root L (st_latest_block_header s),
        checkpoint_root L (st_latest_justified s), checkpoint_root L (st_latest_finalized s),
        sq_root (lib_roots L) HISTORICAL_ROOTS_LIMIT (st_historical_block_hashes s),
        bits_root (lib_bits L) HISTORICAL_ROOTS_LIMIT (st_justified_slots s),
        sq_root (lib_validators L) VALIDATOR_REGISTRY_LIMIT (st_validators s),
        sq_root (lib_roots L) HISTORICAL_ROOTS_LIMIT (st_justifications_roots s),
        bits_root (lib_bits L) JUSTIFICATION_VALIDATORS_LIMIT (st_justifications_validators s)]"

text \<open>A block and the header derived from it have the same root: the header is the
  block's identifier.\<close>

lemma block_header_root_of: "block_header_root L (block_header_of L b) = block_root L b"
  by (simp add: block_header_root_def block_header_of_def block_root_def)

end
