(* ===== verification/FixedCodec.thy ===== *)
theory FixedCodec
  imports Containers
begin

text \<open>
  SSZ encoders and decoders of the fixed-length containers: \<^verbatim>\<open>Slot\<close> (\<^verbatim>\<open>src/slot.rs\<close>),
  \<^verbatim>\<open>Config\<close>, \<^verbatim>\<open>Checkpoint\<close>, \<^verbatim>\<open>ValidatorIndex\<close>, \<^verbatim>\<open>Validator\<close>, \<^verbatim>\<open>AttestationData\<close>,
  \<^verbatim>\<open>SignedAttestation\<close> and \<^verbatim>\<open>BlockHeader\<close> (\<^verbatim>\<open>src/containers/\<close>). Each is shown to write
  its whole buffer and nothing outside it, and to satisfy the contract \<open>fixed_codec\<close>:
  its checked decoder never panics and accepts exactly the encodings.
\<close>

section \<open>Definitions\<close>

subsection \<open>Slot, Config, ValidatorIndex\<close>

definition slot_encode :: "slot \<Rightarrow> u8 list result" where
  "slot_encode s = encode_with 8 [(0, le64 s)]"

definition slot_decode :: "u8 list \<Rightarrow> slot result" where
  "slot_decode bytes = uint64_decode bytes"

definition slot_decode_checked :: "u8 list \<Rightarrow> slot result" where
  "slot_decode_checked = checked_len ''Slot expects {} bytes, got {}'' 8 slot_decode"

definition config_encode :: "config \<Rightarrow> u8 list result" where
  "config_encode c = encode_with 8 [(0, le64 (genesis_time c))]"

definition config_decode :: "u8 list \<Rightarrow> config result" where
  "config_decode bytes = and_then (uint64_decode bytes) (\<lambda>g. Inr \<lparr>genesis_time = g\<rparr>)"

definition config_decode_checked :: "u8 list \<Rightarrow> config result" where
  "config_decode_checked = checked_len ''Config expects {} bytes, got {}'' 8 config_decode"

definition validator_index_encode :: "validator_index \<Rightarrow> u8 list result" where
  "validator_index_encode i = encode_with 8 [(0, le64 i)]"

definition validator_index_decode :: "u8 list \<Rightarrow> validator_index result" where
  "validator_index_decode bytes = uint64_decode bytes"

definition validator_index_decode_checked :: "u8 list \<Rightarrow> validator_index result" where
  "validator_index_decode_checked =
     checked_len ''ValidatorIndex expects {} bytes, got {}'' 8 validator_index_decode"

definition is_proposer_for :: "validator_index \<Rightarrow> slot \<Rightarrow> u64 \<Rightarrow> bool" where
  "is_proposer_for i s num_validators =
     (if num_validators = 0 then False else s mod num_validators = i)"

subsection \<open>Checkpoint\<close>

definition checkpoint_encode :: "checkpoint \<Rightarrow> u8 list result" where
  "checkpoint_encode c =
     encode_with 40 [(0, be_bytes 32 (cp_root c)), (32, le64 (cp_slot c))]"

definition checkpoint_decode :: "u8 list \<Rightarrow> checkpoint result" where
  "checkpoint_decode bytes =
     and_then (slice 0 32 bytes) (\<lambda>root.
     and_then (slice 32 40 bytes) (\<lambda>b.
     and_then (slot_decode b) (\<lambda>slot.
     Inr \<lparr>cp_root = from_be_bytes root, cp_slot = slot\<rparr>)))"

definition checkpoint_decode_checked :: "u8 list \<Rightarrow> checkpoint result" where
  "checkpoint_decode_checked =
     checked_len ''Checkpoint expects {} bytes, got {}'' 40 checkpoint_decode"

subsection \<open>Validator\<close>

definition validator_encode :: "validator \<Rightarrow> u8 list result" where
  "validator_encode v =
     encode_with (52 + 8) [(0, be_bytes 52 (v_pubkey v)), (52, le64 (v_index v))]"

definition validator_decode :: "u8 list \<Rightarrow> validator result" where
  "validator_decode bytes =
     and_then (slice 0 52 bytes) (\<lambda>b.
     and_then (bytes52_from_slice b) (\<lambda>pubkey.
     and_then (slice 52 60 bytes) (\<lambda>b'.
     and_then (validator_index_decode b') (\<lambda>index.
     Inr \<lparr>v_pubkey = pubkey, v_index = index, v_balance = 0\<rparr>))))"

definition validator_decode_checked :: "u8 list \<Rightarrow> validator result" where
  "validator_decode_checked =
     checked_len ''Validator expects {} bytes, got {}'' 60 validator_decode"

subsection \<open>AttestationData\<close>

definition attestation_data_encode :: "attestation_data \<Rightarrow> u8 list result" where
  "attestation_data_encode d =
     and_then (checkpoint_encode (ad_head d)) (\<lambda>head.
     and_then (checkpoint_encode (ad_target d)) (\<lambda>target.
     and_then (checkpoint_encode (ad_source d)) (\<lambda>source.
     encode_with (8 + 40 * 3) [(0, le64 (ad_slot d)), (8, head), (48, target), (88, source)])))"

definition attestation_data_decode :: "u8 list \<Rightarrow> attestation_data result" where
  "attestation_data_decode bytes =
     and_then (slice 0 8 bytes) (\<lambda>b0. and_then (slot_decode b0) (\<lambda>slot.
     and_then (slice 8 48 bytes) (\<lambda>b1. and_then (checkpoint_decode b1) (\<lambda>head.
     and_then (slice 48 88 bytes) (\<lambda>b2. and_then (checkpoint_decode b2) (\<lambda>target.
     and_then (slice 88 128 bytes) (\<lambda>b3. and_then (checkpoint_decode b3) (\<lambda>source.
     Inr \<lparr>ad_slot = slot, ad_head = head, ad_target = target, ad_source = source\<rparr>))))))))"

definition attestation_data_decode_checked :: "u8 list \<Rightarrow> attestation_data result" where
  "attestation_data_decode_checked =
     checked_len ''AttestationData expects {} bytes, got {}'' (8 + 40 * 3) attestation_data_decode"

subsection \<open>SignedAttestation\<close>

definition signed_attestation_encode :: "signed_attestation \<Rightarrow> u8 list result" where
  "signed_attestation_encode a =
     and_then (attestation_data_encode (sa_message a)) (\<lambda>message.
     encode_with (8 + 128 + SIGNATURE_BYTES)
       [(0, le64 (sa_validator_id a)), (8, message), (136, be_bytes 3112 (sa_signature a))])"

definition signed_attestation_decode :: "u8 list \<Rightarrow> signed_attestation result" where
  "signed_attestation_decode bytes =
     and_then (slice 0 8 bytes) (\<lambda>b0. and_then (uint64_decode b0) (\<lambda>validator_id.
     and_then (slice 8 136 bytes) (\<lambda>b1. and_then (attestation_data_decode b1) (\<lambda>message.
     and_then (slice 136 (136 + SIGNATURE_BYTES) bytes) (\<lambda>b2.
     and_then (bytes3112_from_slice b2) (\<lambda>signature.
     Inr \<lparr>sa_validator_id = validator_id, sa_message = message, sa_signature = signature\<rparr>))))))"

definition signed_attestation_decode_checked :: "u8 list \<Rightarrow> signed_attestation result" where
  "signed_attestation_decode_checked =
     checked_len ''SignedAttestation expects {} bytes, got {}'' (8 + 128 + SIGNATURE_BYTES)
       signed_attestation_decode"

subsection \<open>BlockHeader\<close>

definition block_header_encode :: "block_header \<Rightarrow> u8 list result" where
  "block_header_encode h =
     encode_with 112
       [(0, le64 (bh_slot h)), (8, le64 (bh_proposer_index h)), (16, be_bytes 32 (bh_parent_root h)),
        (48, be_bytes 32 (bh_state_root h)), (80, be_bytes 32 (bh_body_root h))]"

definition block_header_decode :: "u8 list \<Rightarrow> block_header result" where
  "block_header_decode bytes =
     and_then (slice 0 8 bytes) (\<lambda>b0. and_then (slot_decode b0) (\<lambda>slot.
     and_then (slice 8 16 bytes) (\<lambda>b1. and_then (validator_index_decode b1) (\<lambda>proposer_index.
     and_then (slice 16 48 bytes) (\<lambda>parent.
     and_then (slice 48 80 bytes) (\<lambda>st.
     and_then (slice 80 112 bytes) (\<lambda>body.
     Inr \<lparr>bh_slot = slot, bh_proposer_index = proposer_index,
          bh_parent_root = from_be_bytes parent, bh_state_root = from_be_bytes st,
          bh_body_root = from_be_bytes body\<rparr>)))))))"

definition block_header_decode_checked :: "u8 list \<Rightarrow> block_header result" where
  "block_header_decode_checked =
     checked_len ''BlockHeader expects {} bytes, got {}'' 112 block_header_decode"

section \<open>The encoders fill their buffers\<close>

lemma slot_encode_eq [codec_simps]: "slot_encode s = Inr (le64 s)"
  unfolding slot_encode_def by (subst encode_with_tiles) simp_all

lemma config_encode_eq [codec_simps]: "config_encode c = Inr (le64 (genesis_time c))"
  unfolding config_encode_def by (subst encode_with_tiles) simp_all

lemma validator_index_encode_eq [codec_simps]: "validator_index_encode i = Inr (le64 i)"
  unfolding validator_index_encode_def by (subst encode_with_tiles) simp_all

lemma checkpoint_encode_eq [codec_simps]:
  "checkpoint_encode c = Inr (be_bytes 32 (cp_root c) @ le64 (cp_slot c))"
  unfolding checkpoint_encode_def by (subst encode_with_tiles) simp_all

lemma validator_encode_eq [codec_simps]:
  "validator_encode v = Inr (be_bytes 52 (v_pubkey v) @ le64 (v_index v))"
  unfolding validator_encode_def by (subst encode_with_tiles) simp_all

lemma block_header_encode_eq [codec_simps]:
  "block_header_encode h =
     Inr (le64 (bh_slot h) @ le64 (bh_proposer_index h) @ be_bytes 32 (bh_parent_root h) @
          be_bytes 32 (bh_state_root h) @ be_bytes 32 (bh_body_root h))"
  unfolding block_header_encode_def by (subst encode_with_tiles) simp_all

text \<open>The bytes of a checkpoint and of attestation data, as used inside larger containers.\<close>

definition checkpoint_bytes :: "checkpoint \<Rightarrow> u8 list" where
  "checkpoint_bytes c = be_bytes 32 (cp_root c) @ le64 (cp_slot c)"

definition attestation_data_bytes :: "attestation_data \<Rightarrow> u8 list" where
  "attestation_data_bytes d =
     le64 (ad_slot d) @ checkpoint_bytes (ad_head d) @ checkpoint_bytes (ad_target d) @
     checkpoint_bytes (ad_source d)"

lemma length_checkpoint_bytes [simp]: "length (checkpoint_bytes c) = 40"
  by (simp add: checkpoint_bytes_def)

lemma length_attestation_data_bytes [simp]: "length (attestation_data_bytes d) = 128"
  by (simp add: attestation_data_bytes_def)

lemma checkpoint_encode_bytes: "checkpoint_encode c = Inr (checkpoint_bytes c)"
  by (simp add: checkpoint_encode_eq checkpoint_bytes_def)

lemma attestation_data_encode_bytes [codec_simps]:
  "attestation_data_encode d = Inr (attestation_data_bytes d)"
  unfolding attestation_data_encode_def checkpoint_encode_bytes and_then_simps
  by (subst encode_with_tiles) (simp_all add: attestation_data_bytes_def)

lemma signed_attestation_encode_eq [codec_simps]:
  "signed_attestation_encode a =
     Inr (le64 (sa_validator_id a) @ attestation_data_bytes (sa_message a) @
          be_bytes 3112 (sa_signature a))"
  unfolding signed_attestation_encode_def attestation_data_encode_bytes and_then_simps
  by (subst encode_with_tiles) (simp_all add: SIGNATURE_BYTES_def)

section \<open>Contracts\<close>

lemma split_bytes: "length bs = a + b \<Longrightarrow> \<exists>xs ys. bs = xs @ ys \<and> length xs = a \<and> length ys = b"
  by (rule exI [of _ "take a bs"], rule exI [of _ "drop a bs"]) simp

lemma split_bytes3:
  assumes "length bs = a + b + c"
  obtains xs ys zs where "bs = xs @ ys @ zs" "length xs = a" "length ys = b" "length zs = c"
proof
  show "bs = take a bs @ take b (drop a bs) @ drop b (drop a bs)"
    by (metis append_take_drop_id)
qed (use assms in simp_all)

lemma split_bytes4:
  assumes "length bs = a + b + c + d"
  obtains ws xs ys zs where "bs = ws @ xs @ ys @ zs" "length ws = a" "length xs = b"
    "length ys = c" "length zs = d"
proof -
  obtain xs ys zs where "bs = xs @ ys @ zs" "length xs = a" "length ys = b" "length zs = c + d"
    using split_bytes3 [of bs a b "c + d"] assms by (metis add.assoc)
  moreover then obtain us vs where "zs = us @ vs" "length us = c" "length vs = d"
    using split_bytes [of zs c d] by auto
  ultimately show thesis using that by simp
qed

interpretation slot_codec: fixed_codec slot_encode slot_decode 8
  by unfold_locales (auto simp: codec_simps slot_decode_def)

interpretation config_codec: fixed_codec config_encode config_decode 8
  by unfold_locales (auto simp: codec_simps config_decode_def)

interpretation validator_index_codec: fixed_codec validator_index_encode validator_index_decode 8
  by unfold_locales (auto simp: codec_simps validator_index_decode_def)

lemma checkpoint_decode_append [codec_simps]:
  "length r = 32 \<Longrightarrow> length s = 8 \<Longrightarrow>
   checkpoint_decode (r @ s) = Inr \<lparr>cp_root = from_be_bytes r, cp_slot = from_le_bytes s\<rparr>"
  by (simp add: checkpoint_decode_def slice_def slot_decode_def uint64_decode_def)

interpretation checkpoint_codec: fixed_codec checkpoint_encode checkpoint_decode 40
proof
  fix bs :: "u8 list" assume "length bs = 40"
  then obtain r s where "bs = r @ s" "length r = 32" "length s = 8"
    using split_bytes [of bs 32 8] by auto
  then show "\<exists>x. checkpoint_decode bs = Inr x \<and> checkpoint_encode x = Inr bs"
    by (simp add: codec_simps)
qed (auto simp: codec_simps)

lemma checkpoint_decode_bytes [codec_simps]: "checkpoint_decode (checkpoint_bytes c) = Inr c"
  by (rule checkpoint_codec.dec_enc) (rule checkpoint_encode_bytes)

lemma validator_decode_append [codec_simps]:
  "length p = 52 \<Longrightarrow> length i = 8 \<Longrightarrow>
   validator_decode (p @ i) =
     Inr \<lparr>v_pubkey = from_be_bytes p, v_index = from_le_bytes i, v_balance = 0\<rparr>"
  by (simp add: validator_decode_def slice_def bytes52_from_slice_def validator_index_decode_def
      uint64_decode_def)

interpretation validator_layout: fixed_layout validator_encode validator_decode 60
proof
  fix bs :: "u8 list" assume "length bs = 60"
  then obtain p i where "bs = p @ i" "length p = 52" "length i = 8"
    using split_bytes [of bs 52 8] by auto
  then show "\<exists>x. validator_decode bs = Inr x \<and> validator_encode x = Inr bs"
    by (simp add: codec_simps)
qed (auto simp: codec_simps)

lemma attestation_data_decode_append [codec_simps]:
  "length s = 8 \<Longrightarrow> length h = 40 \<Longrightarrow> length t = 40 \<Longrightarrow> length r = 40 \<Longrightarrow>
   checkpoint_decode h = Inr head \<Longrightarrow> checkpoint_decode t = Inr target \<Longrightarrow>
   checkpoint_decode r = Inr source \<Longrightarrow>
   attestation_data_decode (s @ h @ t @ r) =
     Inr \<lparr>ad_slot = from_le_bytes s, ad_head = head, ad_target = target, ad_source = source\<rparr>"
  by (simp add: attestation_data_decode_def slice_def slot_decode_def uint64_decode_def)

interpretation attestation_data_codec:
  fixed_codec attestation_data_encode attestation_data_decode 128
proof
  fix bs :: "u8 list" assume "length bs = 128"
  then obtain s h t r where bs: "bs = s @ h @ t @ r"
    and len: "length s = 8" "length h = 40" "length t = 40" "length r = 40"
    by (rule split_bytes4 [of bs 8 40 40 40, simplified])
  obtain head target source where
    cps: "checkpoint_decode h = Inr head" "checkpoint_encode head = Inr h"
      "checkpoint_decode t = Inr target" "checkpoint_encode target = Inr t"
      "checkpoint_decode r = Inr source" "checkpoint_encode source = Inr r"
    using len by (meson checkpoint_codec.enc_dec)
  then have "checkpoint_bytes head = h" "checkpoint_bytes target = t" "checkpoint_bytes source = r"
    by (simp_all add: checkpoint_encode_bytes)
  then show "\<exists>x. attestation_data_decode bs = Inr x \<and> attestation_data_encode x = Inr bs"
    using cps len by (simp add: bs codec_simps attestation_data_bytes_def)
next
  fix x :: attestation_data and bs assume "attestation_data_encode x = Inr bs"
  then show "attestation_data_decode bs = Inr x"
    by (auto simp: codec_simps attestation_data_bytes_def)
qed (auto simp: codec_simps)

lemma attestation_data_decode_bytes [codec_simps]:
  "attestation_data_decode (attestation_data_bytes d) = Inr d"
  by (rule attestation_data_codec.dec_enc) (rule attestation_data_encode_bytes)

lemma signed_attestation_decode_append [codec_simps]:
  "length i = 8 \<Longrightarrow> length m = 128 \<Longrightarrow> length s = 3112 \<Longrightarrow>
   attestation_data_decode m = Inr message \<Longrightarrow>
   signed_attestation_decode (i @ m @ s) =
     Inr \<lparr>sa_validator_id = from_le_bytes i, sa_message = message,
          sa_signature = from_be_bytes s\<rparr>"
  by (simp add: signed_attestation_decode_def slice_def uint64_decode_def bytes3112_from_slice_def
      SIGNATURE_BYTES_def)

interpretation signed_attestation_codec:
  fixed_codec signed_attestation_encode signed_attestation_decode "8 + 128 + SIGNATURE_BYTES"
proof
  fix bs :: "u8 list" assume "length bs = 8 + 128 + SIGNATURE_BYTES"
  then have "length bs = 8 + 128 + 3112" by (simp add: SIGNATURE_BYTES_def)
  then obtain i m s where bs: "bs = i @ m @ s"
    and len: "length i = 8" "length m = 128" "length s = 3112"
    by (rule split_bytes3)
  obtain message where "attestation_data_decode m = Inr message"
    "attestation_data_encode message = Inr m"
    using len(2) attestation_data_codec.enc_dec by blast
  then show "\<exists>x. signed_attestation_decode bs = Inr x \<and> signed_attestation_encode x = Inr bs"
    using len by (simp add: bs codec_simps)
qed (auto simp: codec_simps SIGNATURE_BYTES_def)

lemma block_header_decode_append [codec_simps]:
  "length s = 8 \<Longrightarrow> length i = 8 \<Longrightarrow> length p = 32 \<Longrightarrow> length r = 32 \<Longrightarrow> length b = 32 \<Longrightarrow>
   block_header_decode (s @ i @ p @ r @ b) =
     Inr \<lparr>bh_slot = from_le_bytes s, bh_proposer_index = from_le_bytes i,
          bh_parent_root = from_be_bytes p, bh_state_root = from_be_bytes r,
          bh_body_root = from_be_bytes b\<rparr>"
  by (simp add: block_header_decode_def slice_def slot_decode_def validator_index_decode_def
      uint64_decode_def)

interpretation block_header_codec: fixed_codec block_header_encode block_header_decode 112
proof
  fix bs :: "u8 list" assume "length bs = 112"
  then obtain s i p q where bs: "bs = s @ i @ p @ q"
    and len: "length s = 8" "length i = 8" "length p = 32" "length q = 64"
    by (rule split_bytes4 [of bs 8 8 32 64, simplified])
  then obtain r b where "q = r @ b" "length r = 32" "length b = 32"
    using split_bytes [of q 32 32] by auto
  then show "\<exists>x. block_header_decode bs = Inr x \<and> block_header_encode x = Inr bs"
    using len by (simp add: bs codec_simps)
qed (auto simp: codec_simps)

section \<open>Properties\<close>

text \<open>
  C40 (fixed-length decoders are exact). The checked decoders of \<^verbatim>\<open>Checkpoint\<close>,
  \<^verbatim>\<open>AttestationData\<close>, \<^verbatim>\<open>SignedAttestation\<close> and \<^verbatim>\<open>BlockHeader\<close> accept a byte string
  exactly when it is the encoding of the value they return: encoding and decoding are
  inverse to each other, and no malformed input is accepted.
\<close>

theorem checked_decoders_accept_exactly_encodings:
  "(checkpoint_decode_checked bs = Inr c \<longleftrightarrow> checkpoint_encode c = Inr bs) \<and>
   (attestation_data_decode_checked bs = Inr d \<longleftrightarrow> attestation_data_encode d = Inr bs) \<and>
   (signed_attestation_decode_checked bs = Inr a \<longleftrightarrow> signed_attestation_encode a = Inr bs) \<and>
   (block_header_decode_checked bs = Inr h \<longleftrightarrow> block_header_encode h = Inr bs)"
  unfolding checkpoint_decode_checked_def attestation_data_decode_checked_def
    signed_attestation_decode_checked_def block_header_decode_checked_def
  by (simp add: checkpoint_codec.checked_iff block_header_codec.checked_iff
      signed_attestation_codec.checked_iff [simplified]
      attestation_data_codec.checked_iff [simplified])

text \<open>
  (validator balances are local). Decoding an encoded validator gives the validator back
  with a zero balance, and the encoding does not depend on the balance.
\<close>

theorem validator_roundtrip_drops_balance:
  "and_then (validator_encode v) validator_decode_checked = Inr (v\<lparr>v_balance := 0\<rparr>) \<and>
   validator_encode (v\<lparr>v_balance := w\<rparr>) = validator_encode v"
  by (simp add: codec_simps validator_decode_checked_def checked_len_def)

end
