(* ===== verification/Bits.thy ===== *)
theory Bits
  imports FixedCodec
begin

text \<open>
  Bit fields stored in byte vectors. The sources read and write bit \<open>i\<close> of a
  \<^verbatim>\<open>BitList\<close> as bit \<open>i % 8\<close> of byte \<open>i / 8\<close> in many places:
  \<^verbatim>\<open>bit_is_set\<close> and \<^verbatim>\<open>set_bit\<close> (\<^verbatim>\<open>src/containers/state.rs\<close>), \<^verbatim>\<open>single_set_bit\<close>
  (\<^verbatim>\<open>src/containers/block.rs\<close>), \<^verbatim>\<open>bitlist_indices\<close> (\<^verbatim>\<open>src/fork_choice.rs\<close>). They are
  specified here by the set \<open>bits_of\<close> of indices of a bit field.
\<close>

unbundle bit_operations_syntax

section \<open>Definitions\<close>

text \<open>\<^verbatim>\<open>(byte & (1u8 << k)) != 0\<close>, for \<open>k < 8\<close>.\<close>

definition byte_bit :: "u8 \<Rightarrow> nat \<Rightarrow> bool" where
  "byte_bit b k \<longleftrightarrow> b AND push_bit k 1 \<noteq> 0"

definition bit_is_set :: "u8 list \<Rightarrow> nat \<Rightarrow> nat \<Rightarrow> bool" where
  "bit_is_set data len_bits index =
     (if index \<ge> len_bits then False
      else let byte = index div 8; k = index mod 8 in
        if byte \<ge> length data then False else byte_bit (data ! byte) k)"

definition set_bit_at :: "u8 list \<Rightarrow> nat \<Rightarrow> u8 list" where
  "set_bit_at data index =
     (let byte = index div 8; k = index mod 8 in
      if byte < length data then data[byte := data ! byte OR push_bit k 1] else data)"

text \<open>The loop \<^verbatim>\<open>for i in 0..len\<close> of \<open>single_set_bit\<close>: \<open>n\<close> iterations are left.\<close>

fun single_set_bit_loop :: "u8 list \<Rightarrow> nat \<Rightarrow> nat \<Rightarrow> nat option \<Rightarrow> nat option" where
  "single_set_bit_loop data i 0 found = found"
| "single_set_bit_loop data i (Suc n) found =
     (if i div 8 \<ge> length data then found
      else if byte_bit (data ! (i div 8)) (i mod 8)
      then (if found \<noteq> None then None else single_set_bit_loop data (Suc i) n (Some i))
      else single_set_bit_loop data (Suc i) n found)"

definition single_set_bit :: "bitlist \<Rightarrow> nat option" where
  "single_set_bit bits = single_set_bit_loop (bl_data bits) 0 (bl_len bits) None"

fun bitlist_indices_loop :: "u8 list \<Rightarrow> nat \<Rightarrow> nat \<Rightarrow> nat list \<Rightarrow> nat list" where
  "bitlist_indices_loop data i 0 out = out"
| "bitlist_indices_loop data i (Suc n) out =
     (if i div 8 \<ge> length data then out
      else if byte_bit (data ! (i div 8)) (i mod 8)
      then bitlist_indices_loop data (Suc i) n (out @ [i])
      else bitlist_indices_loop data (Suc i) n out)"

definition bitlist_indices :: "bitlist \<Rightarrow> nat list" where
  "bitlist_indices bits = bitlist_indices_loop (bl_data bits) 0 (bl_len bits) []"

section \<open>The set of indices of a bit field\<close>

lemma byte_bit_iff: "k < 8 \<Longrightarrow> byte_bit b k \<longleftrightarrow> bit b k"
  unfolding byte_bit_def push_bit_eq_mult mult_1
  by (metis and_exp_eq_0_iff_not_bit)

definition data_bit :: "u8 list \<Rightarrow> nat \<Rightarrow> bool" where
  "data_bit data i \<longleftrightarrow> i < 8 * length data \<and> bit (data ! (i div 8)) (i mod 8)"

definition bits_of :: "bitlist \<Rightarrow> nat set" where
  "bits_of b = {i. i < bl_len b \<and> data_bit (bl_data b) i}"

lemma div8_less_iff: "i div 8 < n \<longleftrightarrow> i < 8 * n" for i n :: nat
  by (auto simp: less_mult_imp_div_less div_less_iff_less_mult mult.commute)

lemma byte_bit_data: "i < 8 * length data \<Longrightarrow> byte_bit (data ! (i div 8)) (i mod 8) = data_bit data i"
  by (simp add: data_bit_def byte_bit_iff)

lemma bit_is_set_iff: "bit_is_set data len i \<longleftrightarrow> i < len \<and> data_bit data i"
  by (auto simp: bit_is_set_def Let_def byte_bit_iff data_bit_def not_le div8_less_iff
      simp flip: not_less)

lemma finite_bits_of [simp]: "finite (bits_of b)"
  by (rule finite_subset [of _ "{..<bl_len b}"]) (auto simp: bits_of_def)

lemma length_set_bit_at [simp]: "length (set_bit_at data i) = length data"
  by (simp add: set_bit_at_def Let_def)

lemma data_bit_set_bit_at:
  "data_bit (set_bit_at data i) j \<longleftrightarrow> data_bit data j \<or> (j = i \<and> i < 8 * length data)"
proof (cases "i < 8 * length data")
  case False
  then show ?thesis by (simp add: set_bit_at_def Let_def div8_less_iff)
next
  case i: True
  show ?thesis
  proof (cases "j < 8 * length data")
    case False
    then show ?thesis using i by (auto simp: data_bit_def)
  next
    case j: True
    have "bit (set_bit_at data i ! (j div 8)) (j mod 8) \<longleftrightarrow>
        bit (data ! (j div 8)) (j mod 8) \<or> (j div 8 = i div 8 \<and> j mod 8 = i mod 8)"
      using i j
      by (auto simp: set_bit_at_def Let_def div8_less_iff nth_list_update bit_or_iff
          bit_exp_iff possible_bit_word)
    moreover have "j div 8 = i div 8 \<and> j mod 8 = i mod 8 \<longleftrightarrow> j = i"
      by (metis div_mult_mod_eq)
    ultimately show ?thesis using i j by (auto simp: data_bit_def)
  qed
qed

lemma data_bit_replicate_0 [simp]: "\<not> data_bit (replicate n 0) i"
  by (auto simp: data_bit_def div8_less_iff)

subsection \<open>Loops over the indices\<close>

lemma filter_upt_Suc:
  "filter P [i..<i + Suc n] =
     (if P i then i # filter P [Suc i..<Suc i + n] else filter P [Suc i..<Suc i + n])"
  by (simp add: upt_conv_Cons del: upt_Suc)

lemma filter_data_bit_beyond:
  "8 * length data \<le> i \<Longrightarrow> filter (data_bit data) [i..<j] = []"
  by (auto simp: filter_empty_conv data_bit_def)

lemma bitlist_indices_loop_eq:
  "bitlist_indices_loop data i n out = out @ filter (data_bit data) [i..<i + n]"
proof (induction data i n out rule: bitlist_indices_loop.induct)
  case (2 data i n out)
  show ?case
  proof (cases "i < 8 * length data")
    case True
    then have "\<not> length data \<le> i div 8" by (simp add: not_le div8_less_iff)
    then show ?thesis unfolding filter_upt_Suc using 2 True
      by (simp add: byte_bit_data del: upt_Suc)
  next
    case False
    then have "length data \<le> i div 8" by (simp add: div8_less_iff flip: not_less)
    then show ?thesis using False by (simp add: filter_data_bit_beyond del: upt_Suc)
  qed
qed simp

lemma bitlist_indices_eq: "bitlist_indices b = filter (data_bit (bl_data b)) [0..<bl_len b]"
  by (simp add: bitlist_indices_def bitlist_indices_loop_eq)

lemma set_bitlist_indices: "set (bitlist_indices b) = bits_of b"
  by (auto simp: bitlist_indices_eq bits_of_def)

lemma distinct_bitlist_indices: "distinct (bitlist_indices b)"
  by (simp add: bitlist_indices_eq)

lemma single_set_bit_loop_eq:
  "single_set_bit_loop data i n found =
     (case (found, filter (data_bit data) [i..<i + n]) of
        (None, []) \<Rightarrow> None | (None, [j]) \<Rightarrow> Some j | (Some f, []) \<Rightarrow> Some f | _ \<Rightarrow> None)"
proof (induction data i n found rule: single_set_bit_loop.induct)
  case (1 data i found)
  then show ?case by (cases found) auto
next
  case (2 data i n found)
  show ?case
  proof (cases "i < 8 * length data")
    case True
    then have "\<not> length data \<le> i div 8" by (simp add: not_le div8_less_iff)
    then show ?thesis unfolding filter_upt_Suc using 2 True
      by (cases found; cases "filter (data_bit data) [Suc i..<Suc i + n]")
        (auto simp: byte_bit_data simp del: upt_Suc split: list.splits)
  next
    case False
    then have "length data \<le> i div 8" by (simp add: div8_less_iff flip: not_less)
    then show ?thesis using False
      by (cases found) (simp_all add: filter_data_bit_beyond del: upt_Suc)
  qed
qed

lemma single_set_bit_eq:
  "single_set_bit b = (case bitlist_indices b of [j] \<Rightarrow> Some j | _ \<Rightarrow> None)"
  by (simp add: single_set_bit_def single_set_bit_loop_eq bitlist_indices_eq split: list.splits)

lemma distinct_singleton_iff: "distinct xs \<Longrightarrow> set xs = {x} \<longleftrightarrow> xs = [x]"
proof (cases xs)
  case (Cons y ys)
  then show "distinct xs \<Longrightarrow> set xs = {x} \<longleftrightarrow> xs = [x]" by (cases ys) auto
qed simp

lemma single_set_bit_iff: "single_set_bit b = Some i \<longleftrightarrow> bits_of b = {i}"
proof -
  have "single_set_bit b = Some i \<longleftrightarrow> bitlist_indices b = [i]"
    by (simp add: single_set_bit_eq split: list.splits)
  also have "\<dots> \<longleftrightarrow> set (bitlist_indices b) = {i}"
    using distinct_bitlist_indices [of b] by (auto simp: distinct_singleton_iff)
  finally show ?thesis by (simp add: set_bitlist_indices)
qed

end
