(* ===== verification/SampleLib.thy ===== *)
theory SampleLib
  imports Containers
begin

text \<open>
  One concrete instance of the parameter \<open>ssz_lib\<close>, used only to show that the hypotheses
  about the external SSZ crate can hold and to evaluate the model on concrete inputs.
  Lists of elements are supported when empty; bit lists carry their length in front.
\<close>

definition sample_seq :: "'a seq_ops" where
  "sample_seq = \<lparr>
     sq_encode = (\<lambda>xs. if xs = [] then Inr [] else Inl (Err ''unsupported'')),
     sq_decode = (\<lambda>limit bs. if bs = [] then Inr [] else Inl (Err ''unsupported'')),
     sq_decode_checked = (\<lambda>limit bs. if bs = [] then Inr [] else Inl (Err ''unsupported'')),
     sq_root = (\<lambda>limit xs. of_nat (length xs))\<rparr>"

definition sample_hash :: hash_ops where
  "sample_hash = \<lparr>
     hash_nodes = (\<lambda>a b. 3 * a + 5 * b + 1),
     merkleize = (\<lambda>xs. foldr (\<lambda>a b. 3 * a + 5 * b + 1) xs 7),
     merkleize_tree_root = (\<lambda>xs. foldr (\<lambda>a b. 3 * a + 5 * b + 1) xs 7),
     merkleize_tree_root_3 = (\<lambda>xs. foldr (\<lambda>a b. 3 * a + 5 * b + 1) xs 7),
     merkleize_tree_root_4 = (\<lambda>xs. foldr (\<lambda>a b. 3 * a + 5 * b + 1) xs 7),
     merkleize_with_limit = (\<lambda>xs limit. Inr (foldr (\<lambda>a b. 3 * a + 5 * b + 1) xs 7)),
     chunkify_fixed = (\<lambda>bs. map ucast bs),
     mix_in_length = (\<lambda>r n. 3 * r + 5 * of_nat n + 1)\<rparr>"

definition sample_bits :: bits_ops where
  "sample_bits = \<lparr>
     bits_encode = (\<lambda>b. le64 (of_nat (bl_len b)) @ bl_data b),
     bits_decode = (\<lambda>limit bs. if length bs < 8 then Inl (Err ''short'') else
       Inr \<lparr>bl_data = drop 8 bs, bl_len = unat (from_le_bytes (take 8 bs) :: u64)\<rparr>),
     bits_decode_checked = (\<lambda>limit bs. if length bs < 8 then Inl (Err ''short'') else
       Inr \<lparr>bl_data = drop 8 bs, bl_len = unat (from_le_bytes (take 8 bs) :: u64)\<rparr>),
     bits_root = (\<lambda>limit b. of_nat (bl_len b)),
     bits_new = (\<lambda>limit bs. if length bs > limit then Inl (Err ''list is full'') else
       Inr \<lparr>bl_data = map (\<lambda>k. foldr (\<lambda>b w. of_bool b + 2 * w) (take 8 (drop (8 * k) bs)) 0)
              [0..<(length bs + 7) div 8], bl_len = length bs\<rparr>)\<rparr>"

definition sample_list :: list_ops where
  "sample_list = \<lparr>
     roots_push = (\<lambda>limit xs x.
       if length xs < limit then Inr (xs @ [x]) else Inl (Err ''list is full'')),
     roots_extend_copy = (\<lambda>limit xs k x.
       if length xs + k \<le> limit then Inr (xs @ replicate k x) else Inl (Err ''list is full'')),
     roots_new = (\<lambda>limit xs. if length xs \<le> limit then Inr xs else Inl (Err ''list is full''))\<rparr>"

definition sample_lib :: ssz_lib where
  "sample_lib = \<lparr>lib_hash = sample_hash, lib_bits = sample_bits, lib_list = sample_list,
     lib_roots = sample_seq, lib_validators = sample_seq, lib_attestations = sample_seq,
     lib_proofs = sample_seq, lib_blocks = sample_seq\<rparr>"

text \<open>A state at slot 0 with three validators.\<close>

definition sample_state :: state where
  "sample_state = \<lparr>st_config = \<lparr>genesis_time = 1000\<rparr>, st_slot = 0,
     st_latest_block_header = \<lparr>bh_slot = 0, bh_proposer_index = 0, bh_parent_root = 0,
       bh_state_root = 11, bh_body_root = 12\<rparr>,
     st_latest_justified = \<lparr>cp_root = 0, cp_slot = 0\<rparr>,
     st_latest_finalized = \<lparr>cp_root = 0, cp_slot = 0\<rparr>,
     st_historical_block_hashes = [], st_justified_slots = bitlist_default,
     st_validators = [\<lparr>v_pubkey = 1, v_index = 0, v_balance = 0\<rparr>,
       \<lparr>v_pubkey = 2, v_index = 1, v_balance = 0\<rparr>, \<lparr>v_pubkey = 3, v_index = 2, v_balance = 0\<rparr>],
     st_justifications_roots = [], st_justifications_validators = bitlist_default\<rparr>"

lemmas sample_defs = sample_lib_def sample_seq_def sample_hash_def sample_bits_def sample_list_def

lemma sample_list_ops_bounded: "list_ops_bounded sample_lib"
  by (simp add: list_ops_bounded_def sample_defs)

lemma sample_seq_roundtrip: "seq_roundtrip sample_seq limit [] []"
  by (simp add: seq_roundtrip_def sample_seq_def)

lemma sample_bits_roundtrip: "bl_len b < 2 ^ 64 \<Longrightarrow> bits_roundtrip sample_lib limit b"
  by (simp add: bits_roundtrip_def sample_defs unat_of_nat)

lemma sample_lib_fields [simp]:
  "lib_roots sample_lib = sample_seq" "lib_validators sample_lib = sample_seq"
  "lib_attestations sample_lib = sample_seq" "lib_proofs sample_lib = sample_seq"
  "lib_blocks sample_lib = sample_seq" "lib_hash sample_lib = sample_hash"
  "lib_bits sample_lib = sample_bits" "lib_list sample_lib = sample_list"
  by (simp_all add: sample_lib_def)

end
