(* ===== verification/VarCodec.thy ===== *)
theory VarCodec
  imports Bits SampleLib
begin

text \<open>
  SSZ encoders and decoders of the variable-length containers of
  \<^verbatim>\<open>src/containers/attestation.rs\<close> and \<^verbatim>\<open>src/containers/block.rs\<close>, and
  \<^verbatim>\<open>validate_basic\<close>. A variable-length container stores its variable parts after a
  fixed section that holds their \<^verbatim>\<open>u32\<close> offsets. The trusting decoders (\<^verbatim>\<open>decode_ssz\<close>)
  use the offsets as they are, so a slice out of range is a panic; the checked decoders
  are meant for untrusted input.
\<close>

section \<open>Attestations\<close>

definition attestation_encode :: "ssz_lib \<Rightarrow> attestation \<Rightarrow> u8 list result" where
  "attestation_encode L a =
     and_then (attestation_data_encode (att_data a)) (\<lambda>data_bytes.
     let bits = bits_encode (lib_bits L) (att_bits a);
         fixed_len = 4 + length data_bytes
     in encode_with (fixed_len + length bits)
          [(0, le32 (of_nat fixed_len)), (4, data_bytes), (fixed_len, bits)])"

definition attestation_decode :: "ssz_lib \<Rightarrow> u8 list \<Rightarrow> attestation result" where
  "attestation_decode L bytes =
     and_then (offset_at 0 bytes) (\<lambda>offset.
     and_then (slice 4 offset bytes) (\<lambda>b0. and_then (attestation_data_decode b0) (\<lambda>data.
     and_then (slice_from offset bytes) (\<lambda>b1.
     and_then (bits_decode (lib_bits L) VALIDATOR_REGISTRY_LIMIT b1) (\<lambda>bits.
     Inr \<lparr>att_bits = bits, att_data = data\<rparr>)))))"

definition attestation_decode_checked :: "ssz_lib \<Rightarrow> u8 list \<Rightarrow> attestation result" where
  "attestation_decode_checked L bytes =
     (if length bytes < 4 + 128 then Inl (Err ''Attestation missing offset table'')
      else attestation_decode L bytes)"

definition proof_encode :: "ssz_lib \<Rightarrow> aggregated_signature_proof \<Rightarrow> u8 list result" where
  "proof_encode L p =
     (let bits = bits_encode (lib_bits L) (ap_participants p) in
      and_then (byte_list_encode (ap_proof_data p)) (\<lambda>proof_bytes.
      let fixed_len = 8 in
      encode_with (fixed_len + length bits + length proof_bytes)
        [(0, le32 (of_nat fixed_len)), (4, le32 (of_nat (fixed_len + length bits))),
         (fixed_len, bits), (fixed_len + length bits, proof_bytes)]))"

definition proof_decode :: "ssz_lib \<Rightarrow> u8 list \<Rightarrow> aggregated_signature_proof result" where
  "proof_decode L bytes =
     and_then (offset_at 0 bytes) (\<lambda>off_bits.
     and_then (offset_at 4 bytes) (\<lambda>off_proof.
     and_then (slice off_bits off_proof bytes) (\<lambda>b0.
     and_then (bits_decode (lib_bits L) VALIDATOR_REGISTRY_LIMIT b0) (\<lambda>participants.
     and_then (slice_from off_proof bytes) (\<lambda>b1.
     and_then (byte_list_decode b1) (\<lambda>proof_data.
     Inr \<lparr>ap_participants = participants, ap_proof_data = proof_data\<rparr>))))))"

definition signed_aggregated_attestation_encode ::
    "ssz_lib \<Rightarrow> signed_aggregated_attestation \<Rightarrow> u8 list result" where
  "signed_aggregated_attestation_encode L a =
     and_then (attestation_data_encode (saa_data a)) (\<lambda>data_bytes.
     and_then (proof_encode L (saa_proof a)) (\<lambda>proof_bytes.
     let fixed_len = length data_bytes + 4
     in encode_with (fixed_len + length proof_bytes)
          [(0, data_bytes), (length data_bytes, le32 (of_nat fixed_len)),
           (fixed_len, proof_bytes)]))"

definition signed_aggregated_attestation_decode ::
    "ssz_lib \<Rightarrow> u8 list \<Rightarrow> signed_aggregated_attestation result" where
  "signed_aggregated_attestation_decode L bytes =
     and_then (slice 0 128 bytes) (\<lambda>b0. and_then (attestation_data_decode b0) (\<lambda>data.
     and_then (offset_at 128 bytes) (\<lambda>off_proof.
     and_then (slice_from off_proof bytes) (\<lambda>b1. and_then (proof_decode L b1) (\<lambda>proof.
     Inr \<lparr>saa_data = data, saa_proof = proof\<rparr>)))))"

definition signed_aggregated_attestation_decode_checked ::
    "ssz_lib \<Rightarrow> u8 list \<Rightarrow> signed_aggregated_attestation result" where
  "signed_aggregated_attestation_decode_checked L bytes =
     (let min_len = 128 + 4 in
      if length bytes < min_len
      then Inl (ErrFmt ''SignedAggregatedAttestation expects at least {} bytes, got {}''
                  [min_len, length bytes])
      else and_then (offset_at 128 bytes) (\<lambda>off_proof.
        if off_proof < min_len \<or> off_proof > length bytes
        then Inl (ErrFmt ''SignedAggregatedAttestation invalid proof offset {} for length {}''
                    [off_proof, length bytes])
        else signed_aggregated_attestation_decode L bytes))"

section \<open>Blocks\<close>

definition block_body_encode :: "ssz_lib \<Rightarrow> block_body \<Rightarrow> u8 list result" where
  "block_body_encode L b =
     (let fixed_len = 4 in
      and_then (sq_encode (lib_attestations L) (bb_attestations b)) (\<lambda>attestations.
      and_then (encode_with (length attestations) [(0, attestations)]) (\<lambda>variable.
      and_then (encode_with fixed_len [(0, le32 (of_nat fixed_len))]) (\<lambda>fixed.
      Inr (fixed @ variable)))))"

definition block_body_decode :: "ssz_lib \<Rightarrow> u8 list \<Rightarrow> block_body result" where
  "block_body_decode L bytes =
     and_then (offset_at 0 bytes) (\<lambda>offset.
     and_then (slice offset (length bytes) bytes) (\<lambda>b0.
     and_then (sq_decode (lib_attestations L) ATTESTATIONS_LIMIT b0) (\<lambda>attestations.
     Inr \<lparr>bb_attestations = attestations\<rparr>)))"

definition block_body_decode_checked :: "ssz_lib \<Rightarrow> u8 list \<Rightarrow> block_body result" where
  "block_body_decode_checked L bytes =
     (if length bytes < 4 then Inl (Err ''BlockBody missing offset table'')
      else and_then (offset_at 0 bytes) (\<lambda>offset.
        if offset \<noteq> 4 \<or> offset > length bytes then Inl (Err ''BlockBody offset is invalid'')
        else and_then (slice_from offset bytes) (\<lambda>b0.
          and_then (sq_decode_checked (lib_attestations L) ATTESTATIONS_LIMIT b0) (\<lambda>attestations.
          Inr \<lparr>bb_attestations = attestations\<rparr>))))"

definition block_encode :: "ssz_lib \<Rightarrow> block \<Rightarrow> u8 list result" where
  "block_encode L b =
     (let fixed_len = 8 + 8 + 32 + 32 + 4 in
      and_then (block_body_encode L (b_body b)) (\<lambda>body.
      and_then (encode_with (length body) [(0, body)]) (\<lambda>variable.
      and_then (encode_with fixed_len
        [(0, le64 (b_slot b)), (8, le64 (b_proposer_index b)), (16, be_bytes 32 (b_parent_root b)),
         (48, be_bytes 32 (b_state_root b)), (80, le32 (of_nat fixed_len))]) (\<lambda>fixed.
      Inr (fixed @ variable)))))"

definition block_decode :: "ssz_lib \<Rightarrow> u8 list \<Rightarrow> block result" where
  "block_decode L bytes =
     and_then (slice 0 8 bytes) (\<lambda>b0. and_then (slot_decode b0) (\<lambda>slot.
     and_then (slice 8 16 bytes) (\<lambda>b1. and_then (validator_index_decode b1) (\<lambda>proposer_index.
     and_then (slice 16 48 bytes) (\<lambda>parent.
     and_then (slice 48 80 bytes) (\<lambda>st.
     and_then (offset_at 80 bytes) (\<lambda>offset.
     and_then (slice_from offset bytes) (\<lambda>b2. and_then (block_body_decode L b2) (\<lambda>body.
     Inr \<lparr>b_slot = slot, b_proposer_index = proposer_index, b_parent_root = from_be_bytes parent,
          b_state_root = from_be_bytes st, b_body = body\<rparr>)))))))))"

definition block_decode_checked :: "ssz_lib \<Rightarrow> u8 list \<Rightarrow> block result" where
  "block_decode_checked L bytes =
     (if length bytes < 8 + 8 + 32 + 32 + 4 then Inl (Err ''Block missing offset table'')
      else
        and_then (slice 0 8 bytes) (\<lambda>b0. and_then (slot_decode b0) (\<lambda>slot.
        and_then (slice 8 16 bytes) (\<lambda>b1. and_then (validator_index_decode b1) (\<lambda>proposer_index.
        and_then (slice 16 48 bytes) (\<lambda>parent.
        and_then (slice 48 80 bytes) (\<lambda>st.
        and_then (offset_at 80 bytes) (\<lambda>offset.
        if offset \<noteq> 84 \<or> offset > length bytes then Inl (Err ''Block offset is invalid'')
        else and_then (slice_from offset bytes) (\<lambda>b2.
          and_then (block_body_decode_checked L b2) (\<lambda>body.
          Inr \<lparr>b_slot = slot, b_proposer_index = proposer_index,
               b_parent_root = from_be_bytes parent, b_state_root = from_be_bytes st,
               b_body = body\<rparr>))))))))))"

section \<open>Blocks with the proposer's attestation\<close>

definition proposer_attestation_from_ream_parts ::
    "u64 \<Rightarrow> attestation_data \<Rightarrow> attestation result" where
  "proposer_attestation_from_ream_parts validator_id data =
     (let index = unat validator_id in
      if index \<ge> VALIDATOR_REGISTRY_LIMIT
      then Inl (ErrFmt ''proposer validator index {} exceeds registry limit {}''
                  [index, VALIDATOR_REGISTRY_LIMIT])
      else
        let bit_len = index + 1;
            byte_len = (bit_len + 7) div 8;
            bits = set_bit_at (replicate byte_len 0) index
        in if index div 8 < byte_len
           then Inr \<lparr>att_bits = \<lparr>bl_data = bits, bl_len = bit_len\<rparr>, att_data = data\<rparr>
           else Inl Panic)"

definition decode_ream_block_with_attestation ::
    "ssz_lib \<Rightarrow> u8 list \<Rightarrow> bool \<Rightarrow> block_with_attestation result" where
  "decode_ream_block_with_attestation L bytes checked =
     (let fixed_len = 4 + (8 + 128) in
      if length bytes < fixed_len
      then Inl (Err ''BlockWithAttestation (ream) missing fixed section'')
      else and_then (offset_at 0 bytes) (\<lambda>off_block.
        if checked \<and> (off_block \<noteq> fixed_len \<or> off_block > length bytes)
        then Inl (Err ''BlockWithAttestation (ream) offset is invalid'')
        else if off_block < fixed_len \<or> off_block > length bytes
        then Inl (Err ''BlockWithAttestation (ream) offset is out of bounds'')
        else
          and_then (slice 4 12 bytes) (\<lambda>b0.
          let validator_id = from_le_bytes b0 in
          and_then (slice 12 (12 + 128) bytes) (\<lambda>b1.
          and_then (if checked then attestation_data_decode_checked b1
                    else attestation_data_decode b1) (\<lambda>attestation_data.
          and_then (proposer_attestation_from_ream_parts validator_id attestation_data)
            (\<lambda>proposer_attestation.
          and_then (slice_from off_block bytes) (\<lambda>b2.
          and_then (if checked then block_decode_checked L b2 else block_decode L b2) (\<lambda>block.
          Inr \<lparr>bwa_block = block, bwa_proposer_attestation = proposer_attestation\<rparr>))))))))"

text \<open>\<^verbatim>\<open>.expect(...)\<close> on a proposer attestation without exactly one bit is a panic.\<close>

definition block_with_attestation_encode ::
    "ssz_lib \<Rightarrow> block_with_attestation \<Rightarrow> u8 list result" where
  "block_with_attestation_encode L m =
     (case single_set_bit (att_bits (bwa_proposer_attestation m)) of
        None \<Rightarrow> Inl Panic
      | Some proposer_index \<Rightarrow>
          and_then (block_encode L (bwa_block m)) (\<lambda>block.
          and_then (attestation_data_encode (att_data (bwa_proposer_attestation m))) (\<lambda>att_data.
          let fixed_len = 4 + 8 + 128 in
          encode_with (fixed_len + length block)
            [(0, le32 (of_nat fixed_len)), (4, le64 (of_nat proposer_index)), (12, att_data),
             (fixed_len, block)])))"

definition block_with_attestation_decode ::
    "ssz_lib \<Rightarrow> u8 list \<Rightarrow> block_with_attestation result" where
  "block_with_attestation_decode L bytes =
     (if length bytes < 8 then Inl (Err ''BlockWithAttestation missing offset table'')
      else
        and_then (offset_at 0 bytes) (\<lambda>off_block.
        and_then (offset_at 4 bytes) (\<lambda>off_proposer.
        if off_block \<le> off_proposer \<and> off_proposer \<le> length bytes
        then
          and_then (slice off_block off_proposer bytes) (\<lambda>b0.
          and_then (block_decode L b0) (\<lambda>block.
          and_then (slice_from off_proposer bytes) (\<lambda>b1.
          and_then (attestation_decode L b1) (\<lambda>proposer_attestation.
          Inr \<lparr>bwa_block = block, bwa_proposer_attestation = proposer_attestation\<rparr>))))
        else decode_ream_block_with_attestation L bytes False)))"

definition block_with_attestation_decode_checked ::
    "ssz_lib \<Rightarrow> u8 list \<Rightarrow> block_with_attestation result" where
  "block_with_attestation_decode_checked L bytes =
     (if length bytes < 8 then Inl (Err ''BlockWithAttestation missing offset table'')
      else
        and_then (offset_at 0 bytes) (\<lambda>off_block.
        and_then (offset_at 4 bytes) (\<lambda>off_proposer.
        if off_block \<noteq> 8 \<or> off_proposer < off_block \<or> off_proposer > length bytes
        then decode_ream_block_with_attestation L bytes True
        else
          and_then (slice off_block off_proposer bytes) (\<lambda>b0.
          and_then (block_decode_checked L b0) (\<lambda>block.
          and_then (slice_from off_proposer bytes) (\<lambda>b1.
          and_then (attestation_decode_checked L b1) (\<lambda>proposer_attestation.
          Inr \<lparr>bwa_block = block, bwa_proposer_attestation = proposer_attestation\<rparr>)))))))"

section \<open>Signed blocks\<close>

definition block_signatures_encode :: "ssz_lib \<Rightarrow> block_signatures \<Rightarrow> u8 list result" where
  "block_signatures_encode L s =
     and_then (sq_encode (lib_proofs L) (bs_attestation_signatures s)) (\<lambda>sigs.
     let fixed_len = 4 + 3112 in
     encode_with (fixed_len + length sigs)
       [(0, le32 (of_nat fixed_len)), (4, be_bytes 3112 (bs_proposer_signature s)),
        (fixed_len, sigs)])"

definition block_signatures_decode :: "ssz_lib \<Rightarrow> u8 list \<Rightarrow> block_signatures result" where
  "block_signatures_decode L bytes =
     and_then (offset_at 0 bytes) (\<lambda>off_sigs.
     and_then (slice 4 (4 + 3112) bytes) (\<lambda>b0.
     and_then (bytes3112_from_slice b0) (\<lambda>proposer_signature.
     and_then (slice_from off_sigs bytes) (\<lambda>b1.
     and_then (sq_decode (lib_proofs L) ATTESTATIONS_LIMIT b1) (\<lambda>attestation_signatures.
     Inr \<lparr>bs_attestation_signatures = attestation_signatures,
          bs_proposer_signature = proposer_signature\<rparr>)))))"

definition block_signatures_decode_checked :: "ssz_lib \<Rightarrow> u8 list \<Rightarrow> block_signatures result" where
  "block_signatures_decode_checked L bytes =
     (if length bytes < 4 + 3112 then Inl (Err ''BlockSignatures missing offset table'')
      else and_then (offset_at 0 bytes) (\<lambda>off_sigs.
        if off_sigs \<noteq> 4 + 3112 \<or> off_sigs > length bytes
        then Inl (Err ''BlockSignatures offsets are invalid'')
        else
          and_then (slice 4 (4 + 3112) bytes) (\<lambda>b0.
          and_then (bytes3112_from_slice b0) (\<lambda>proposer_signature.
          and_then (slice_from off_sigs bytes) (\<lambda>b1.
          and_then (sq_decode_checked (lib_proofs L) ATTESTATIONS_LIMIT b1)
            (\<lambda>attestation_signatures.
          Inr \<lparr>bs_attestation_signatures = attestation_signatures,
               bs_proposer_signature = proposer_signature\<rparr>))))))"

definition signed_block_encode :: "ssz_lib \<Rightarrow> signed_block \<Rightarrow> u8 list result" where
  "signed_block_encode L sb =
     and_then (block_with_attestation_encode L (sb_message sb)) (\<lambda>msg.
     and_then (block_signatures_encode L (sb_signature sb)) (\<lambda>sig.
     let fixed_len = 8 in
     encode_with (fixed_len + length msg + length sig)
       [(0, le32 (of_nat fixed_len)), (4, le32 (of_nat (fixed_len + length msg))),
        (fixed_len, msg), (fixed_len + length msg, sig)]))"

definition signed_block_decode :: "ssz_lib \<Rightarrow> u8 list \<Rightarrow> signed_block result" where
  "signed_block_decode L bytes =
     and_then (offset_at 0 bytes) (\<lambda>off_msg.
     and_then (offset_at 4 bytes) (\<lambda>off_sig.
     and_then (slice off_msg off_sig bytes) (\<lambda>b0.
     and_then (block_with_attestation_decode L b0) (\<lambda>message.
     and_then (slice_from off_sig bytes) (\<lambda>b1.
     and_then (block_signatures_decode L b1) (\<lambda>signature.
     Inr \<lparr>sb_message = message, sb_signature = signature\<rparr>))))))"

definition signed_block_decode_checked :: "ssz_lib \<Rightarrow> u8 list \<Rightarrow> signed_block result" where
  "signed_block_decode_checked L bytes =
     (if length bytes < 8 then Inl (Err ''SignedBlockWithAttestation missing offset table'')
      else
        and_then (offset_at 0 bytes) (\<lambda>off_msg.
        and_then (offset_at 4 bytes) (\<lambda>off_sig.
        if off_msg \<noteq> 8 \<or> off_sig < off_msg \<or> off_sig > length bytes
        then Inl (Err ''SignedBlockWithAttestation offsets are invalid'')
        else
          and_then (slice off_msg off_sig bytes) (\<lambda>b0.
          and_then (block_with_attestation_decode_checked L b0) (\<lambda>message.
          and_then (slice_from off_sig bytes) (\<lambda>b1.
          and_then (block_signatures_decode_checked L b1) (\<lambda>signature.
          Inr \<lparr>sb_message = message, sb_signature = signature\<rparr>)))))))"

definition block_with_signatures_encode :: "ssz_lib \<Rightarrow> block_with_signatures \<Rightarrow> u8 list result" where
  "block_with_signatures_encode L b =
     and_then (block_encode L (bws_block b)) (\<lambda>block.
     and_then (sq_encode (lib_proofs L) (bws_signatures b)) (\<lambda>sigs.
     let fixed_len = 8 in
     encode_with (fixed_len + length block + length sigs)
       [(0, le32 (of_nat fixed_len)), (4, le32 (of_nat (fixed_len + length block))),
        (fixed_len, block), (fixed_len + length block, sigs)]))"

definition block_with_signatures_decode :: "ssz_lib \<Rightarrow> u8 list \<Rightarrow> block_with_signatures result" where
  "block_with_signatures_decode L bytes =
     and_then (offset_at 0 bytes) (\<lambda>off_block.
     and_then (offset_at 4 bytes) (\<lambda>off_sigs.
     and_then (slice off_block off_sigs bytes) (\<lambda>b0. and_then (block_decode L b0) (\<lambda>block.
     and_then (slice_from off_sigs bytes) (\<lambda>b1.
     and_then (sq_decode (lib_proofs L) ATTESTATIONS_LIMIT b1) (\<lambda>signatures.
     Inr \<lparr>bws_block = block, bws_signatures = signatures\<rparr>))))))"

definition block_with_signatures_decode_checked ::
    "ssz_lib \<Rightarrow> u8 list \<Rightarrow> block_with_signatures result" where
  "block_with_signatures_decode_checked L bytes =
     (if length bytes < 8 then Inl (Err ''BlockWithSignatures missing offset table'')
      else
        and_then (offset_at 0 bytes) (\<lambda>off_block.
        and_then (offset_at 4 bytes) (\<lambda>off_sigs.
        if off_block \<noteq> 8 \<or> off_sigs < off_block \<or> off_sigs > length bytes
        then Inl (Err ''BlockWithSignatures offsets are invalid'')
        else
          and_then (slice off_block off_sigs bytes) (\<lambda>b0.
          and_then (block_decode_checked L b0) (\<lambda>block.
          and_then (slice_from off_sigs bytes) (\<lambda>b1.
          and_then (sq_decode_checked (lib_proofs L) ATTESTATIONS_LIMIT b1) (\<lambda>signatures.
          Inr \<lparr>bws_block = block, bws_signatures = signatures\<rparr>)))))))"

section \<open>Structural validation\<close>

fun check_participants ::
    "nat \<Rightarrow> (attestation \<times> aggregated_signature_proof) list \<Rightarrow> unit result" where
  "check_participants idx [] = Inr ()"
| "check_participants idx ((attestation, proof) # rest) =
     (if ap_participants proof \<noteq> att_bits attestation
      then Inl (ErrFmt ''attestation aggregate participants mismatch at index {}'' [idx])
      else check_participants (Suc idx) rest)"

definition validate_basic :: "signed_block \<Rightarrow> unit result" where
  "validate_basic sb =
     (let block = bwa_block (sb_message sb);
          attestations = bb_attestations (b_body block);
          proofs = bs_attestation_signatures (sb_signature sb);
          sig_count = length proofs;
          att_count = length attestations
      in if sig_count \<noteq> att_count
         then Inl (ErrFmt ''attestation signatures count {} does not match attestations {}''
                     [sig_count, att_count])
         else and_then (check_participants 0 (zip attestations proofs)) (\<lambda>_.
           let proposer_attestation = bwa_proposer_attestation (sb_message sb) in
           if ad_slot (att_data proposer_attestation) \<noteq> b_slot block
           then Inl (Err ''proposer attestation slot does not match block slot'')
           else case single_set_bit (att_bits proposer_attestation) of
               None \<Rightarrow> Inl (Err ''proposer attestation must have exactly one participant'')
             | Some proposer_bit \<Rightarrow>
                 if proposer_bit \<noteq> unat (b_proposer_index block)
                 then Inl (Err ''proposer attestation does not match proposer index'')
                 else Inr ()))"

section \<open>Closed forms of the encoders\<close>

lemma offset_at_total: "i + 4 \<le> length bytes \<Longrightarrow> \<exists>n. offset_at i bytes = Inr n"
  by (simp add: offset_at_def slice_def)

lemma unat_of_nat_u32: "n < 2 ^ 32 \<Longrightarrow> unat (of_nat n :: u32) = n"
  by (simp add: unat_of_nat)

lemma le32_of_nat: "n < 2 ^ 32 \<Longrightarrow> unat (from_le_bytes (le32 (of_nat n)) :: u32) = n"
  by (simp add: unat_of_nat_u32)

lemma le64_low_half:
  "i < 2 ^ 32 \<Longrightarrow> unat (from_le_bytes (take 4 (le64 (of_nat i))) :: u32) = i"
proof -
  assume i: "i < 2 ^ 32"
  have "take 4 (le64 (of_nat i :: u64)) = le32 (of_nat i :: u32)"
    using i by (simp add: le_bytes_def take_map take_upt)
       (auto simp: word_eq_iff_unat unsigned_ucast_eq unat_drop_bit take_bit_eq_mod unat_of_nat
          intro!: arg_cong [of _ _ "\<lambda>n. n mod 256"])
  then show ?thesis using i by (simp add: unat_of_nat_u32)
qed

lemma attestation_encode_eq [codec_simps]:
  "attestation_encode L a =
     Inr (le32 132 @ attestation_data_bytes (att_data a) @ bits_encode (lib_bits L) (att_bits a))"
  unfolding attestation_encode_def attestation_data_encode_bytes and_then_simps Let_def
  by (subst encode_with_tiles) simp_all

lemma proof_encode_eq [codec_simps]:
  "proof_encode L p =
     (let bits = bits_encode (lib_bits L) (ap_participants p)
      in Inr (le32 8 @ le32 (of_nat (8 + length bits)) @ bits @ ap_proof_data p))"
  unfolding proof_encode_def byte_list_encode_def and_then_simps Let_def
  by (subst encode_with_tiles) simp_all

lemma signed_aggregated_attestation_encode_eq [codec_simps]:
  "signed_aggregated_attestation_encode L a =
     and_then (proof_encode L (saa_proof a)) (\<lambda>p.
     Inr (attestation_data_bytes (saa_data a) @ le32 132 @ p))"
  unfolding signed_aggregated_attestation_encode_def attestation_data_encode_bytes and_then_simps
    Let_def
  by (rule and_then_cong [OF refl]) (subst encode_with_tiles, simp_all)

lemma block_body_encode_eq [codec_simps]:
  "block_body_encode L b =
     and_then (sq_encode (lib_attestations L) (bb_attestations b)) (\<lambda>bs. Inr (le32 4 @ bs))"
  unfolding block_body_encode_def Let_def
  by (rule and_then_cong [OF refl]) (simp add: encode_with_tiles)

definition block_fixed_bytes :: "block \<Rightarrow> u8 list" where
  "block_fixed_bytes b =
     le64 (b_slot b) @ le64 (b_proposer_index b) @ be_bytes 32 (b_parent_root b) @
     be_bytes 32 (b_state_root b) @ le32 84"

lemma length_block_fixed_bytes [simp]: "length (block_fixed_bytes b) = 84"
  by (simp add: block_fixed_bytes_def)

lemma block_encode_eq [codec_simps]:
  "block_encode L b =
     and_then (block_body_encode L (b_body b)) (\<lambda>body. Inr (block_fixed_bytes b @ body))"
  unfolding block_encode_def Let_def
  by (rule and_then_cong [OF refl]) (simp add: encode_with_tiles block_fixed_bytes_def)

lemma block_with_attestation_encode_eq [codec_simps]:
  "single_set_bit (att_bits (bwa_proposer_attestation m)) = Some i \<Longrightarrow>
   block_with_attestation_encode L m =
     and_then (block_encode L (bwa_block m)) (\<lambda>bs.
     Inr (le32 140 @ le64 (of_nat i) @
          attestation_data_bytes (att_data (bwa_proposer_attestation m)) @ bs))"
  unfolding block_with_attestation_encode_def attestation_data_encode_bytes and_then_simps Let_def
  by (simp only: option.case, rule and_then_cong [OF refl]) (subst encode_with_tiles, simp_all)

lemma block_signatures_encode_eq [codec_simps]:
  "block_signatures_encode L s =
     and_then (sq_encode (lib_proofs L) (bs_attestation_signatures s)) (\<lambda>sigs.
     Inr (le32 3116 @ be_bytes 3112 (bs_proposer_signature s) @ sigs))"
  unfolding block_signatures_encode_def Let_def
  by (rule and_then_cong [OF refl]) (subst encode_with_tiles, simp_all)

lemma signed_block_encode_eq [codec_simps]:
  "signed_block_encode L sb =
     and_then (block_with_attestation_encode L (sb_message sb)) (\<lambda>msg.
     and_then (block_signatures_encode L (sb_signature sb)) (\<lambda>sig.
     Inr (le32 8 @ le32 (of_nat (8 + length msg)) @ msg @ sig)))"
  unfolding signed_block_encode_def Let_def
  by (rule and_then_cong [OF refl], rule and_then_cong [OF refl])
    (subst encode_with_tiles, simp_all)

lemma block_with_signatures_encode_eq [codec_simps]:
  "block_with_signatures_encode L b =
     and_then (block_encode L (bws_block b)) (\<lambda>bs.
     and_then (sq_encode (lib_proofs L) (bws_signatures b)) (\<lambda>sigs.
     Inr (le32 8 @ le32 (of_nat (8 + length bs)) @ bs @ sigs)))"
  unfolding block_with_signatures_encode_def Let_def
  by (rule and_then_cong [OF refl], rule and_then_cong [OF refl])
    (subst encode_with_tiles, simp_all)

section \<open>Decoding encodings\<close>

text \<open>The contract of a variable-length type on the values that can be encoded.\<close>

locale var_codec =
  fixes enc :: "'a \<Rightarrow> u8 list result" and dec :: "u8 list \<Rightarrow> 'a result" and valid :: "'a \<Rightarrow> bool"
  assumes enc_defined: "valid x \<Longrightarrow> \<exists>bs. enc x = Inr bs"
    and dec_of_enc: "valid x \<Longrightarrow> enc x = Inr bs \<Longrightarrow> dec bs = Inr x"
begin

lemma var_roundtrip: "valid x \<Longrightarrow> and_then (enc x) dec = Inr x"
  using enc_defined [of x] dec_of_enc [of x] by auto

lemma var_enc_inject:
  assumes "valid x" "valid y" and eq: "enc x = enc y"
  shows "x = y"
proof -
  have "Inr x = and_then (enc x) dec" using assms(1) by (rule var_roundtrip [symmetric])
  also have "\<dots> = Inr y" unfolding eq using assms(2) by (rule var_roundtrip)
  finally show ?thesis by (rule Inr_inject)
qed

end

text \<open>The bits that \<^verbatim>\<open>proposer_attestation_from_ream_parts\<close> builds for one validator.\<close>

definition proposer_bits :: "nat \<Rightarrow> bitlist" where
  "proposer_bits i = \<lparr>bl_data = set_bit_at (replicate ((i + 8) div 8) 0) i, bl_len = i + 1\<rparr>"

lemma proposer_attestation_from_ream_parts_eq:
  "proposer_attestation_from_ream_parts v d =
     (if unat v < VALIDATOR_REGISTRY_LIMIT
      then Inr \<lparr>att_bits = proposer_bits (unat v), att_data = d\<rparr>
      else Inl (ErrFmt ''proposer validator index {} exceeds registry limit {}''
                  [unat v, VALIDATOR_REGISTRY_LIMIT]))"
proof -
  have "unat v div 8 < (unat v + 1 + 7) div 8" by simp
  then show ?thesis
    by (simp add: proposer_attestation_from_ream_parts_def Let_def proposer_bits_def not_le add.commute)
qed

lemma bits_of_proposer_bits: "bits_of (proposer_bits i) = {i}"
  by (auto simp: bits_of_def proposer_bits_def data_bit_set_bit_at)

lemma single_set_bit_proposer_bits: "single_set_bit (proposer_bits i) = Some i"
  by (simp add: single_set_bit_iff bits_of_proposer_bits)

subsection \<open>Encodable values\<close>

definition block_body_valid :: "ssz_lib \<Rightarrow> block_body \<Rightarrow> bool" where
  "block_body_valid L b \<longleftrightarrow>
     (\<exists>bs. seq_roundtrip (lib_attestations L) ATTESTATIONS_LIMIT (bb_attestations b) bs)"

definition block_with_attestation_valid :: "ssz_lib \<Rightarrow> block_with_attestation \<Rightarrow> bool" where
  "block_with_attestation_valid L m \<longleftrightarrow> block_body_valid L (b_body (bwa_block m)) \<and>
     (\<exists>i < VALIDATOR_REGISTRY_LIMIT. att_bits (bwa_proposer_attestation m) = proposer_bits i)"

definition proofs_valid :: "ssz_lib \<Rightarrow> aggregated_signature_proof list \<Rightarrow> bool" where
  "proofs_valid L ps \<longleftrightarrow> (\<exists>bs. seq_roundtrip (lib_proofs L) ATTESTATIONS_LIMIT ps bs)"

definition offset_fits :: "u8 list result \<Rightarrow> bool" where
  "offset_fits r \<longleftrightarrow> (case r of Inl _ \<Rightarrow> False | Inr bs \<Rightarrow> 8 + length bs < 2 ^ 32)"

definition signed_block_valid :: "ssz_lib \<Rightarrow> signed_block \<Rightarrow> bool" where
  "signed_block_valid L sb \<longleftrightarrow> block_with_attestation_valid L (sb_message sb) \<and>
     proofs_valid L (bs_attestation_signatures (sb_signature sb)) \<and>
     offset_fits (block_with_attestation_encode L (sb_message sb))"

definition block_with_signatures_valid :: "ssz_lib \<Rightarrow> block_with_signatures \<Rightarrow> bool" where
  "block_with_signatures_valid L b \<longleftrightarrow> block_body_valid L (b_body (bws_block b)) \<and>
     proofs_valid L (bws_signatures b) \<and> offset_fits (block_encode L (bws_block b))"

lemmas offset_read = offset_at_def slice_def slice_from_def

lemma block_body_decode_bytes [codec_simps]:
  "block_body_decode L (le32 4 @ bs) =
     and_then (sq_decode (lib_attestations L) ATTESTATIONS_LIMIT bs)
       (\<lambda>xs. Inr \<lparr>bb_attestations = xs\<rparr>)"
  "block_body_decode_checked L (le32 4 @ bs) =
     and_then (sq_decode_checked (lib_attestations L) ATTESTATIONS_LIMIT bs)
       (\<lambda>xs. Inr \<lparr>bb_attestations = xs\<rparr>)"
  by (simp_all add: block_body_decode_def block_body_decode_checked_def offset_read)

lemma block_decode_bytes [codec_simps]:
  "block_decode L (block_fixed_bytes b @ bs) =
     and_then (block_body_decode L bs) (\<lambda>body. Inr (b\<lparr>b_body := body\<rparr>))"
  "block_decode_checked L (block_fixed_bytes b @ bs) =
     and_then (block_body_decode_checked L bs) (\<lambda>body. Inr (b\<lparr>b_body := body\<rparr>))"
  by (cases b, simp add: block_decode_def block_decode_checked_def block_fixed_bytes_def
      offset_read slot_decode_def validator_index_decode_def uint64_decode_def)+

lemma ream_decode_bytes [codec_simps]:
  assumes "i < VALIDATOR_REGISTRY_LIMIT"
  shows "decode_ream_block_with_attestation L
      (le32 140 @ le64 (of_nat i) @ attestation_data_bytes d @ bs) checked =
    and_then (if checked then block_decode_checked L bs else block_decode L bs) (\<lambda>b.
    Inr \<lparr>bwa_block = b, bwa_proposer_attestation = \<lparr>att_bits = proposer_bits i, att_data = d\<rparr>\<rparr>)"
proof -
  have "unat (of_nat i :: u64) = i"
    using assms by (simp add: unat_of_nat VALIDATOR_REGISTRY_LIMIT_def)
  then show ?thesis using assms
    by (simp add: decode_ream_block_with_attestation_def Let_def offset_read
        attestation_data_decode_bytes attestation_data_decode_checked_def checked_len_def
        proposer_attestation_from_ream_parts_eq)
qed

lemma block_with_attestation_decode_checked_bytes [codec_simps]:
  assumes "i < VALIDATOR_REGISTRY_LIMIT"
  shows "block_with_attestation_decode_checked L
      (le32 140 @ le64 (of_nat i) @ attestation_data_bytes d @ bs) =
    and_then (block_decode_checked L bs) (\<lambda>b.
    Inr \<lparr>bwa_block = b, bwa_proposer_attestation = \<lparr>att_bits = proposer_bits i, att_data = d\<rparr>\<rparr>)"
proof -
  let ?bytes = "le32 140 @ le64 (of_nat i) @ attestation_data_bytes d @ bs"
  obtain n where "offset_at 4 ?bytes = Inr n" using offset_at_total [of 4 ?bytes] by auto
  then have "block_with_attestation_decode_checked L ?bytes =
      decode_ream_block_with_attestation L ?bytes True"
    by (simp add: block_with_attestation_decode_checked_def offset_at_0_le32)
  also note ream_decode_bytes [OF assms]
  finally show ?thesis by simp
qed

lemma block_signatures_decode_bytes [codec_simps]:
  "block_signatures_decode L (le32 3116 @ be_bytes 3112 sig @ bs) =
     and_then (sq_decode (lib_proofs L) ATTESTATIONS_LIMIT bs)
       (\<lambda>ps. Inr \<lparr>bs_attestation_signatures = ps, bs_proposer_signature = sig\<rparr>)"
  "block_signatures_decode_checked L (le32 3116 @ be_bytes 3112 sig @ bs) =
     and_then (sq_decode_checked (lib_proofs L) ATTESTATIONS_LIMIT bs)
       (\<lambda>ps. Inr \<lparr>bs_attestation_signatures = ps, bs_proposer_signature = sig\<rparr>)"
  by (simp_all add: block_signatures_decode_def block_signatures_decode_checked_def offset_read
      bytes3112_from_slice_def)

lemma signed_block_decode_checked_bytes [codec_simps]:
  "8 + length msg < 2 ^ 32 \<Longrightarrow>
   signed_block_decode_checked L (le32 8 @ le32 (of_nat (8 + length msg)) @ msg @ sig) =
     and_then (block_with_attestation_decode_checked L msg) (\<lambda>m.
     and_then (block_signatures_decode_checked L sig) (\<lambda>s.
     Inr \<lparr>sb_message = m, sb_signature = s\<rparr>))"
  by (simp add: signed_block_decode_checked_def offset_read unat_of_nat_u32 del: of_nat_add)

lemma block_with_signatures_decode_bytes [codec_simps]:
  "8 + length bs < 2 ^ 32 \<Longrightarrow>
   block_with_signatures_decode_checked L (le32 8 @ le32 (of_nat (8 + length bs)) @ bs @ sigs) =
     and_then (block_decode_checked L bs) (\<lambda>b.
     and_then (sq_decode_checked (lib_proofs L) ATTESTATIONS_LIMIT sigs) (\<lambda>ps.
     Inr \<lparr>bws_block = b, bws_signatures = ps\<rparr>))"
  by (simp add: block_with_signatures_decode_checked_def offset_read unat_of_nat_u32
      del: of_nat_add)

definition proof_valid :: "ssz_lib \<Rightarrow> aggregated_signature_proof \<Rightarrow> bool" where
  "proof_valid L p \<longleftrightarrow> bits_roundtrip L VALIDATOR_REGISTRY_LIMIT (ap_participants p) \<and>
     8 + length (bits_encode (lib_bits L) (ap_participants p)) < 2 ^ 32"

lemma attestation_decode_bytes [codec_simps]:
  "attestation_decode L (le32 132 @ attestation_data_bytes d @ bs) =
     and_then (bits_decode (lib_bits L) VALIDATOR_REGISTRY_LIMIT bs)
       (\<lambda>bits. Inr \<lparr>att_bits = bits, att_data = d\<rparr>)"
  by (simp add: attestation_decode_def offset_read attestation_data_decode_bytes)

lemma proof_decode_bytes [codec_simps]:
  "8 + length bits < 2 ^ 32 \<Longrightarrow>
   proof_decode L (le32 8 @ le32 (of_nat (8 + length bits)) @ bits @ rest) =
     and_then (bits_decode (lib_bits L) VALIDATOR_REGISTRY_LIMIT bits)
       (\<lambda>p. Inr \<lparr>ap_participants = p, ap_proof_data = rest\<rparr>)"
  by (simp add: proof_decode_def offset_read unat_of_nat_u32 byte_list_decode_def del: of_nat_add)

lemma signed_aggregated_attestation_decode_bytes [codec_simps]:
  "signed_aggregated_attestation_decode_checked L (attestation_data_bytes d @ le32 132 @ bs) =
     and_then (proof_decode L bs) (\<lambda>p. Inr \<lparr>saa_data = d, saa_proof = p\<rparr>)"
  by (simp add: signed_aggregated_attestation_decode_checked_def
      signed_aggregated_attestation_decode_def offset_read attestation_data_decode_bytes)

interpretation attestation_checked:
  var_codec "attestation_encode L" "attestation_decode_checked L"
    "\<lambda>a. bits_roundtrip L VALIDATOR_REGISTRY_LIMIT (att_bits a)" for L
  by unfold_locales
    (auto simp: codec_simps attestation_decode_checked_def bits_roundtrip_def)

interpretation proof_codec:
  var_codec "proof_encode L" "proof_decode L" "proof_valid L" for L
proof
  fix p bs assume "proof_valid L p" "proof_encode L p = Inr bs"
  then show "proof_decode L bs = Inr p"
    by (auto simp: proof_encode_eq Let_def proof_valid_def bits_roundtrip_def
        proof_decode_bytes simp del: of_nat_add)
qed (simp add: proof_encode_eq Let_def)

interpretation signed_aggregated_attestation_checked:
  var_codec "signed_aggregated_attestation_encode L" "signed_aggregated_attestation_decode_checked L"
    "\<lambda>a. proof_valid L (saa_proof a)" for L
proof
  fix a :: signed_aggregated_attestation and bs
  assume v: "proof_valid L (saa_proof a)"
  then obtain p where p: "proof_encode L (saa_proof a) = Inr p" "proof_decode L p = Inr (saa_proof a)"
    using proof_codec.enc_defined proof_codec.dec_of_enc by blast
  then show "\<exists>bs. signed_aggregated_attestation_encode L a = Inr bs"
    by (simp add: signed_aggregated_attestation_encode_eq)
  show "signed_aggregated_attestation_decode_checked L bs = Inr a"
    if "signed_aggregated_attestation_encode L a = Inr bs"
    using that p by (auto simp: signed_aggregated_attestation_encode_eq
        signed_aggregated_attestation_decode_bytes)
qed

lemma seq_valid_encode:
  "block_body_valid L b \<Longrightarrow> \<exists>bs. sq_encode (lib_attestations L) (bb_attestations b) = Inr bs"
  "proofs_valid L ps \<Longrightarrow> \<exists>bs. sq_encode (lib_proofs L) ps = Inr bs"
  by (auto simp: block_body_valid_def proofs_valid_def seq_roundtrip_def)

interpretation block_body_codec:
  var_codec "block_body_encode L" "block_body_decode L" "block_body_valid L" for L
  by unfold_locales
    (auto simp: block_body_valid_def seq_roundtrip_def codec_simps)

interpretation block_body_checked:
  var_codec "block_body_encode L" "block_body_decode_checked L" "block_body_valid L" for L
  by unfold_locales
    (auto simp: block_body_valid_def seq_roundtrip_def codec_simps)

interpretation block_codec:
  var_codec "block_encode L" "block_decode L" "\<lambda>b. block_body_valid L (b_body b)" for L
  by unfold_locales
    (auto simp: block_encode_eq block_decode_bytes and_then_eq_Inr
      dest: block_body_codec.enc_defined block_body_codec.dec_of_enc)

interpretation block_checked:
  var_codec "block_encode L" "block_decode_checked L" "\<lambda>b. block_body_valid L (b_body b)" for L
  by unfold_locales
    (auto simp: block_encode_eq block_decode_bytes and_then_eq_Inr
      dest: block_body_checked.enc_defined block_body_checked.dec_of_enc)

interpretation block_signatures_codec:
  var_codec "block_signatures_encode L" "block_signatures_decode L"
    "\<lambda>s. proofs_valid L (bs_attestation_signatures s)" for L
  by unfold_locales
    (auto simp: proofs_valid_def seq_roundtrip_def codec_simps)

interpretation block_signatures_checked:
  var_codec "block_signatures_encode L" "block_signatures_decode_checked L"
    "\<lambda>s. proofs_valid L (bs_attestation_signatures s)" for L
  by unfold_locales
    (auto simp: proofs_valid_def seq_roundtrip_def codec_simps)

lemma block_with_attestation_encode_valid:
  assumes "block_with_attestation_valid L m"
  obtains i bs where "i < VALIDATOR_REGISTRY_LIMIT"
    "att_bits (bwa_proposer_attestation m) = proposer_bits i" "block_encode L (bwa_block m) = Inr bs"
    "block_with_attestation_encode L m =
       Inr (le32 140 @ le64 (of_nat i) @ attestation_data_bytes (att_data (bwa_proposer_attestation m)) @ bs)"
proof -
  obtain i where i: "i < VALIDATOR_REGISTRY_LIMIT"
      "att_bits (bwa_proposer_attestation m) = proposer_bits i"
    and body: "block_body_valid L (b_body (bwa_block m))"
    using assms by (auto simp: block_with_attestation_valid_def)
  obtain bs where "block_encode L (bwa_block m) = Inr bs"
    using block_checked.enc_defined [OF body] by auto
  with i that show thesis
    by (simp add: block_with_attestation_encode_eq single_set_bit_proposer_bits)
qed

interpretation block_with_attestation_checked:
  var_codec "block_with_attestation_encode L" "block_with_attestation_decode_checked L"
    "block_with_attestation_valid L" for L
proof
  fix m bs assume v: "block_with_attestation_valid L m"
    and e: "block_with_attestation_encode L m = Inr bs"
  have "block_body_valid L (b_body (bwa_block m))"
    using v by (simp add: block_with_attestation_valid_def)
  then have dec: "block_encode L (bwa_block m) = Inr b \<Longrightarrow> block_decode_checked L b = Inr (bwa_block m)" for b
    by (rule block_checked.dec_of_enc)
  show "block_with_attestation_decode_checked L bs = Inr m"
    using v by (rule block_with_attestation_encode_valid)
      (use e dec in \<open>auto simp: block_with_attestation_decode_checked_bytes\<close>)
qed (auto elim: block_with_attestation_encode_valid)

interpretation signed_block_checked:
  var_codec "signed_block_encode L" "signed_block_decode_checked L" "signed_block_valid L" for L
proof
  fix sb assume v: "signed_block_valid L sb"
  then have vm: "block_with_attestation_valid L (sb_message sb)"
    and vs: "proofs_valid L (bs_attestation_signatures (sb_signature sb))"
    by (simp_all add: signed_block_valid_def)
  obtain msg sig where e: "block_with_attestation_encode L (sb_message sb) = Inr msg"
    "block_signatures_encode L (sb_signature sb) = Inr sig"
    using block_with_attestation_checked.enc_defined [OF vm]
      block_signatures_checked.enc_defined [OF vs] by auto
  then have enc: "signed_block_encode L sb = Inr (le32 8 @ le32 (of_nat (8 + length msg)) @ msg @ sig)"
    by (simp add: signed_block_encode_eq)
  then show "\<exists>bs. signed_block_encode L sb = Inr bs" ..
  have "8 + length msg < 2 ^ 32" using v e by (simp add: signed_block_valid_def offset_fits_def)
  then have "signed_block_decode_checked L (le32 8 @ le32 (of_nat (8 + length msg)) @ msg @ sig) = Inr sb"
    using block_with_attestation_checked.dec_of_enc [OF vm e(1)]
      block_signatures_checked.dec_of_enc [OF vs e(2)]
    by (simp only: signed_block_decode_checked_bytes and_then_simps) simp
  then show "\<And>bs. signed_block_encode L sb = Inr bs \<Longrightarrow> signed_block_decode_checked L bs = Inr sb"
    using enc by simp
qed

interpretation block_with_signatures_checked:
  var_codec "block_with_signatures_encode L" "block_with_signatures_decode_checked L"
    "block_with_signatures_valid L" for L
proof
  fix b assume v: "block_with_signatures_valid L b"
  then have vb: "block_body_valid L (b_body (bws_block b))" and vs: "proofs_valid L (bws_signatures b)"
    by (simp_all add: block_with_signatures_valid_def)
  obtain bs sigs where e: "block_encode L (bws_block b) = Inr bs"
    and s: "seq_roundtrip (lib_proofs L) ATTESTATIONS_LIMIT (bws_signatures b) sigs"
    using block_checked.enc_defined [OF vb] vs by (auto simp: proofs_valid_def)
  then have enc: "block_with_signatures_encode L b =
      Inr (le32 8 @ le32 (of_nat (8 + length bs)) @ bs @ sigs)"
    by (simp add: block_with_signatures_encode_eq seq_roundtrip_def)
  then show "\<exists>bs. block_with_signatures_encode L b = Inr bs" ..
  have "8 + length bs < 2 ^ 32" using v e by (simp add: block_with_signatures_valid_def offset_fits_def)
  then have "block_with_signatures_decode_checked L
      (le32 8 @ le32 (of_nat (8 + length bs)) @ bs @ sigs) = Inr b"
    using block_checked.dec_of_enc [OF vb e] s
    by (simp only: block_with_signatures_decode_bytes and_then_simps) (simp add: seq_roundtrip_def)
  then show "\<And>bs. block_with_signatures_encode L b = Inr bs \<Longrightarrow>
      block_with_signatures_decode_checked L bs = Inr b"
    using enc by simp
qed

section \<open>Malformed input\<close>

lemma graceful_slice: "a \<le> b \<Longrightarrow> b \<le> length xs \<Longrightarrow> graceful (slice a b xs)"
  by (simp add: slice_def)

lemma graceful_slice_from: "a \<le> length xs \<Longrightarrow> graceful (slice_from a xs)"
  by (simp add: slice_from_def)

lemmas graceful_intros = graceful_and_then offset_at_graceful graceful_slice graceful_slice_from

lemma block_decode_short: "length bs < 84 \<Longrightarrow> block_decode L bs = Inl Panic"
  by (auto simp: block_decode_def offset_read slot_decode_def validator_index_decode_def
      uint64_decode_def)

lemma attestation_decode_zero_offset:
  "attestation_decode_checked L (replicate 132 0) = Inl Panic"
  by (simp add: attestation_decode_checked_def attestation_decode_def offset_read
      numeral_eq_Suc)

lemma legacy_block_with_attestation_bytes:
  assumes "sq_decode_checked (lib_attestations L) ATTESTATIONS_LIMIT [] = Inr []"
  shows "block_with_attestation_decode_checked L
      (le32 8 @ le32 96 @ block_fixed_bytes b @ le32 4 @ att) =
    and_then (attestation_decode_checked L att) (\<lambda>a.
    Inr \<lparr>bwa_block = b\<lparr>b_body := \<lparr>bb_attestations = []\<rparr>\<rparr>, bwa_proposer_attestation = a\<rparr>)"
proof -
  let ?bytes = "le32 8 @ le32 96 @ block_fixed_bytes b @ le32 4 @ att"
  have "offset_at 0 ?bytes = Inr 8" "offset_at 4 ?bytes = Inr 96"
    by (simp_all add: offset_read)
  moreover have "slice 8 96 ?bytes = Inr (block_fixed_bytes b @ le32 4 @ [])"
    "slice_from 96 ?bytes = Inr att"
    by (simp_all add: slice_def slice_from_def)
  moreover have "block_decode_checked L (block_fixed_bytes b @ le32 4 @ []) =
      Inr (b\<lparr>b_body := \<lparr>bb_attestations = []\<rparr>\<rparr>)"
    using assms by (simp only: block_decode_bytes block_body_decode_bytes and_then_simps)
  ultimately show ?thesis by (simp add: block_with_attestation_decode_checked_def)
qed

section \<open>Properties\<close>

text \<open>
  (signed blocks round trip). Encoding a signed block and reading it back with the
  checked decoder gives the same signed block. The block's lists must be ones the list
  codec of the library can round-trip, the proposer attestation must be in the wire form
  (one bit, no trailing length), and the message must fit a 32-bit offset.
\<close>

theorem signed_block_roundtrip:
  assumes "signed_block_valid L sb"
  shows "and_then (signed_block_encode L sb) (signed_block_decode_checked L) = Inr sb"
  using assms by (rule signed_block_checked.var_roundtrip)

definition sample_signed_block :: "nat \<Rightarrow> signed_block" where
  "sample_signed_block i = \<lparr>
     sb_message = \<lparr>
       bwa_block = \<lparr>b_slot = 7, b_proposer_index = of_nat i, b_parent_root = 5, b_state_root = 9,
                    b_body = \<lparr>bb_attestations = []\<rparr>\<rparr>,
       bwa_proposer_attestation = \<lparr>att_bits = proposer_bits i,
         att_data = \<lparr>ad_slot = 7, ad_head = \<lparr>cp_root = 1, cp_slot = 2\<rparr>,
           ad_target = \<lparr>cp_root = 1, cp_slot = 2\<rparr>, ad_source = \<lparr>cp_root = 0, cp_slot = 0\<rparr>\<rparr>\<rparr>\<rparr>,
     sb_signature = \<lparr>bs_attestation_signatures = [], bs_proposer_signature = 0\<rparr>\<rparr>"

lemma sample_bwa_valid:
  "i < VALIDATOR_REGISTRY_LIMIT \<Longrightarrow>
   block_with_attestation_valid sample_lib (sb_message (sample_signed_block i))"
  using sample_seq_roundtrip
  by (auto simp: block_with_attestation_valid_def block_body_valid_def sample_signed_block_def)

lemma sample_signed_block_valid:
  assumes "i < VALIDATOR_REGISTRY_LIMIT"
  shows "signed_block_valid sample_lib (sample_signed_block i)"
proof -
  have "offset_fits (block_with_attestation_encode sample_lib (sb_message (sample_signed_block i)))"
    by (simp add: offset_fits_def sample_signed_block_def codec_simps single_set_bit_proposer_bits
        sample_seq_def)
  then show ?thesis
    using sample_bwa_valid [OF assms] sample_seq_roundtrip
    by (auto simp: signed_block_valid_def proofs_valid_def sample_signed_block_def)
qed

theorem signed_block_roundtrip_witness:
  "and_then (signed_block_encode sample_lib (sample_signed_block 3))
     (signed_block_decode_checked sample_lib) = Inr (sample_signed_block 3)"
  by (rule signed_block_roundtrip, rule sample_signed_block_valid)
    (simp add: VALIDATOR_REGISTRY_LIMIT_def)

text \<open>
  (the checked decoder of signed blocks can panic). \<^verbatim>\<open>Attestation::decode_ssz_checked\<close>
  checks the length but not the offset it then slices with. The checked decoder of
  \<^verbatim>\<open>SignedBlockWithAttestation\<close> reaches it through the legacy layout, so a peer can send
  bytes on which it panics instead of returning an error.
\<close>

theorem checked_signed_block_decoder_can_panic:
  assumes "sq_decode_checked (lib_attestations L) ATTESTATIONS_LIMIT [] = Inr []"
  shows "signed_block_decode_checked L
    (le32 8 @ le32 236 @ (le32 8 @ le32 96 @ block_fixed_bytes b @ le32 4 @ replicate 132 0) @ sig)
    = Inl Panic"
proof -
  let ?msg = "le32 8 @ le32 96 @ block_fixed_bytes b @ le32 4 @ replicate 132 0"
  have "length ?msg = 228" by simp
  then have "signed_block_decode_checked L (le32 8 @ le32 (of_nat (8 + length ?msg)) @ ?msg @ sig) =
      and_then (block_with_attestation_decode_checked L ?msg) (\<lambda>m.
      and_then (block_signatures_decode_checked L sig) (\<lambda>s.
      Inr \<lparr>sb_message = m, sb_signature = s\<rparr>))"
    by (intro signed_block_decode_checked_bytes) simp
  also have "block_with_attestation_decode_checked L ?msg = Inl Panic"
    using assms by (subst legacy_block_with_attestation_bytes)
      (simp_all only: attestation_decode_zero_offset and_then_simps)
  finally show ?thesis by simp
qed

theorem checked_signed_block_decoder_can_panic_witness:
  "\<exists>bytes. signed_block_decode_checked sample_lib bytes = Inl Panic"
  by (rule exI, rule checked_signed_block_decoder_can_panic) (simp add: sample_seq_def)

text \<open>
  (gossiped attestations round trip). An aggregated attestation whose participants fit
  the bit-list codec is read back unchanged by the checked decoder.
\<close>

theorem signed_aggregated_attestation_roundtrip:
  assumes "proof_valid L (saa_proof a)"
  shows "and_then (signed_aggregated_attestation_encode L a)
    (signed_aggregated_attestation_decode_checked L) = Inr a"
  using assms by (rule signed_aggregated_attestation_checked.var_roundtrip)

definition sample_aggregate :: signed_aggregated_attestation where
  "sample_aggregate =
     \<lparr>saa_data = att_data (bwa_proposer_attestation (sb_message (sample_signed_block 1))),
      saa_proof = \<lparr>ap_participants = \<lparr>bl_data = [5], bl_len = 3\<rparr>, ap_proof_data = [1, 2, 3]\<rparr>\<rparr>"

theorem signed_aggregated_attestation_roundtrip_witness:
  "and_then (signed_aggregated_attestation_encode sample_lib sample_aggregate)
     (signed_aggregated_attestation_decode_checked sample_lib) = Inr sample_aggregate"
  by (rule signed_aggregated_attestation_roundtrip)
    (simp add: proof_valid_def sample_aggregate_def sample_bits_roundtrip sample_bits_def)

text \<open>
  (the checked decoder of aggregated attestations can panic). It checks the offset of the
  proof but not the proof: the proof is read by the trusting decoder, which slices the
  offset table without a length check. The 132 bytes of a message with an empty proof pass
  the checks and then panic.
\<close>

theorem checked_aggregate_decoder_can_panic:
  "signed_aggregated_attestation_decode_checked L (attestation_data_bytes d @ le32 132) = Inl Panic"
proof -
  have "signed_aggregated_attestation_decode_checked L (attestation_data_bytes d @ le32 132 @ []) =
      Inl Panic"
    by (simp only: signed_aggregated_attestation_decode_bytes) (simp add: proof_decode_def offset_read)
  then show ?thesis by simp
qed

lemma trusting_decode_panics:
  assumes valid: "block_with_attestation_valid L m"
    and bits: "att_bits (bwa_proposer_attestation m) = proposer_bits i" and i: "140 \<le> i" "i < 224"
  obtains bytes where "block_with_attestation_encode L m = Inr bytes" "block_with_attestation_decode L bytes = Inl Panic"
proof -
  have "block_body_valid L (b_body (bwa_block m))"
    using valid by (simp add: block_with_attestation_valid_def)
  then obtain body where "block_body_encode L (b_body (bwa_block m)) = Inr body"
    using block_body_codec.enc_defined by blast
  then obtain bs where bs: "block_encode L (bwa_block m) = Inr bs" "84 \<le> length bs"
    by (simp add: block_encode_eq)
  let ?d = "attestation_data_bytes (att_data (bwa_proposer_attestation m))"
  let ?bytes = "le32 140 @ le64 (of_nat i) @ ?d @ bs"
  have enc: "block_with_attestation_encode L m = Inr ?bytes"
    using bits bs by (simp add: block_with_attestation_encode_eq single_set_bit_proposer_bits)
  have low: "offset_at 4 ?bytes = Inr i"
    using i by (simp add: offset_at_def slice_def le64_low_half)
  have "slice 140 i ?bytes = Inr (take (i - 140) bs)"
    using i bs(2) by (simp add: slice_def)
  moreover have "block_decode L (take (i - 140) bs) = Inl Panic"
    using i bs(2) by (intro block_decode_short) simp
  ultimately have "block_with_attestation_decode L ?bytes = Inl Panic"
    using i bs(2) low
    by (simp add: block_with_attestation_decode_def offset_at_0_le32)
  with enc show ?thesis by (rule that)
qed

text \<open>
  (the trusting decoder misreads the wire format). \<^verbatim>\<open>BlockWithAttestation::decode_ssz\<close>
  guesses the layout from the four bytes after the first offset, which in the format
  that \<^verbatim>\<open>encode_ssz\<close> emits are the low half of the proposer's index. For every proposer
  index from 140 to 223 it takes its own encoding for the legacy layout and panics, while
  the checked decoder reads the same bytes correctly.
\<close>

theorem trusting_decoder_misreads_wire_format:
  assumes "block_with_attestation_valid L m"
    and "att_bits (bwa_proposer_attestation m) = proposer_bits i" and "140 \<le> i" "i < 224"
  shows "and_then (block_with_attestation_encode L m) (block_with_attestation_decode L) = Inl Panic \<and>
    and_then (block_with_attestation_encode L m) (block_with_attestation_decode_checked L) = Inr m"
  by (rule trusting_decode_panics [OF assms])
    (use block_with_attestation_checked.dec_of_enc [OF assms(1)] in simp)

theorem trusting_decoder_misreads_wire_format_witness:
  "and_then (block_with_attestation_encode sample_lib (sb_message (sample_signed_block 150)))
     (block_with_attestation_decode sample_lib) = Inl Panic"
  using trusting_decoder_misreads_wire_format
    [of sample_lib "sb_message (sample_signed_block 150)" 150]
    sample_bwa_valid [of 150]
  by (simp add: VALIDATOR_REGISTRY_LIMIT_def sample_signed_block_def)

text \<open>
  (structural validation). \<^verbatim>\<open>validate_basic\<close> accepts a signed block exactly when there is
  one aggregate proof per attestation, with the same participants in the same order, the
  proposer attestation is for the block's slot, and its only participant is the proposer.
\<close>

theorem validate_basic_accepts_iff:
  "validate_basic sb = Inr () \<longleftrightarrow>
     (let block = bwa_block (sb_message sb); pa = bwa_proposer_attestation (sb_message sb)
      in map ap_participants (bs_attestation_signatures (sb_signature sb)) =
           map att_bits (bb_attestations (b_body block)) \<and>
         ad_slot (att_data pa) = b_slot block \<and>
         bits_of (att_bits pa) = {unat (b_proposer_index block)})"
proof -
  have parts: "check_participants k (zip as ps) = Inr () \<longleftrightarrow> map ap_participants ps = map att_bits as"
    if "length ps = length as" for k as ps
    using that by (induction ps as arbitrary: k rule: list_induct2) auto
  show ?thesis
    using parts [of "bs_attestation_signatures (sb_signature sb)"
        "bb_attestations (b_body (bwa_block (sb_message sb)))" 0]
    by (auto simp: validate_basic_def Let_def and_then_eq_Inr simp flip: single_set_bit_iff
        split: option.splits dest: map_eq_imp_length_eq)
qed

end
