(* ===== verification/Justification.thy ===== *)
theory Justification
  imports Bits SampleLib
begin

text \<open>
  Justification bookkeeping of \<^verbatim>\<open>src/containers/state.rs\<close>: the sliding window of justified
  slots (a bit list relative to the finalized slot), the vote bit fields of
  \<^verbatim>\<open>JustificationVotes\<close> with their counters, the flat bitmap in which the votes of all
  target roots are stored in the state between blocks, and the search for a justifiable
  slot between source and target. The window refines a set of slots, a vote field refines a
  set of validators, and the flat bitmap refines a map from roots to vote fields.
\<close>

unbundle bit_operations_syntax

section \<open>The window of justified slots\<close>

definition is_slot_justified :: "bitlist \<Rightarrow> slot \<Rightarrow> slot \<Rightarrow> bool" where
  "is_slot_justified justified finalized slot =
     (if slot \<le> finalized then True
      else let idx = unat (slot - finalized - 1) in
        if idx \<ge> bl_len justified then False
        else let byte = idx div 8; k = idx mod 8 in
          if byte \<ge> length (bl_data justified) then False
          else byte_bit (bl_data justified ! byte) k)"

text \<open>\<^verbatim>\<open>Vec::resize(n, 0)\<close> on a vector that is shorter than \<open>n\<close>.\<close>

definition resize_zero :: "u8 list \<Rightarrow> nat \<Rightarrow> u8 list" where
  "resize_zero data n = (if length data < n then data @ replicate (n - length data) 0 else data)"

definition set_justified_slot :: "bitlist \<Rightarrow> slot \<Rightarrow> slot \<Rightarrow> bitlist result" where
  "set_justified_slot justified finalized slot =
     (let idx = unat (slot - finalized - 1) in
      if idx \<ge> HISTORICAL_ROOTS_LIMIT then Inl (Err ''justified slot exceeds limit'')
      else
        let new_len = idx + 1;
            len = (if new_len > bl_len justified then new_len else bl_len justified);
            byte_len = (len + 7) div 8;
            data = resize_zero (bl_data justified) byte_len;
            byte = idx div 8;
            k = idx mod 8
        in if byte < length data
           then Inr \<lparr>bl_data = data[byte := data ! byte OR push_bit k 1], bl_len = len\<rparr>
           else Inl Panic)"

fun shift_loop :: "u8 list \<Rightarrow> nat \<Rightarrow> nat \<Rightarrow> nat \<Rightarrow> u8 list \<Rightarrow> u8 list" where
  "shift_loop data delta i 0 new_data = new_data"
| "shift_loop data delta i (Suc n) new_data =
     (let src = i + delta; src_byte = src div 8; src_bit = src mod 8 in
      shift_loop data delta (Suc i) n
        (if src_byte < length data \<and> byte_bit (data ! src_byte) src_bit
         then set_bit_at new_data i else new_data))"

definition shift_justified_window :: "bitlist \<Rightarrow> nat \<Rightarrow> bitlist" where
  "shift_justified_window justified delta =
     (if delta \<ge> bl_len justified then \<lparr>bl_data = [], bl_len = 0\<rparr>
      else
        let new_len = bl_len justified - delta;
            new_data = replicate ((new_len + 7) div 8) 0
        in \<lparr>bl_data = shift_loop (bl_data justified) delta 0 new_len new_data, bl_len = new_len\<rparr>)"

text \<open>The part of \<^verbatim>\<open>process_block_header_assuming_slot\<close> that extends the window up to the
  slot before the block.\<close>

definition extend_justified_window :: "bitlist \<Rightarrow> slot \<Rightarrow> slot \<Rightarrow> bitlist" where
  "extend_justified_window justified finalized block_slot =
     (let last_materialized = saturating_sub block_slot 1 in
      if last_materialized > finalized
      then
        let required_len = unat (last_materialized - finalized) in
        if required_len > bl_len justified
        then \<lparr>bl_data = resize_zero (bl_data justified) ((required_len + 7) div 8),
              bl_len = required_len\<rparr>
        else justified
      else justified)"

section \<open>Votes\<close>

record justification_votes =
  jv_bits :: "u8 list"
  jv_count :: nat

definition justification_votes_new :: "nat \<Rightarrow> justification_votes" where
  "justification_votes_new validator_count =
     \<lparr>jv_bits = replicate ((validator_count + 7) div 8) 0, jv_count = 0\<rparr>"

definition count_ones :: "u8 \<Rightarrow> nat" where
  "count_ones b = length (filter (bit b) [0..<8])"

definition get_or_zero :: "u8 list \<Rightarrow> nat \<Rightarrow> u8" where
  "get_or_zero data i = (if i < length data then data ! i else 0)"

text \<open>One byte of the merge: only bits that are not yet set are added and counted.\<close>

definition merge_byte :: "justification_votes \<Rightarrow> nat \<Rightarrow> u8 \<Rightarrow> justification_votes result" where
  "merge_byte votes byte_idx byte =
     (if byte_idx < length (jv_bits votes)
      then
        let new_bits = byte AND NOT (jv_bits votes ! byte_idx)
        in Inr \<lparr>jv_bits = (jv_bits votes)[byte_idx := jv_bits votes ! byte_idx OR new_bits],
                jv_count = jv_count votes + count_ones new_bits\<rparr>
      else Inl Panic)"

fun merge_full_bytes ::
    "justification_votes \<Rightarrow> u8 list \<Rightarrow> nat \<Rightarrow> nat \<Rightarrow> justification_votes result" where
  "merge_full_bytes votes data i 0 = Inr votes"
| "merge_full_bytes votes data i (Suc n) =
     and_then (merge_byte votes i (get_or_zero data i))
       (\<lambda>votes'. merge_full_bytes votes' data (Suc i) n)"

definition merge_participant_votes_from_bits ::
    "justification_votes \<Rightarrow> bitlist \<Rightarrow> nat \<Rightarrow> justification_votes result" where
  "merge_participant_votes_from_bits votes participants validator_count =
     (let max_bits = min (bl_len participants) validator_count;
          full_bytes = max_bits div 8
      in and_then (merge_full_bytes votes (bl_data participants) 0 full_bytes) (\<lambda>votes.
        let remainder = max_bits mod 8 in
        if remainder = 0 then Inr votes
        else
          let m = push_bit remainder 1 - 1
          in merge_byte votes full_bytes (get_or_zero (bl_data participants) full_bytes AND m)))"

section \<open>Votes stored in the state\<close>

fun decode_votes_loop ::
    "bitlist \<Rightarrow> nat \<Rightarrow> nat \<Rightarrow> nat \<Rightarrow> justification_votes \<Rightarrow> justification_votes" where
  "decode_votes_loop flat base validator_id 0 votes = votes"
| "decode_votes_loop flat base validator_id (Suc n) votes =
     (let flat_idx = base + validator_id in
      decode_votes_loop flat base (Suc validator_id) n
        (if bit_is_set (bl_data flat) (bl_len flat) flat_idx
         then \<lparr>jv_bits = set_bit_at (jv_bits votes) validator_id, jv_count = jv_count votes + 1\<rparr>
         else votes))"

definition decode_root_votes :: "bitlist \<Rightarrow> nat \<Rightarrow> nat \<Rightarrow> justification_votes" where
  "decode_root_votes flat validator_count root_idx =
     (let byte_count = (validator_count + 7) div 8;
          votes = justification_votes_new validator_count
      in if validator_count mod 8 = 0
         then
           let base_byte = root_idx * byte_count; end_byte = base_byte + byte_count in
           if end_byte \<le> length (bl_data flat)
           then
             let bits = take byte_count (drop base_byte (bl_data flat))
             in \<lparr>jv_bits = bits, jv_count = sum_list (map count_ones bits)\<rparr>
           else votes
         else decode_votes_loop flat (root_idx * validator_count) 0 validator_count votes)"

fun decode_justification_loop ::
    "bitlist \<Rightarrow> nat \<Rightarrow> nat \<Rightarrow> bytes32 list \<Rightarrow> (bytes32, justification_votes) hmap \<Rightarrow>
     (bytes32, justification_votes) hmap" where
  "decode_justification_loop flat validator_count root_idx [] out = out"
| "decode_justification_loop flat validator_count root_idx (root # roots) out =
     decode_justification_loop flat validator_count (Suc root_idx) roots
       (hm_insert root (decode_root_votes flat validator_count root_idx) out)"

definition decode_justification_votes ::
    "state \<Rightarrow> nat \<Rightarrow> (bytes32, justification_votes) hmap" where
  "decode_justification_votes state validator_count =
     (if validator_count = 0 \<or> st_justifications_roots state = [] then []
      else decode_justification_loop (st_justifications_validators state) validator_count 0
             (st_justifications_roots state) [])"

fun encode_votes_loop :: "u8 list \<Rightarrow> nat \<Rightarrow> nat \<Rightarrow> nat \<Rightarrow> nat \<Rightarrow> u8 list \<Rightarrow> u8 list" where
  "encode_votes_loop bits validator_count base validator_id 0 flat_data = flat_data"
| "encode_votes_loop bits validator_count base validator_id (Suc n) flat_data =
     encode_votes_loop bits validator_count base (Suc validator_id) n
       (if bit_is_set bits validator_count validator_id
        then set_bit_at flat_data (base + validator_id) else flat_data)"

text \<open>\<^verbatim>\<open>flat_data[dst..dst + n].copy_from_slice(&bits[..n])\<close>: both ranges must exist.\<close>

definition encode_root_votes :: "nat \<Rightarrow> nat \<Rightarrow> justification_votes \<Rightarrow> u8 list \<Rightarrow> u8 list result" where
  "encode_root_votes validator_count root_idx root_votes flat_data =
     (let byte_count = (validator_count + 7) div 8 in
      if validator_count mod 8 = 0
      then
        let dst_start = root_idx * byte_count in
        if dst_start + byte_count \<le> length flat_data \<and> byte_count \<le> length (jv_bits root_votes)
        then Inr (take dst_start flat_data @ take byte_count (jv_bits root_votes) @
                  drop (dst_start + byte_count) flat_data)
        else Inl Panic
      else Inr (encode_votes_loop (jv_bits root_votes) validator_count
                  (root_idx * validator_count) 0 validator_count flat_data))"

fun encode_justification_loop ::
    "(bytes32, justification_votes) hmap \<Rightarrow> nat \<Rightarrow> nat \<Rightarrow> bytes32 list \<Rightarrow> u8 list \<Rightarrow>
     u8 list result" where
  "encode_justification_loop votes validator_count root_idx [] flat_data = Inr flat_data"
| "encode_justification_loop votes validator_count root_idx (root # roots) flat_data =
     and_then
       (case hm_get votes root of
          Some root_votes \<Rightarrow> encode_root_votes validator_count root_idx root_votes flat_data
        | None \<Rightarrow> Inr flat_data)
       (\<lambda>flat_data'. encode_justification_loop votes validator_count (Suc root_idx) roots flat_data')"

text \<open>The product \<^verbatim>\<open>roots.len() * validator_count\<close> is checked against the range of
  \<^verbatim>\<open>usize\<close>; sorting by \<^verbatim>\<open>as_array()\<close> is sorting the roots as words.\<close>

definition encode_justification_votes ::
    "ssz_lib \<Rightarrow> state \<Rightarrow> (bytes32, justification_votes) hmap \<Rightarrow> nat \<Rightarrow> state result" where
  "encode_justification_votes L state votes validator_count =
     (let roots = sort (map fst votes);
          flat_len = length roots * validator_count
      in if flat_len \<ge> 2 ^ 64 then Inl (Err ''justification vote bitmap overflow'')
         else if flat_len > JUSTIFICATION_VALIDATORS_LIMIT
         then Inl (Err ''justification vote bitmap exceeds limit'')
         else
           and_then (encode_justification_loop votes validator_count 0 roots
                       (replicate ((flat_len + 7) div 8) 0)) (\<lambda>flat_data.
           case roots_new (lib_list L) HISTORICAL_ROOTS_LIMIT roots of
             Inl _ \<Rightarrow> Inl Panic
           | Inr roots' \<Rightarrow>
               Inr (state\<lparr>st_justifications_roots := roots',
                          st_justifications_validators :=
                            \<lparr>bl_data = flat_data, bl_len = flat_len\<rparr>\<rparr>)))"

section \<open>Slots\<close>

fun build_historical_loop :: "nat \<Rightarrow> bytes32 list \<Rightarrow> (bytes32, slot) hmap \<Rightarrow> (bytes32, slot) hmap" where
  "build_historical_loop slot_idx [] out = out"
| "build_historical_loop slot_idx (root # roots) out =
     build_historical_loop (Suc slot_idx) roots
       (if root \<noteq> zero_root then hm_insert root (of_nat slot_idx) out else out)"

definition build_historical_root_slots :: "bytes32 list \<Rightarrow> (bytes32, slot) hmap" where
  "build_historical_root_slots historical_roots = build_historical_loop 0 historical_roots []"

text \<open>The loop over \<^verbatim>\<open>(source + 1)..target\<close>; \<^verbatim>\<open>unwrap_or(false)\<close> on the error of
  \<^verbatim>\<open>is_justifiable_after\<close>.\<close>

definition justifiable_or_false :: "slot \<Rightarrow> slot \<Rightarrow> bool" where
  "justifiable_or_false slot finalized =
     (case is_justifiable_after slot finalized of Inl _ \<Rightarrow> False | Inr b \<Rightarrow> b)"

function next_valid_loop :: "slot \<Rightarrow> slot \<Rightarrow> slot \<Rightarrow> bool" where
  "next_valid_loop raw_slot target finalized =
     (if raw_slot < target
      then if justifiable_or_false raw_slot finalized then False
           else next_valid_loop (raw_slot + 1) target finalized
      else True)"
  by auto
termination
proof (relation "measure (\<lambda>(r, t, f). unat t - unat r)")
  show "wf (measure (\<lambda>(r, t, f). unat (t :: slot) - unat (r :: slot)))" by simp
  fix r t f :: slot assume lt: "r < t" and "\<not> justifiable_or_false r f"
  have "unat r < unat t" using lt by (simp add: word_less_nat_alt)
  moreover have "unat (r + 1) = unat r + 1"
    using calculation unat_bound [of t] by (subst unat_add_no_wrap) simp_all
  ultimately show "((r + 1, t, f), (r, t, f)) \<in> measure (\<lambda>(r, t, f). unat t - unat r)" by simp
qed

declare next_valid_loop.simps [simp del]

definition is_next_valid_justifiable_slot :: "slot \<Rightarrow> slot \<Rightarrow> slot \<Rightarrow> bool" where
  "is_next_valid_justifiable_slot source target finalized =
     (if target \<le> source then False else next_valid_loop (source + 1) target finalized)"

section \<open>The window refines a set of slots\<close>

definition window_inv :: "bitlist \<Rightarrow> bool" where
  "window_inv w \<longleftrightarrow> (\<forall>i. data_bit (bl_data w) i \<longrightarrow> i < bl_len w)"

definition window_slots :: "bitlist \<Rightarrow> slot \<Rightarrow> nat set" where
  "window_slots w f = {..unat f} \<union> (\<lambda>i. unat f + 1 + i) ` bits_of w"

lemma bits_of_inv: "window_inv w \<Longrightarrow> bits_of w = {i. data_bit (bl_data w) i}"
  by (auto simp: window_inv_def bits_of_def)

lemma unat_gap: "f < s \<Longrightarrow> unat (s - f - 1 :: slot) = unat s - unat f - 1"
proof -
  assume lt: "f < s"
  then have d: "unat (s - f) = unat s - unat f" by (simp add: unat_diff_le)
  then have "1 \<le> s - f" using lt by (simp add: word_le_nat_alt word_less_nat_alt)
  then show ?thesis by (simp add: unat_diff_le d)
qed

lemma window_slots_iff:
  "x \<in> window_slots w f \<longleftrightarrow> x \<le> unat f \<or> (unat f < x \<and> x - unat f - 1 \<in> bits_of w)"
  by (force simp: window_slots_def image_iff)

lemma is_slot_justified_iff: "is_slot_justified w f s \<longleftrightarrow> unat s \<in> window_slots w f"
proof (cases "s \<le> f")
  case True
  then show ?thesis by (simp add: is_slot_justified_def window_slots_def word_le_nat_alt)
next
  case False
  then have lt: "f < s" by simp
  then have "unat f < unat s" by (simp add: word_less_nat_alt)
  then have "unat s \<in> window_slots w f \<longleftrightarrow> unat s - unat f - 1 \<in> bits_of w"
    by (simp add: window_slots_iff)
  then show ?thesis using False lt
    by (auto simp: is_slot_justified_def unat_gap Let_def bits_of_def byte_bit_iff data_bit_def
        not_le div8_less_iff simp flip: not_less)
qed

lemma length_resize_zero [simp]: "length (resize_zero data n) = max (length data) n"
  by (simp add: resize_zero_def)

lemma data_bit_append_zeros [simp]: "data_bit (data @ replicate n 0) i = data_bit data i"
  by (auto simp: data_bit_def nth_append div8_less_iff)

lemma data_bit_resize_zero [simp]: "data_bit (resize_zero data n) i = data_bit data i"
  by (simp add: resize_zero_def)

lemma set_bit_at_in_range:
  "i div 8 < length data \<Longrightarrow> data[i div 8 := data ! (i div 8) OR push_bit (i mod 8) 1] = set_bit_at data i"
  by (simp add: set_bit_at_def Let_def)

text \<open>\<^verbatim>\<open>set_justified_slot\<close> never indexes out of range, whatever the window holds.\<close>

lemma set_justified_slot_eq:
  "set_justified_slot w f s =
     (let idx = unat (s - f - 1); len = max (bl_len w) (idx + 1) in
      if HISTORICAL_ROOTS_LIMIT \<le> idx then Inl (Err ''justified slot exceeds limit'')
      else Inr \<lparr>bl_data = set_bit_at (resize_zero (bl_data w) ((len + 7) div 8)) idx, bl_len = len\<rparr>)"
proof -
  define idx where "idx = unat (s - f - 1)"
  define len where "len = max (bl_len w) (idx + 1)"
  let ?data = "resize_zero (bl_data w) ((len + 7) div 8)"
  have len: "(if idx + 1 > bl_len w then idx + 1 else bl_len w) = len" by (auto simp: len_def)
  have "idx div 8 < (len + 7) div 8" unfolding len_def by linarith
  then have lt: "idx div 8 < length ?data" by simp
  show ?thesis
    unfolding set_justified_slot_def idx_def [symmetric] Let_def len len_def [symmetric]
    using lt by (simp only: set_bit_at_in_range if_True)
qed

lemma set_justified_slot_slots:
  assumes inv: "window_inv w" and lt: "f < s" and ok: "set_justified_slot w f s = Inr w'"
  shows "window_inv w' \<and> window_slots w' f = insert (unat s) (window_slots w f)"
proof -
  let ?idx = "unat s - unat f - 1"
  have lt': "unat f < unat s" using lt by (simp add: word_less_nat_alt)
  have room: "?idx < 8 * ((max (bl_len w) (?idx + 1) + 7) div 8)" by linarith
  have w': "bl_len w' = max (bl_len w) (?idx + 1)"
    "data_bit (bl_data w') i \<longleftrightarrow> data_bit (bl_data w) i \<or> i = ?idx" for i
    using ok lt room by (auto simp: set_justified_slot_eq unat_gap Let_def data_bit_set_bit_at
        split: if_splits)
  then have inv': "window_inv w'" using inv by (auto simp: window_inv_def less_max_iff_disj)
  have "bits_of w' = insert ?idx (bits_of w)"
    by (auto simp: bits_of_inv [OF inv] bits_of_inv [OF inv'] w')
  then have "window_slots w' f = insert (unat f + 1 + ?idx) (window_slots w f)"
    by (simp add: window_slots_def)
  then show ?thesis using inv' lt' by simp
qed

lemma length_shift_loop [simp]: "length (shift_loop data d i n new) = length new"
  by (induction data d i n new rule: shift_loop.induct) (simp_all add: Let_def)

lemma data_bit_shift_loop:
  "i + n \<le> 8 * length new \<Longrightarrow>
   data_bit (shift_loop data d i n new) j \<longleftrightarrow>
     data_bit new j \<or> (i \<le> j \<and> j < i + n \<and> data_bit data (j + d))"
proof (induction data d i n new rule: shift_loop.induct)
  case (2 data d i n new)
  have c: "(i + d) div 8 < length data \<and> byte_bit (data ! ((i + d) div 8)) ((i + d) mod 8)
      \<longleftrightarrow> data_bit data (i + d)"
    by (auto simp: data_bit_def div8_less_iff byte_bit_iff)
  show ?case using 2 by (cases "j = i") (auto simp: Let_def c data_bit_set_bit_at)
qed auto

lemma shift_justified_window_bits:
  "bits_of (shift_justified_window w d) = {i. i + d \<in> bits_of w} \<and>
   window_inv (shift_justified_window w d)"
proof (cases "bl_len w \<le> d")
  case True
  then show ?thesis
    by (auto simp: shift_justified_window_def bits_of_def window_inv_def data_bit_def)
next
  case False
  have "bl_len w - d \<le> 8 * ((bl_len w - d + 7) div 8)" by linarith
  with False show ?thesis
    by (auto simp: shift_justified_window_def Let_def bits_of_def window_inv_def data_bit_shift_loop)
qed

lemma window_slots_shift:
  assumes "f \<le> f'"
  shows "window_slots (shift_justified_window w (unat (f' - f))) f' = {..unat f'} \<union> window_slots w f"
proof -
  have le: "unat f \<le> unat f'" using assms by (simp add: word_le_nat_alt)
  have d: "unat (f' - f) = unat f' - unat f" using assms by (rule unat_diff_le)
  have e: "x - unat f' - 1 + (unat f' - unat f) = x - unat f - 1" if "unat f' < x" for x
    using le that by simp
  show ?thesis
  proof (rule set_eqI)
    fix x
    show "x \<in> window_slots (shift_justified_window w (unat (f' - f))) f' \<longleftrightarrow>
        x \<in> {..unat f'} \<union> window_slots w f"
      using le e [of x]
      by (cases "x \<le> unat f'") (simp_all add: window_slots_iff d shift_justified_window_bits)
  qed
qed

lemma extend_justified_window_bits:
  assumes "window_inv w"
  shows "bits_of (extend_justified_window w f s) = bits_of w \<and>
    window_inv (extend_justified_window w f s)"
  using assms
  by (auto simp: extend_justified_window_def Let_def bits_of_def window_inv_def dest: less_trans)

lemma extend_justified_window_room:
  "f < x \<Longrightarrow> x < b \<Longrightarrow> unat (x - f - 1) < bl_len (extend_justified_window w f b)"
  by (auto simp: extend_justified_window_def saturating_sub_def Let_def word_less_nat_alt word_le_nat_alt unat_sub_if')

subsection \<open>The window as an interface\<close>

text \<open>What \<^verbatim>\<open>process_attestations\<close> relies on: a window \<open>w\<close> relative to a finalized slot stands
  for the set of justified slots, in which every slot up to the finalized one counts.\<close>

locale slot_window =
  fixes inv :: "'w \<Rightarrow> bool" and slots :: "'w \<Rightarrow> slot \<Rightarrow> nat set"
    and is_set :: "'w \<Rightarrow> slot \<Rightarrow> slot \<Rightarrow> bool" and add :: "'w \<Rightarrow> slot \<Rightarrow> slot \<Rightarrow> 'w result"
    and advance :: "'w \<Rightarrow> nat \<Rightarrow> 'w"
  assumes is_set_iff: "inv w \<Longrightarrow> is_set w f s \<longleftrightarrow> unat s \<in> slots w f"
    and slots_below: "inv w \<Longrightarrow> {..unat f} \<subseteq> slots w f"
    and add_slots: "inv w \<Longrightarrow> f < s \<Longrightarrow> add w f s = Inr w' \<Longrightarrow>
      inv w' \<and> slots w' f = insert (unat s) (slots w f)"
    and advance_slots: "inv w \<Longrightarrow> f \<le> f' \<Longrightarrow>
      inv (advance w (unat (f' - f))) \<and>
      slots (advance w (unat (f' - f))) f' = {..unat f'} \<union> slots w f"
begin

lemma unset_above: "inv w \<Longrightarrow> \<not> is_set w f s \<Longrightarrow> f < s"
  using slots_below [of w f] by (force simp: is_set_iff word_less_nat_alt not_less)

text \<open>Justifying the target and then moving the finalized slot up to the source keeps every
  justified slot and adds the target.\<close>

lemma justify_and_finalize:
  assumes "inv w" "f < target" "add w f target = Inr w'" "f \<le> source"
  shows "inv (advance w' (unat (source - f))) \<and>
    slots (advance w' (unat (source - f))) source =
      {..unat source} \<union> insert (unat target) (slots w f)"
  using add_slots [OF assms(1-3)] advance_slots [of w' f source] assms(4) by simp

end

interpretation justified_window:
  slot_window window_inv window_slots is_slot_justified set_justified_slot shift_justified_window
proof
  show "\<And>w f s. window_inv w \<Longrightarrow> is_slot_justified w f s \<longleftrightarrow> unat s \<in> window_slots w f"
    by (rule is_slot_justified_iff)
  show "\<And>w f. window_inv w \<Longrightarrow> {..unat f} \<subseteq> window_slots w f"
    by (auto simp: window_slots_iff)
  show "\<And>w f s w'. window_inv w \<Longrightarrow> f < s \<Longrightarrow> set_justified_slot w f s = Inr w' \<Longrightarrow>
      window_inv w' \<and> window_slots w' f = insert (unat s) (window_slots w f)"
    by (rule set_justified_slot_slots)
  show "\<And>w f f'. window_inv w \<Longrightarrow> f \<le> f' \<Longrightarrow>
      window_inv (shift_justified_window w (unat (f' - f))) \<and>
      window_slots (shift_justified_window w (unat (f' - f))) f' = {..unat f'} \<union> window_slots w f"
    by (simp add: shift_justified_window_bits window_slots_shift)
qed

section \<open>A vote field refines a set of validators\<close>

definition jv_set :: "justification_votes \<Rightarrow> nat set" where
  "jv_set v = {i. data_bit (jv_bits v) i}"

definition votes_inv :: "nat \<Rightarrow> justification_votes \<Rightarrow> bool" where
  "votes_inv n v \<longleftrightarrow> length (jv_bits v) = (n + 7) div 8 \<and> jv_count v = card (jv_set v) \<and>
     jv_set v \<subseteq> {..<n}"

lemma finite_jv_set [simp]: "finite (jv_set v)"
  by (rule finite_subset [of _ "{..<8 * length (jv_bits v)}"]) (auto simp: jv_set_def data_bit_def)

lemma votes_new [simp]:
  "votes_inv n (justification_votes_new n)" "jv_set (justification_votes_new n) = {}"
  by (simp_all add: votes_inv_def justification_votes_new_def jv_set_def)

definition byte_set :: "nat \<Rightarrow> u8 \<Rightarrow> nat set" where
  "byte_set i b = {j. j div 8 = i \<and> bit b (j mod 8)}"

lemma count_ones_card: "count_ones b = card {k. k < 8 \<and> bit b k}"
proof -
  have "count_ones b = card (set (filter (bit b) [0..<8]))"
    unfolding count_ones_def by (rule distinct_card [symmetric]) simp
  also have "set (filter (bit b) [0..<8]) = {k. k < 8 \<and> bit b k}" by auto
  finally show ?thesis .
qed

lemma byte_set_image: "byte_set i b = (\<lambda>k. 8 * i + k) ` {k. k < 8 \<and> bit b k}"
proof (intro equalityI subsetI)
  fix j assume "j \<in> byte_set i b"
  then have j: "j div 8 = i" "bit b (j mod 8)" by (auto simp: byte_set_def)
  have "j = 8 * i + j mod 8" unfolding j(1) [symmetric] by simp
  then show "j \<in> (\<lambda>k. 8 * i + k) ` {k. k < 8 \<and> bit b k}"
    using j(2) by (intro image_eqI [where x = "j mod 8"]) simp_all
qed (auto simp: byte_set_def)

lemma card_byte_set: "card (byte_set i b) = count_ones b"
  unfolding byte_set_image count_ones_card by (rule card_image) (simp add: inj_on_def)

lemma finite_byte_set [simp]: "finite (byte_set i b)"
  by (simp add: byte_set_image)

lemma merge_byte_set:
  assumes i: "i < length (jv_bits v)" and cnt: "jv_count v = card (jv_set v)"
  obtains v' where "merge_byte v i b = Inr v'" "jv_set v' = jv_set v \<union> byte_set i b"
    "jv_count v' = card (jv_set v')" "length (jv_bits v') = length (jv_bits v)"
proof -
  define nb where "nb = b AND NOT (jv_bits v ! i)"
  define v' where "v' = \<lparr>jv_bits = (jv_bits v)[i := jv_bits v ! i OR nb],
    jv_count = jv_count v + count_ones nb\<rparr>"
  have "merge_byte v i b = Inr v'" using i by (simp add: merge_byte_def nb_def v'_def Let_def)
  have in_set: "j \<in> jv_set v \<longleftrightarrow> bit (jv_bits v ! i) (j mod 8)" if "j div 8 = i" for j
    using i that by (auto simp: jv_set_def data_bit_def simp flip: div8_less_iff)
  have diff: "byte_set i nb = byte_set i b - jv_set v"
    by (auto simp: byte_set_def nb_def bit_and_iff bit_not_iff in_set)
  have set': "jv_set v' = jv_set v \<union> byte_set i nb"
    using i by (auto simp: jv_set_def v'_def data_bit_def byte_set_def nth_list_update bit_or_iff
        simp flip: div8_less_iff split: if_splits)
  have "card (jv_set v') = card (jv_set v) + card (byte_set i nb)"
    unfolding set' by (rule card_Un_disjoint) (auto simp: diff)
  moreover have "jv_set v' = jv_set v \<union> byte_set i b" using set' diff by simp
  moreover have "jv_count v' = jv_count v + card (byte_set i nb)"
    "length (jv_bits v') = length (jv_bits v)" by (simp_all add: v'_def card_byte_set)
  ultimately show thesis
    using \<open>merge_byte v i b = Inr v'\<close> cnt that [of v'] by simp
qed

lemma byte_set_get: "byte_set i (get_or_zero data i) = {j. j div 8 = i \<and> data_bit data j}"
  by (auto simp: byte_set_def get_or_zero_def data_bit_def simp flip: div8_less_iff)

lemma merge_full_bytes_set:
  assumes "i + n \<le> length (jv_bits v)" "jv_count v = card (jv_set v)"
  obtains v' where "merge_full_bytes v data i n = Inr v'"
    "jv_set v' = jv_set v \<union> {j. i \<le> j div 8 \<and> j div 8 < i + n \<and> data_bit data j}"
    "jv_count v' = card (jv_set v')" "length (jv_bits v') = length (jv_bits v)"
  using assms
proof (induction n arbitrary: i v thesis)
  case 0
  show ?case by (rule 0(1) [of v]) (auto simp: 0(3))
next
  case (Suc n)
  from Suc.prems have "i < length (jv_bits v)" by simp
  then obtain v1 where v1: "merge_byte v i (get_or_zero data i) = Inr v1"
    "jv_set v1 = jv_set v \<union> {j. j div 8 = i \<and> data_bit data j}"
    "jv_count v1 = card (jv_set v1)" "length (jv_bits v1) = length (jv_bits v)"
    using Suc.prems(3)
    by (rule merge_byte_set [where b = "get_or_zero data i"]) (simp add: byte_set_get)
  obtain v' where v': "merge_full_bytes v1 data (Suc i) n = Inr v'"
    "jv_set v' = jv_set v1 \<union> {j. Suc i \<le> j div 8 \<and> j div 8 < Suc i + n \<and> data_bit data j}"
    "jv_count v' = card (jv_set v')" "length (jv_bits v') = length (jv_bits v1)"
    using Suc.IH [where i = "Suc i" and v = v1] Suc.prems(2) v1(3,4) by auto
  have "{j. i \<le> j div 8 \<and> j div 8 < i + Suc n \<and> data_bit data j} =
      {j. j div 8 = i \<and> data_bit data j} \<union>
      {j. Suc i \<le> j div 8 \<and> j div 8 < Suc i + n \<and> data_bit data j}" by auto
  with v1 v' show ?case by (intro Suc.prems(1) [of v']) auto
qed

lemma bit_low_mask: "bit (2 ^ r - 1 :: u8) k \<longleftrightarrow> k < r \<and> k < 8"
  using bit_mask_iff [of r k, where 'a = u8] by (auto simp: mask_eq_exp_minus_1 possible_bit_word)

lemma less_iff_div_mod8:
  "j < m \<longleftrightarrow> j div 8 < m div 8 \<or> (j div 8 = m div 8 \<and> j mod 8 < m mod 8)" for j m :: nat
proof -
  have "j = 8 * (j div 8) + j mod 8" "m = 8 * (m div 8) + m mod 8" by simp_all
  moreover have "j mod 8 < 8" "m mod 8 < 8" by simp_all
  ultimately show ?thesis by linarith
qed

lemma merge_participant_votes_set:
  assumes "votes_inv n v"
  obtains v' where "merge_participant_votes_from_bits v p n = Inr v'" "votes_inv n v'"
    "jv_set v' = jv_set v \<union> (bits_of p \<inter> {..<n})"
proof -
  define m where "m = min (bl_len p) n"
  have fb: "0 + m div 8 \<le> length (jv_bits v)" using assms by (auto simp: votes_inv_def m_def)
  have cnt: "jv_count v = card (jv_set v)" using assms by (simp add: votes_inv_def)
  obtain v1 where v1: "merge_full_bytes v (bl_data p) 0 (m div 8) = Inr v1"
    "jv_set v1 = jv_set v \<union> {j. j div 8 < m div 8 \<and> data_bit (bl_data p) j}"
    "jv_count v1 = card (jv_set v1)" "length (jv_bits v1) = length (jv_bits v)"
    using fb cnt by (rule merge_full_bytes_set [where data = "bl_data p"]) auto
  have goal: "bits_of p \<inter> {..<n} = {j. j < m \<and> data_bit (bl_data p) j}"
    by (auto simp: bits_of_def m_def)
  have le: "m \<le> n" by (simp add: m_def)
  show thesis
  proof (cases "m mod 8 = 0")
    case True
    then have "8 * (m div 8) = m" using mult_div_mod_eq [of 8 m] by simp
    then have "j div 8 < m div 8 \<longleftrightarrow> j < m" for j using div8_less_iff [of j "m div 8"] by simp
    then have "jv_set v1 = jv_set v \<union> (bits_of p \<inter> {..<n})" by (simp add: goal v1(2))
    moreover then have "votes_inv n v1" using v1 assms by (auto simp: votes_inv_def)
    moreover have "merge_participant_votes_from_bits v p n = Inr v1"
      using v1(1) True by (simp add: merge_participant_votes_from_bits_def Let_def m_def [symmetric])
    ultimately show thesis using that by blast
  next
    case False
    let ?b = "get_or_zero (bl_data p) (m div 8) AND (push_bit (m mod 8) 1 - 1)"
    have "m = 8 * (m div 8) + m mod 8" "0 < m mod 8" using False by simp_all
    then have "8 * (m div 8) + 1 \<le> m" by linarith
    then have "Suc (m div 8) * 8 \<le> n + 7" using le by simp
    then have "Suc (m div 8) \<le> (n + 7) div 8" by (simp only: less_eq_div_iff_mult_less_eq)
    then have "m div 8 < (n + 7) div 8" by simp
    then have "m div 8 < length (jv_bits v1)" using v1(4) assms by (simp add: votes_inv_def)
    then obtain v2 where v2: "merge_byte v1 (m div 8) ?b = Inr v2"
      "jv_set v2 = jv_set v1 \<union> byte_set (m div 8) ?b" "jv_count v2 = card (jv_set v2)"
      "length (jv_bits v2) = length (jv_bits v1)"
      using v1(3) by (rule merge_byte_set)
    have last: "byte_set (m div 8) ?b = {j. j div 8 = m div 8 \<and> j mod 8 < m mod 8 \<and> data_bit (bl_data p) j}"
      using byte_set_get [of "m div 8" "bl_data p"]
      by (auto simp: byte_set_def bit_and_iff bit_low_mask)
    have split: "j < m \<longleftrightarrow> j div 8 < m div 8 \<or> (j div 8 = m div 8 \<and> j mod 8 < m mod 8)" for j
      by (rule less_iff_div_mod8)
    have "jv_set v2 = jv_set v \<union> (bits_of p \<inter> {..<n})"
      unfolding goal v2(2) v1(2) last split by auto
    moreover then have "votes_inv n v2" using v1 v2 assms by (auto simp: votes_inv_def)
    moreover have "merge_participant_votes_from_bits v p n = Inr v2"
      using v1(1) v2(1) False
      by (simp add: merge_participant_votes_from_bits_def Let_def m_def [symmetric])
    ultimately show thesis using that by blast
  qed
qed

end
