(* ===== verification/VoteBitmap.thy ===== *)
theory VoteBitmap
  imports Justification
begin

text \<open>
  The flat bitmap of \<^verbatim>\<open>State::justifications_validators\<close>: writing the vote fields of all
  target roots with \<^verbatim>\<open>encode_justification_votes\<close> and reading them with
  \<^verbatim>\<open>decode_justification_votes\<close> are inverse to each other, for both the byte-aligned and the
  bit-by-bit layout.
\<close>

section \<open>The flat bitmap refines a map from roots to vote fields\<close>

subsection \<open>Bits of concatenated bytes\<close>

lemma data_bit_append:
  "data_bit (xs @ ys) j \<longleftrightarrow>
     (if j < 8 * length xs then data_bit xs j else data_bit ys (j - 8 * length xs))"
proof (cases "j < 8 * length xs")
  case True
  then show ?thesis by (auto simp: data_bit_def nth_append div8_less_iff)
next
  case False
  then obtain k where k: "j = 8 * length xs + k" using le_Suc_ex [of "8 * length xs" j] by auto
  then show ?thesis by (auto simp: data_bit_def nth_append)
qed

lemma data_bit_take: "data_bit (take n xs) j \<longleftrightarrow> j < 8 * n \<and> data_bit xs j"
  by (auto simp: data_bit_def div8_less_iff)

lemma data_bit_drop: "data_bit (drop n xs) j \<longleftrightarrow> data_bit xs (8 * n + j)"
  by (cases "n \<le> length xs") (auto simp: data_bit_def)

lemma data_bit_Nil [simp]: "\<not> data_bit [] j"
  by (simp add: data_bit_def)

lemma sum_count_ones: "sum_list (map count_ones bs) = card {i. data_bit bs i}"
proof (induction bs rule: rev_induct)
  case (snoc b bs)
  have fin: "finite {i. data_bit bs i}" by (rule finite_subset [of _ "{..<8 * length bs}"]) (auto simp: data_bit_def)
  have "{i. data_bit (bs @ [b]) i} = {i. data_bit bs i} \<union> byte_set (length bs) b"
  proof (rule set_eqI)
    fix i
    have "i < 8 * length bs \<or> data_bit [b] (i - 8 * length bs) \<longleftrightarrow> i < 8 * length bs \<or> i \<in> byte_set (length bs) b"
    proof (cases "i < 8 * length bs")
      case False
      then obtain k where "i = 8 * length bs + k" using le_Suc_ex [of "8 * length bs" i] by auto
      then show ?thesis by (auto simp: data_bit_def byte_set_def)
    qed simp
    moreover have "i < 8 * length bs \<Longrightarrow> i \<notin> byte_set (length bs) b"
      by (auto simp: byte_set_def simp flip: div8_less_iff)
    moreover have "data_bit bs i \<Longrightarrow> i < 8 * length bs" by (simp add: data_bit_def)
    ultimately show "i \<in> {i. data_bit (bs @ [b]) i} \<longleftrightarrow> i \<in> {i. data_bit bs i} \<union> byte_set (length bs) b"
      by (auto simp: data_bit_append)
  qed
  moreover have "{i. data_bit bs i} \<inter> byte_set (length bs) b = {}"
    by (auto simp: data_bit_def byte_set_def simp flip: div8_less_iff)
  ultimately show ?case using snoc fin by (simp add: card_Un_disjoint card_byte_set)
qed simp

lemma bytes_eqI:
  assumes "length xs = length ys" "\<And>j. data_bit xs j \<longleftrightarrow> data_bit ys j"
  shows "xs = ys"
proof (rule nth_equalityI)
  fix i assume i: "i < length xs"
  show "xs ! i = ys ! i"
  proof (rule bit_word_eqI)
    fix k assume "k < LENGTH(8)"
    then show "bit (xs ! i) k \<longleftrightarrow> bit (ys ! i) k"
      using assms(2) [of "8 * i + k"] assms(1) i by (simp add: data_bit_def)
  qed
qed (rule assms(1))

lemma votes_eqI: "votes_inv n v \<Longrightarrow> votes_inv n w \<Longrightarrow> jv_set v = jv_set w \<Longrightarrow> v = w"
proof -
  assume v: "votes_inv n v" "votes_inv n w" and eq: "jv_set v = jv_set w"
  have "jv_bits v = jv_bits w"
    using v eq by (intro bytes_eqI) (auto simp: votes_inv_def jv_set_def)
  moreover have "jv_count v = jv_count w" using v eq by (simp add: votes_inv_def)
  ultimately show "v = w" by (cases v; cases w) simp
qed

subsection \<open>Reading one row\<close>

lemma decode_votes_loop_set:
  assumes "k + m \<le> n" "length (jv_bits v) = (n + 7) div 8" "jv_count v = card (jv_set v)"
    "jv_set v \<subseteq> {..<k}"
  shows "let v' = decode_votes_loop flat base k m v in
    length (jv_bits v') = (n + 7) div 8 \<and> jv_count v' = card (jv_set v') \<and>
    jv_set v' = jv_set v \<union> {i. k \<le> i \<and> i < k + m \<and> base + i \<in> bits_of flat}"
  using assms
proof (induction m arbitrary: k v)
  case 0
  then show ?case by (auto simp: Let_def)
next
  case (Suc m)
  define w where "w = (if bit_is_set (bl_data flat) (bl_len flat) (base + k)
    then \<lparr>jv_bits = set_bit_at (jv_bits v) k, jv_count = jv_count v + 1\<rparr> else v)"
  have bs: "bit_is_set (bl_data flat) (bl_len flat) (base + k) \<longleftrightarrow> base + k \<in> bits_of flat"
    by (simp add: bit_is_set_iff bits_of_def)
  have "k < 8 * length (jv_bits v)" using Suc.prems(1,2) by simp
  then have ws: "jv_set w = (if base + k \<in> bits_of flat then insert k (jv_set v) else jv_set v)"
    by (auto simp: w_def bs jv_set_def data_bit_set_bit_at)
  have k: "k \<notin> jv_set v" using Suc.prems(4) by auto
  have "jv_count w = card (jv_set w)" using Suc.prems(3) k by (simp add: ws) (simp add: w_def bs)
  moreover have "length (jv_bits w) = (n + 7) div 8" using Suc.prems(2) by (simp add: w_def)
  moreover have "jv_set w \<subseteq> {..<Suc k}" using Suc.prems(4) by (auto simp: ws)
  ultimately have IH: "let v' = decode_votes_loop flat base (Suc k) m w in
      length (jv_bits v') = (n + 7) div 8 \<and> jv_count v' = card (jv_set v') \<and>
      jv_set v' = jv_set w \<union> {i. Suc k \<le> i \<and> i < Suc k + m \<and> base + i \<in> bits_of flat}"
    using Suc.IH [of "Suc k" w] Suc.prems(1) by simp
  have "jv_set w \<union> {i. Suc k \<le> i \<and> i < Suc k + m \<and> base + i \<in> bits_of flat} =
      jv_set v \<union> {i. k \<le> i \<and> i < k + Suc m \<and> base + i \<in> bits_of flat}"
    by (auto simp: ws Suc_le_eq order.strict_iff_order)
  moreover have "decode_votes_loop flat base k (Suc m) v = decode_votes_loop flat base (Suc k) m w"
    by (simp add: w_def Let_def)
  ultimately show ?case using IH by (simp only: Let_def)
qed

lemma bytes_of_aligned: "n mod 8 = 0 \<Longrightarrow> (n + 7) div 8 = n div 8 \<and> 8 * (n div 8) = n" for n :: nat
  by auto

lemma decode_root_votes_unaligned:
  assumes "n mod 8 \<noteq> 0"
  shows "votes_inv n (decode_root_votes flat n r) \<and>
    jv_set (decode_root_votes flat n r) = {i. i < n \<and> r * n + i \<in> bits_of flat}"
  using assms decode_votes_loop_set [of 0 n n "justification_votes_new n" flat "r * n"]
    votes_new [of n]
  by (simp add: decode_root_votes_def Let_def votes_inv_def subset_iff)

lemma decode_root_votes_aligned:
  assumes "n mod 8 = 0"
  shows "votes_inv n (decode_root_votes flat n r) \<and>
    jv_set (decode_root_votes flat n r) =
      (if r * n + n \<le> 8 * length (bl_data flat)
       then {i. i < n \<and> data_bit (bl_data flat) (r * n + i)} else {})"
proof -
  obtain q where n: "n = 8 * q" using assms by (auto simp: mod_eq_0_iff_dvd)
  have bc: "(n + 7) div 8 = q" using bytes_of_aligned [OF assms] n by simp
  show ?thesis
  proof (cases "r * q + q \<le> length (bl_data flat)")
    case True
    then have "decode_root_votes flat n r =
        \<lparr>jv_bits = take q (drop (r * q) (bl_data flat)),
         jv_count = sum_list (map count_ones (take q (drop (r * q) (bl_data flat))))\<rparr>"
      using assms bc by (simp add: decode_root_votes_def Let_def)
    with True show ?thesis
      by (auto simp: votes_inv_def jv_set_def sum_count_ones bc n data_bit_take data_bit_drop
          algebra_simps)
  next
    case False
    then have "decode_root_votes flat n r = justification_votes_new n"
      using assms bc by (simp add: decode_root_votes_def Let_def)
    moreover have "\<not> r * n + n \<le> 8 * length (bl_data flat)" using False by (simp add: n algebra_simps)
    ultimately show ?thesis by simp
  qed
qed

lemma decode_root_votes_inv: "votes_inv n (decode_root_votes flat n r)"
  using decode_root_votes_aligned decode_root_votes_unaligned by (cases "n mod 8 = 0") auto

lemma row_in_range: "r < R \<Longrightarrow> i < n \<Longrightarrow> r * n + i < R * n" for r R n i :: nat
proof -
  assume "r < R" "i < n"
  then have "r * n + i < (r + 1) * n" by simp
  also have "\<dots> \<le> R * n" using \<open>r < R\<close> by (intro mult_le_mono1) simp
  finally show ?thesis .
qed

lemma decode_root_votes_set:
  assumes "r < R" "bl_len flat = R * n" "length (bl_data flat) = (R * n + 7) div 8"
  shows "jv_set (decode_root_votes flat n r) = {i. i < n \<and> data_bit (bl_data flat) (r * n + i)}"
proof (cases "n mod 8 = 0")
  case True
  have "r * n + n \<le> R * n" using assms(1) by (metis add.commute mult_Suc mult_le_mono1 Suc_leI)
  also have "R * n \<le> 8 * length (bl_data flat)" unfolding assms(3) by linarith
  finally show ?thesis using decode_root_votes_aligned [OF True] by simp
next
  case False
  then show ?thesis
    using decode_root_votes_unaligned [OF False, of flat r] row_in_range [OF assms(1)]
    by (auto simp: bits_of_def assms(2))
qed

subsection \<open>Writing one row\<close>

lemma length_encode_votes_loop [simp]:
  "length (encode_votes_loop bits n base i m flat) = length flat"
  by (induction bits n base i m flat rule: encode_votes_loop.induct) simp_all

lemma data_bit_encode_votes_loop:
  assumes "base + i + m \<le> 8 * length flat"
  shows "data_bit (encode_votes_loop bits n base i m flat) j \<longleftrightarrow> data_bit flat j \<or>
    (\<exists>v. i \<le> v \<and> v < i + m \<and> v < n \<and> data_bit bits v \<and> j = base + v)"
  using assms
proof (induction m arbitrary: i flat)
  case (Suc m)
  let ?flat = "if bit_is_set bits n i then set_bit_at flat (base + i) else flat"
  have IH: "data_bit (encode_votes_loop bits n base (Suc i) m ?flat) j \<longleftrightarrow> data_bit ?flat j \<or>
      (\<exists>v. Suc i \<le> v \<and> v < Suc i + m \<and> v < n \<and> data_bit bits v \<and> j = base + v)"
    using Suc.prems by (intro Suc.IH) simp
  have here: "data_bit ?flat j \<longleftrightarrow> data_bit flat j \<or> (i < n \<and> data_bit bits i \<and> j = base + i)"
    using Suc.prems by (auto simp: bit_is_set_iff data_bit_set_bit_at)
  have "(\<exists>v. i \<le> v \<and> v < i + Suc m \<and> v < n \<and> data_bit bits v \<and> j = base + v) \<longleftrightarrow>
      (i < n \<and> data_bit bits i \<and> j = base + i) \<or>
      (\<exists>v. Suc i \<le> v \<and> v < Suc i + m \<and> v < n \<and> data_bit bits v \<and> j = base + v)"
    by (auto simp: Suc_le_eq order.strict_iff_order)
  then show ?case using IH here by auto
qed auto

lemma encode_root_votes_row:
  assumes inv: "votes_inv n v" and room: "r * n + n \<le> 8 * length flat"
    and clear: "\<And>i. i < n \<Longrightarrow> \<not> data_bit flat (r * n + i)"
  obtains flat' where "encode_root_votes n r v flat = Inr flat'" "length flat' = length flat"
    "\<And>j. data_bit flat' j \<longleftrightarrow> data_bit flat j \<or> (\<exists>i \<in> jv_set v. j = r * n + i)"
proof (cases "n mod 8 = 0")
  case False
  let ?flat = "encode_votes_loop (jv_bits v) n (r * n) 0 n flat"
  have "encode_root_votes n r v flat = Inr ?flat" using False by (simp add: encode_root_votes_def Let_def)
  moreover have "data_bit ?flat j \<longleftrightarrow> data_bit flat j \<or> (\<exists>i \<in> jv_set v. j = r * n + i)" for j
    using data_bit_encode_votes_loop [of "r * n" 0 n flat "jv_bits v" n j] room inv
    by (auto simp: jv_set_def votes_inv_def)
  ultimately show thesis using that by simp
next
  case True
  then obtain q where n: "n = 8 * q" by (auto simp: mod_eq_0_iff_dvd)
  have bc: "(n + 7) div 8 = q" using bytes_of_aligned [OF True] n by simp
  have len: "length (jv_bits v) = q" using inv bc by (simp add: votes_inv_def)
  have room': "r * q + q \<le> length flat" using room by (simp add: n algebra_simps)
  let ?flat = "take (r * q) flat @ jv_bits v @ drop (r * q + q) flat"
  have "encode_root_votes n r v flat = Inr ?flat"
    using True len room' by (simp add: encode_root_votes_def Let_def bc)
  moreover have "length ?flat = length flat" using len room' by simp
  moreover have "data_bit ?flat j \<longleftrightarrow> data_bit flat j \<or> (\<exists>i \<in> jv_set v. j = r * n + i)" for j
  proof -
    consider "j < r * n" | i where "j = r * n + i" "i < n" | i where "j = r * n + n + i"
      by (metis add.assoc le_Suc_ex not_less)
    then show ?thesis
    proof cases
      case 1
      then show ?thesis using room' by (auto simp: data_bit_append data_bit_take n)
    next
      case (2 i)
      then have "\<not> data_bit flat j" using clear by simp
      with 2 show ?thesis using room' len
        by (auto simp: data_bit_append data_bit_take n jv_set_def)
    next
      case (3 i)
      then show ?thesis using room' len inv
        by (auto simp: data_bit_append data_bit_take data_bit_drop n algebra_simps votes_inv_def)
    qed
  qed
  ultimately show thesis using that by blast
qed

subsection \<open>All rows\<close>

definition row_votes :: "(bytes32, justification_votes) hmap \<Rightarrow> bytes32 list \<Rightarrow> nat \<Rightarrow> nat set" where
  "row_votes votes roots r = jv_set (the (hm_get votes (roots ! r)))"

lemma encode_justification_loop_rows:
  assumes "\<And>root. root \<in> set roots \<Longrightarrow> \<exists>v. hm_get votes root = Some v \<and> votes_inv n v"
    and "(k + length roots) * n \<le> 8 * length flat"
    and "\<And>j. k * n \<le> j \<Longrightarrow> \<not> data_bit flat j"
  shows "\<exists>flat'. encode_justification_loop votes n k roots flat = Inr flat' \<and>
    length flat' = length flat \<and>
    (\<forall>j. data_bit flat' j \<longleftrightarrow> data_bit flat j \<or>
      (\<exists>r < length roots. \<exists>i \<in> row_votes votes roots r. j = (k + r) * n + i))"
  using assms
proof (induction roots arbitrary: k flat)
  case (Cons root roots)
  obtain v where v: "hm_get votes root = Some v" "votes_inv n v" using Cons.prems(1) by auto
  have "k * n + n \<le> (k + length (root # roots)) * n" by (simp add: algebra_simps)
  with Cons.prems(2) have "k * n + n \<le> 8 * length flat" by (rule order_trans [rotated])
  with v(2) obtain flat1 where f1: "encode_root_votes n k v flat = Inr flat1"
    "length flat1 = length flat"
    "\<And>j. data_bit flat1 j \<longleftrightarrow> data_bit flat j \<or> (\<exists>i \<in> jv_set v. j = k * n + i)"
    using Cons.prems(3) by (auto intro: encode_root_votes_row [of n v k flat])
  have clear: "\<not> data_bit flat1 j" if "Suc k * n \<le> j" for j
    using that f1(3) Cons.prems(3) [of j] v(2) by (auto simp: votes_inv_def)
  obtain flat' where f': "encode_justification_loop votes n (Suc k) roots flat1 = Inr flat'"
    "length flat' = length flat1"
    "\<And>j. data_bit flat' j \<longleftrightarrow> data_bit flat1 j \<or>
      (\<exists>r < length roots. \<exists>i \<in> row_votes votes roots r. j = (Suc k + r) * n + i)"
    using Cons.IH [of "Suc k" flat1] Cons.prems(1,2) clear f1(2) by auto
  have "(\<exists>r < length (root # roots). \<exists>i \<in> row_votes votes (root # roots) r. j = (k + r) * n + i) \<longleftrightarrow>
      (\<exists>i \<in> jv_set v. j = k * n + i) \<or>
      (\<exists>r < length roots. \<exists>i \<in> row_votes votes roots r. j = (Suc k + r) * n + i)" for j
    unfolding row_votes_def by (simp add: Ex_less_Suc2 v(1))
  then show ?case using f1 f' v(1) by simp
qed simp

fun index_of :: "'a list \<Rightarrow> 'a \<Rightarrow> nat" where
  "index_of [] x = 0"
| "index_of (y # ys) x = (if y = x then 0 else Suc (index_of ys x))"

lemma index_of_nth: "x \<in> set xs \<Longrightarrow> index_of xs x < length xs \<and> xs ! index_of xs x = x"
  by (induction xs) auto

lemma decode_justification_loop_get:
  assumes "distinct roots"
  shows "hm_get (decode_justification_loop flat n k roots out) root =
    (if root \<in> set roots then Some (decode_root_votes flat n (k + index_of roots root))
     else hm_get out root)"
  using assms
proof (induction roots arbitrary: k out)
  case (Cons r roots)
  then show ?case by auto
qed simp

subsection \<open>Round trip\<close>

definition votes_map_inv :: "nat \<Rightarrow> (bytes32, justification_votes) hmap \<Rightarrow> bool" where
  "votes_map_inv n m \<longleftrightarrow> hm_wf m \<and> (\<forall>root v. hm_get m root = Some v \<longrightarrow> votes_inv n v)"

lemma votes_map_inv_empty [simp]: "votes_map_inv n []"
  by (simp add: votes_map_inv_def)

lemma votes_map_inv_insert: "votes_map_inv n m \<Longrightarrow> votes_inv n v \<Longrightarrow> votes_map_inv n (hm_insert r v m)"
  by (simp add: votes_map_inv_def)

lemma votes_map_inv_remove: "votes_map_inv n m \<Longrightarrow> votes_map_inv n (hm_remove r m)"
  by (simp add: votes_map_inv_def)

lemma map_of_filter_fst: "map_of (filter (\<lambda>(k, v). P k) m) k = (if P k then map_of m k else None)"
  by (induction m) auto

lemma votes_map_inv_filter:
  "votes_map_inv n m \<Longrightarrow> votes_map_inv n (filter (\<lambda>(k, v). P k) m)"
  by (simp add: votes_map_inv_def map_of_filter_fst)

lemma decode_loop_inv:
  "votes_map_inv n out \<Longrightarrow> votes_map_inv n (decode_justification_loop flat n k roots out)"
  by (induction flat n k roots out rule: decode_justification_loop.induct)
    (simp_all add: votes_map_inv_insert decode_root_votes_inv)

lemma decode_justification_votes_inv: "votes_map_inv n (decode_justification_votes s n)"
  by (simp add: decode_justification_votes_def decode_loop_inv)

lemma row_unique:
  assumes "i < n" "i' < n" "r * n + i = r' * n + i'"
  shows "r = r' \<and> i = (i' :: nat)"
proof -
  have "(r * n + i) div n = r" "(r' * n + i') div n = r'" using assms(1,2) by simp_all
  then show ?thesis using assms(3) by simp
qed

lemma votes_map_get:
  "votes_map_inv n m \<Longrightarrow> root \<in> fst ` set m \<Longrightarrow> \<exists>v. hm_get m root = Some v \<and> votes_inv n v"
  unfolding votes_map_inv_def by (metis hm_contains_def hm_contains_iff not_None_eq)

lemma encode_votes_rows:
  assumes L: "list_ops_bounded L" and m: "votes_map_inv n m"
    and flat_fits: "length m * n \<le> JUSTIFICATION_VALIDATORS_LIMIT"
    and roots_fit: "length m \<le> HISTORICAL_ROOTS_LIMIT"
  obtains data where
    "encode_justification_votes L s m n =
       Inr (s\<lparr>st_justifications_roots := sort (map fst m),
              st_justifications_validators := \<lparr>bl_data = data, bl_len = length m * n\<rparr>\<rparr>)"
    "length data = (length m * n + 7) div 8"
    "\<And>j. data_bit data j \<longleftrightarrow>
       (\<exists>r < length m. \<exists>i \<in> row_votes m (sort (map fst m)) r. j = r * n + i)"
proof -
  let ?roots = "sort (map fst m)" and ?zeros = "replicate ((length m * n + 7) div 8) 0 :: u8 list"
  have "(0 + length ?roots) * n \<le> 8 * length ?zeros" by simp
  then obtain data where data:
    "encode_justification_loop m n 0 ?roots ?zeros = Inr data" "length data = length ?zeros"
    "\<And>j. data_bit data j \<longleftrightarrow> (\<exists>r < length m. \<exists>i \<in> row_votes m ?roots r. j = r * n + i)"
    using encode_justification_loop_rows [of ?roots m n 0 ?zeros] votes_map_get [OF m] by auto
  have "length m * n < 2 ^ 64" using flat_fits by (simp add: JUSTIFICATION_VALIDATORS_LIMIT_def)
  moreover have "roots_new (lib_list L) HISTORICAL_ROOTS_LIMIT ?roots = Inr ?roots"
    using roots_fit by (simp add: list_ops_Inr [OF L])
  ultimately show thesis
    using that [of data] data flat_fits roots_fit
    by (simp add: encode_justification_votes_def not_le not_less)
qed

lemma decode_encoded_row:
  assumes m: "votes_map_inv n m" and r: "r < length m"
    and len: "length data = (length m * n + 7) div 8"
    and rows: "\<And>j. data_bit data j \<longleftrightarrow>
      (\<exists>r < length m. \<exists>i \<in> row_votes m (sort (map fst m)) r. j = r * n + i)"
  shows "Some (decode_root_votes \<lparr>bl_data = data, bl_len = length m * n\<rparr> n r) =
    hm_get m (sort (map fst m) ! r)"
proof -
  let ?roots = "sort (map fst m)" and ?flat = "\<lparr>bl_data = data, bl_len = length m * n\<rparr>"
  have mem: "?roots ! r' \<in> fst ` set m" if "r' < length m" for r'
    using that nth_mem [of r' ?roots] by (simp only: set_sort set_map length_sort length_map)
  obtain v where v: "hm_get m (?roots ! r) = Some v" "votes_inv n v"
    using votes_map_get [OF m mem [OF r]] by auto
  have sub: "row_votes m ?roots r' \<subseteq> {..<n}" if "r' < length m" for r'
    using votes_map_get [OF m mem [OF that]] by (auto simp: row_votes_def votes_inv_def)
  have "data_bit data (r * n + i) \<longleftrightarrow> i \<in> row_votes m ?roots r" if "i < n" for i
  proof
    assume "data_bit data (r * n + i)"
    then obtain r' i' where *: "r' < length m" "i' \<in> row_votes m ?roots r'" "r * n + i = r' * n + i'"
      by (auto simp: rows)
    then have "i' < n" using sub by blast
    then have "r = r' \<and> i = i'" using that *(3) by (intro row_unique)
    with * show "i \<in> row_votes m ?roots r" by simp
  qed (use r in \<open>auto simp: rows\<close>)
  then have "jv_set (decode_root_votes ?flat n r) = row_votes m ?roots r"
    using decode_root_votes_set [OF r, of ?flat n] len sub [OF r] by auto
  then have "decode_root_votes ?flat n r = v"
    using v by (intro votes_eqI [of n]) (auto simp: decode_root_votes_inv row_votes_def)
  then show ?thesis using v by simp
qed

lemma encode_decode_votes:
  assumes L: "list_ops_bounded L" and n: "0 < n" and m: "votes_map_inv n m"
    and flat_fits: "length m * n \<le> JUSTIFICATION_VALIDATORS_LIMIT"
    and roots_fit: "length m \<le> HISTORICAL_ROOTS_LIMIT"
  obtains s' where "encode_justification_votes L s m n = Inr s'"
    "hm_get (decode_justification_votes s' n) = hm_get m"
    "set (st_justifications_roots s') = fst ` set m"
    "\<exists>roots flat. s' = s\<lparr>st_justifications_roots := roots, st_justifications_validators := flat\<rparr>"
proof -
  let ?roots = "sort (map fst m)"
  obtain data where enc: "encode_justification_votes L s m n =
       Inr (s\<lparr>st_justifications_roots := ?roots,
              st_justifications_validators := \<lparr>bl_data = data, bl_len = length m * n\<rparr>\<rparr>)"
    and len: "length data = (length m * n + 7) div 8"
    and rows: "\<And>j. data_bit data j \<longleftrightarrow> (\<exists>r < length m. \<exists>i \<in> row_votes m ?roots r. j = r * n + i)"
    using encode_votes_rows [OF L m flat_fits roots_fit] by blast
  let ?flat = "\<lparr>bl_data = data, bl_len = length m * n\<rparr>"
  let ?s = "s\<lparr>st_justifications_roots := ?roots, st_justifications_validators := ?flat\<rparr>"
  have dist: "distinct ?roots" using m by (simp add: votes_map_inv_def hm_wf_def)
  have "hm_get (decode_justification_votes ?s n) root = hm_get m root" for root
  proof (cases "root \<in> set ?roots")
    case True
    then have i: "index_of ?roots root < length m" "?roots ! index_of ?roots root = root"
      using index_of_nth [of root ?roots] by simp_all
    have "?roots \<noteq> []" using True by (metis empty_iff empty_set)
    then have "hm_get (decode_justification_votes ?s n) root =
        Some (decode_root_votes ?flat n (index_of ?roots root))"
      using n True dist by (simp add: decode_justification_votes_def decode_justification_loop_get)
    then show ?thesis using decode_encoded_row [OF m i(1) len rows] i(2) by simp
  next
    case False
    then have "hm_get m root = None" by (simp add: map_of_eq_None_iff)
    then show ?thesis
      using False dist by (simp add: decode_justification_votes_def decode_justification_loop_get)
  qed
  then have get: "hm_get (decode_justification_votes ?s n) = hm_get m" by (rule ext)
  have set: "set (st_justifications_roots ?s) = fst ` set m" by simp
  show thesis by (rule that [OF enc get set]) (intro exI, rule refl)
qed

text \<open>The result does not depend on the iteration order of the hash map.\<close>

lemma encode_loop_cong:
  assumes "\<And>root. root \<in> set roots \<Longrightarrow> hm_get m root = hm_get m' root"
  shows "encode_justification_loop m n k roots flat = encode_justification_loop m' n k roots flat"
  using assms by (induction m n k roots flat rule: encode_justification_loop.induct)
    (auto intro!: and_then_cong)

lemma encode_votes_order_independent:
  assumes "hm_wf m" "hm_wf m'" "hm_get m = hm_get m'"
  shows "encode_justification_votes L s m n = encode_justification_votes L s m' n"
proof -
  have "set (map fst m) = set (map fst m')"
    using assms(3) by (metis dom_map_of_conv_image_fst set_map)
  then have sorted: "sort (map fst m) = sort (map fst m')"
    using assms(1,2) unfolding hm_wf_def
    by (metis distinct_sort set_sort sorted_distinct_set_unique sorted_sort)
  have loop: "encode_justification_loop m n k roots flat = encode_justification_loop m' n k roots flat"
    for k roots flat by (rule encode_loop_cong) (simp add: assms(3))
  show ?thesis unfolding encode_justification_votes_def sorted loop ..
qed

section \<open>Finalization candidates\<close>

lemma next_valid_loop_iff:
  "next_valid_loop r t f \<longleftrightarrow> (\<forall>x. r \<le> x \<and> x < t \<longrightarrow> \<not> justifiable_or_false x f)"
proof (induction r t f rule: next_valid_loop.induct)
  case (1 r t f)
  show ?case
  proof (cases "r < t")
    case True
    then have "unat (r + 1) = unat r + 1"
      using unat_bound [of t] by (subst unat_add_no_wrap) (simp_all add: word_less_nat_alt)
    then have "r \<le> x \<longleftrightarrow> x = r \<or> r + 1 \<le> x" for x
      by (auto simp: word_le_nat_alt word_eq_iff_unat)
    then show ?thesis using 1 True by (subst next_valid_loop.simps) auto
  next
    case False
    then show ?thesis by (subst next_valid_loop.simps) auto
  qed
qed

lemma is_next_valid_justifiable_slot_iff:
  "is_next_valid_justifiable_slot s t f \<longleftrightarrow>
     s < t \<and> (\<forall>x. s < x \<and> x < t \<longrightarrow> \<not> justifiable_or_false x f)"
proof (cases "s < t")
  case True
  then have "unat (s + 1) = unat s + 1"
    using unat_bound [of t] by (subst unat_add_no_wrap) (simp_all add: word_less_nat_alt)
  then have le: "s + 1 \<le> x \<longleftrightarrow> s < x" for x by (auto simp: word_le_nat_alt word_less_nat_alt)
  have "\<not> t \<le> s" using True by (simp add: not_le)
  then show ?thesis using True
    by (simp only: is_next_valid_justifiable_slot_def next_valid_loop_iff le if_False simp_thms)
qed (auto simp: is_next_valid_justifiable_slot_def not_less)

lemma justifiable_self: "justifiable_or_false f f"
  by (simp add: justifiable_or_false_def is_justifiable_after_near)

lemma justifiable_or_false_iff:
  "unat x - unat f < 2 ^ 62 \<Longrightarrow>
   justifiable_or_false x f \<longleftrightarrow> f \<le> x \<and> justifiable_distance (unat x - unat f)"
  by (cases "f \<le> x")
    (simp_all add: justifiable_or_false_def is_justifiable_after_eq is_justifiable_after_error not_le)

text \<open>A source that may be finalized is not before the finalized slot, so the distance by
  which the window moves never wraps around.\<close>

lemma finalizable_source_above:
  assumes "is_next_valid_justifiable_slot s t f" "f < t"
  shows "f \<le> s"
proof (rule ccontr)
  assume "\<not> f \<le> s"
  then have "s < f" by simp
  then show False using assms justifiable_self [of f]
    by (auto simp: is_next_valid_justifiable_slot_iff)
qed

section \<open>Properties\<close>

lemma data_bit_single: "data_bit [b] i \<longleftrightarrow> i < 8 \<and> bit b i"
  by (auto simp: data_bit_def)

lemma less_8: "i < 8 \<longleftrightarrow> i \<in> {0, 1, 2, 3, 4, 5, 6, 7}" for i :: nat
  by auto

text \<open>
  C26 (the justified window is a set of slots). Marking a slot after the finalized one adds
  exactly this slot to the justified slots, and moving the window to a later finalized slot
  keeps every justified slot. Extending the window for a new block justifies no slot and
  loses none, and gives every slot between the finalized one and the block a bit. The bit
  list is only a representation of the set.
\<close>

theorem justified_window_refines_slot_set:
  assumes "window_inv w" "f < s" "set_justified_slot w f s = Inr w'" "f \<le> f'"
  shows "(is_slot_justified w' f x \<longleftrightarrow> x = s \<or> is_slot_justified w f x) \<and>
    (is_slot_justified (shift_justified_window w (unat (f' - f))) f' x \<longleftrightarrow>
       x \<le> f' \<or> is_slot_justified w f x) \<and>
    (is_slot_justified (extend_justified_window w f b) f x \<longleftrightarrow> is_slot_justified w f x) \<and>
    (f < x \<longrightarrow> x < b \<longrightarrow> unat (x - f - 1) < bl_len (extend_justified_window w f b))"
  using justified_window.add_slots [OF assms(1-3)] justified_window.advance_slots [OF assms(1,4)]
    extend_justified_window_bits [OF assms(1), of f b] extend_justified_window_room [of f x b w] assms(1)
  by (simp add: is_slot_justified_iff window_slots_def word_le_nat_alt word_eq_iff_unat)

theorem justified_window_refines_slot_set_witness:
  "\<exists>w'. set_justified_slot \<lparr>bl_data = [5], bl_len = 3\<rparr> 10 17 = Inr w' \<and>
     is_slot_justified w' 10 17 \<and> is_slot_justified w' 10 13 \<and>
     is_slot_justified (shift_justified_window \<lparr>bl_data = [5], bl_len = 3\<rparr> (unat (12 - 10 :: slot))) 12 13 \<and>
     is_slot_justified (extend_justified_window \<lparr>bl_data = [5], bl_len = 3\<rparr> 10 30) 10 13 \<and>
     unat (17 - 10 - 1 :: slot) < bl_len (extend_justified_window \<lparr>bl_data = [5], bl_len = 3\<rparr> 10 30)"
proof -
  let ?w = "\<lparr>bl_data = [5 :: u8], bl_len = 3\<rparr>"
  have inv: "window_inv ?w"
  proof -
    have "data_bit [5] i \<Longrightarrow> i < 3" for i
      by (auto simp: data_bit_single less_8 bit_iff_odd)
    then show ?thesis by (simp add: window_inv_def)
  qed
  obtain w' where w': "set_justified_slot ?w 10 17 = Inr w'"
    by (simp add: set_justified_slot_eq Let_def HISTORICAL_ROOTS_LIMIT_def)
  have b: "is_slot_justified ?w 10 13" by (simp add: is_slot_justified_def byte_bit_def)
  show ?thesis
    using justified_window_refines_slot_set [OF inv _ w', of 12 17 30]
      justified_window_refines_slot_set [OF inv _ w', of 12 13 30] w' b by simp
qed

text \<open>
  C27 (votes count distinct validators). Merging the participants of an attestation into a
  vote field adds exactly the participants that are validators; the counter is the number
  of distinct validators that voted, however often they voted, and the merge never indexes
  out of range.
\<close>

theorem merged_votes_count_distinct_validators:
  assumes "votes_inv n v"
  shows "\<exists>v'. merge_participant_votes_from_bits v p n = Inr v' \<and> votes_inv n v' \<and>
    jv_set v' = jv_set v \<union> (bits_of p \<inter> {..<n}) \<and>
    jv_count v' = card (jv_set v \<union> (bits_of p \<inter> {..<n}))"
  using assms by (rule merge_participant_votes_set [where p = p]) (auto simp: votes_inv_def)

theorem merged_votes_count_distinct_validators_witness:
  "\<exists>v'. merge_participant_votes_from_bits (justification_votes_new 3)
      \<lparr>bl_data = [255], bl_len = 5\<rparr> 3 = Inr v' \<and> jv_count v' = 3"
proof -
  have "bits_of \<lparr>bl_data = [255], bl_len = 5\<rparr> \<inter> {..<3} = {0, 1, 2}"
    by (auto simp: bits_of_def data_bit_single less_8 bit_iff_odd)
  then show ?thesis
    using merged_votes_count_distinct_validators
      [OF votes_new(1) [of 3], of "\<lparr>bl_data = [255], bl_len = 5\<rparr>"] by auto
qed

text \<open>
  C28 (votes survive in the state). Votes written into the flat bitmap of the state at the
  end of a block are read back unchanged at the next block, for every number of validators,
  byte-aligned or not; nothing else of the state changes.
\<close>

theorem votes_survive_in_state:
  assumes "list_ops_bounded L" "0 < n" "votes_map_inv n m"
    "length m * n \<le> JUSTIFICATION_VALIDATORS_LIMIT" "length m \<le> HISTORICAL_ROOTS_LIMIT"
  shows "\<exists>roots flat.
    encode_justification_votes L s m n =
      Inr (s\<lparr>st_justifications_roots := roots, st_justifications_validators := flat\<rparr>) \<and>
    hm_get (decode_justification_votes
      (s\<lparr>st_justifications_roots := roots, st_justifications_validators := flat\<rparr>) n) = hm_get m"
  using assms by (rule encode_decode_votes [where s = s]) blast

definition sample_votes :: "(bytes32, justification_votes) hmap" where
  "sample_votes = [(9, \<lparr>jv_bits = [5], jv_count = 2\<rparr>), (4, \<lparr>jv_bits = [2], jv_count = 1\<rparr>)]"

lemma sample_votes_inv: "votes_map_inv 3 sample_votes"
proof -
  have "jv_set \<lparr>jv_bits = [5], jv_count = 2\<rparr> = {0, 2}" "jv_set \<lparr>jv_bits = [2], jv_count = 1\<rparr> = {1}"
    by (auto simp: jv_set_def data_bit_single less_8 bit_iff_odd)
  then show ?thesis
    by (auto simp: votes_map_inv_def hm_wf_def sample_votes_def votes_inv_def)
qed

theorem votes_survive_in_state_witness:
  "\<exists>s'. encode_justification_votes sample_lib sample_state sample_votes 3 = Inr s' \<and>
     hm_get (decode_justification_votes s' 3) = hm_get sample_votes"
  using votes_survive_in_state [OF sample_list_ops_bounded _ sample_votes_inv, of sample_state]
  by (auto simp: sample_votes_def JUSTIFICATION_VALIDATORS_LIMIT_def HISTORICAL_ROOTS_LIMIT_def)

text \<open>
  (hash map order does not matter). The stored roots and bitmap depend only on the
  contents of the vote map, not on the iteration order of the hash map, so all nodes
  compute the same state root.
\<close>

theorem stored_votes_ignore_map_order:
  assumes "hm_wf m" "hm_wf m'" "hm_get m = hm_get m'"
  shows "encode_justification_votes L s m n = encode_justification_votes L s m' n"
  using assms by (rule encode_votes_order_independent)

theorem stored_votes_ignore_map_order_witness:
  "encode_justification_votes sample_lib sample_state sample_votes 3 =
   encode_justification_votes sample_lib sample_state (rev sample_votes) 3"
  by (rule stored_votes_ignore_map_order) (auto simp: sample_votes_def hm_wf_def fun_eq_iff)

text \<open>
  (finalization rule). \<^verbatim>\<open>is_next_valid_justifiable_slot\<close> holds exactly when the target is
  after the source and no slot strictly between them is justifiable after the finalized
  slot, for targets less than \<open>2 ^ 62\<close> slots after it. The loop always ends.
\<close>

theorem next_valid_iff_no_justifiable_between:
  assumes "unat target - unat finalized < 2 ^ 62"
  shows "is_next_valid_justifiable_slot source target finalized \<longleftrightarrow>
    source < target \<and> \<not> (\<exists>x. source < x \<and> x < target \<and> finalized \<le> x \<and>
      justifiable_distance (unat x - unat finalized))"
proof -
  have "justifiable_or_false x finalized \<longleftrightarrow>
      finalized \<le> x \<and> justifiable_distance (unat x - unat finalized)" if "x < target" for x
    using assms that by (intro justifiable_or_false_iff) (simp add: word_less_nat_alt)
  then show ?thesis by (auto simp: is_next_valid_justifiable_slot_iff)
qed

theorem next_valid_iff_no_justifiable_between_witness:
  "\<not> is_next_valid_justifiable_slot 2 5 1 \<and> is_next_valid_justifiable_slot 2 3 1"
proof -
  have no: "\<not> (2 < x \<and> x < 3)" for x :: slot by (auto simp: word_less_nat_alt)
  have yes: "(2 :: slot) < 4 \<and> (4 :: slot) < 5 \<and> (1 :: slot) \<le> 4 \<and>
      justifiable_distance (unat (4 :: slot) - unat (1 :: slot))"
    by (simp add: justifiable_distance_def)
  have near: "unat (5 :: slot) - unat (1 :: slot) < 2 ^ 62" "unat (3 :: slot) - unat (1 :: slot) < 2 ^ 62"
    by simp_all
  have "\<not> is_next_valid_justifiable_slot 2 5 1"
    using next_valid_iff_no_justifiable_between [OF near(1), of 2] yes by blast
  moreover have "is_next_valid_justifiable_slot 2 3 1"
    using next_valid_iff_no_justifiable_between [OF near(2), of 2] no by auto
  ultimately show ?thesis ..
qed

end
