(* ===== verification/Pq.thy ===== *)
theory Pq
  imports Bytes
begin

text \<open>
  Post-quantum signatures, \<^verbatim>\<open>src/crypto/pq.rs\<close>. The signature scheme (\<^verbatim>\<open>leansig\<close>) and the
  aggregation scheme (\<^verbatim>\<open>lean_multisig\<close>) are external crates; they are the parameter
  \<open>pq_lib\<close>, whose type variables are the key, signature, aggregate and secret-key types.
  \<^verbatim>\<open>leansig\<close> panics when it signs outside the interval of a key, which the repository pins in
  \<^verbatim>\<open>tests/pq_negative.rs\<close>; signing therefore returns a result around the optional signature.
  Setting up the proving and verification tables and the debug log have no effect on
  results and are left out.
\<close>

section \<open>Definitions\<close>

record ('pk, 'sk, 'sig, 'agg) pq_lib =
  lib_key_gen :: "u8 list \<Rightarrow> nat \<Rightarrow> nat \<Rightarrow> 'pk \<times> 'sk"
  lib_pk_to_bytes :: "'pk \<Rightarrow> u8 list"
  lib_pk_from_bytes :: "u8 list \<Rightarrow> 'pk option"
  lib_sig_to_bytes :: "'sig \<Rightarrow> u8 list"
  lib_sig_from_bytes :: "u8 list \<Rightarrow> 'sig option"
  lib_sign :: "'sk \<Rightarrow> u32 \<Rightarrow> bytes32 \<Rightarrow> 'sig option result"
  lib_verify :: "'pk \<Rightarrow> u32 \<Rightarrow> bytes32 \<Rightarrow> 'sig \<Rightarrow> bool"
  lib_aggregate :: "'pk list \<Rightarrow> 'sig list \<Rightarrow> bytes32 \<Rightarrow> u32 \<Rightarrow> 'agg option"
  lib_agg_to_bytes :: "'agg \<Rightarrow> u8 list"
  lib_agg_from_bytes :: "u8 list \<Rightarrow> 'agg option"
  lib_agg_verify :: "'pk list \<Rightarrow> bytes32 \<Rightarrow> 'agg \<Rightarrow> u32 \<Rightarrow> bool"

text \<open>\<^verbatim>\<open>map_err\<close> on an external result: the error text of the crate is not modelled.\<close>

definition ok_or :: "string \<Rightarrow> 'a option \<Rightarrow> 'a result" where
  "ok_or message r = (case r of None \<Rightarrow> Inl (Err message) | Some x \<Rightarrow> Inr x)"

definition DEVNET_KEY_ACTIVE_EPOCHS :: nat where "DEVNET_KEY_ACTIVE_EPOCHS = 8"

unbundle bit_operations_syntax

definition key_gen_for_devnet_validator ::
    "('pk, 'sk, 'sig, 'agg) pq_lib \<Rightarrow> nat \<Rightarrow> (bytes52 \<times> 'sk) result" where
  "key_gen_for_devnet_validator Q validator_index =
     (let seed = le64 (0x44564E4554310000 XOR of_nat validator_index) @ replicate 24 0;
          (pk, sk) = lib_key_gen Q seed 0 DEVNET_KEY_ACTIVE_EPOCHS;
          pk_bytes = lib_pk_to_bytes Q pk
      in if length pk_bytes \<noteq> 52
         then Inl (ErrFmt ''unexpected public key length {}, expected 52'' [length pk_bytes])
         else and_then (bytes52_from_slice pk_bytes) (\<lambda>b. Inr (b, sk)))"

definition sign_message ::
    "('pk, 'sk, 'sig, 'agg) pq_lib \<Rightarrow> 'sk \<Rightarrow> u32 \<Rightarrow> bytes32 \<Rightarrow> bytes3112 result" where
  "sign_message Q secret_key epoch message =
     and_then (lib_sign Q secret_key epoch message) (\<lambda>r.
     and_then (ok_or ''failed to sign message'' r) (\<lambda>sig.
     let sig_bytes = lib_sig_to_bytes Q sig in
     if length sig_bytes \<noteq> 3112
     then Inl (ErrFmt ''unexpected signature length {}, expected {}'' [length sig_bytes, 3112])
     else bytes3112_from_slice sig_bytes))"

definition public_key_from_bytes :: "('pk, 'sk, 'sig, 'agg) pq_lib \<Rightarrow> bytes52 \<Rightarrow> 'pk result" where
  "public_key_from_bytes Q bytes =
     ok_or ''Failed to decode LeanSigPublicKey'' (lib_pk_from_bytes Q (be_bytes 52 bytes))"

definition signature_from_bytes :: "('pk, 'sk, 'sig, 'agg) pq_lib \<Rightarrow> bytes3112 \<Rightarrow> 'sig result" where
  "signature_from_bytes Q bytes =
     ok_or ''Failed to decode LeanSigSignature'' (lib_sig_from_bytes Q (be_bytes 3112 bytes))"

definition aggregate_signatures_impl ::
    "('pk, 'sk, 'sig, 'agg) pq_lib \<Rightarrow> bytes52 list \<Rightarrow> bytes3112 list \<Rightarrow> bytes32 \<Rightarrow> u32 \<Rightarrow>
     u8 list result" where
  "aggregate_signatures_impl Q public_keys signatures message epoch =
     and_then (traverse (public_key_from_bytes Q) public_keys) (\<lambda>pub_keys.
     and_then (traverse (signature_from_bytes Q) signatures) (\<lambda>sigs.
     and_then (ok_or ''failed to aggregate signatures'' (lib_aggregate Q pub_keys sigs message epoch))
       (\<lambda>agg. Inr (lib_agg_to_bytes Q agg))))"

definition sign_aggregate ::
    "('pk, 'sk, 'sig, 'agg) pq_lib \<Rightarrow> bytes52 list \<Rightarrow> 'sk list \<Rightarrow> u32 \<Rightarrow> bytes32 \<Rightarrow>
     u8 list result" where
  "sign_aggregate Q public_keys secret_keys epoch message =
     (if public_keys = [] then Inl (Err ''aggregate signature participants must be non-empty'')
      else if length public_keys \<noteq> length secret_keys
      then Inl (ErrFmt ''public key count ({}) does not match secret key count ({})''
                  [length public_keys, length secret_keys])
      else and_then (traverse (\<lambda>secret_key. sign_message Q secret_key epoch message) secret_keys)
             (\<lambda>signatures. aggregate_signatures_impl Q public_keys signatures message epoch))"

definition aggregate_signatures ::
    "('pk, 'sk, 'sig, 'agg) pq_lib \<Rightarrow> bytes52 list \<Rightarrow> bytes3112 list \<Rightarrow> bytes32 \<Rightarrow> u32 \<Rightarrow>
     u8 list result" where
  "aggregate_signatures Q public_keys signatures message epoch =
     (if public_keys = [] then Inl (Err ''aggregate signature participants must be non-empty'')
      else if length public_keys \<noteq> length signatures
      then Inl (ErrFmt ''public key count ({}) does not match signature count ({})''
                  [length public_keys, length signatures])
      else aggregate_signatures_impl Q public_keys signatures message epoch)"

definition verify_signature ::
    "('pk, 'sk, 'sig, 'agg) pq_lib \<Rightarrow> bytes52 \<Rightarrow> u32 \<Rightarrow> bytes32 \<Rightarrow> bytes3112 \<Rightarrow> unit result" where
  "verify_signature Q public_key epoch message signature =
     and_then (public_key_from_bytes Q public_key) (\<lambda>pk.
     and_then (signature_from_bytes Q signature) (\<lambda>sig.
     if lib_verify Q pk epoch message sig then Inr ()
     else Inl (Err ''Proposer signature verification failed'')))"

definition verify_aggregate_signature ::
    "('pk, 'sk, 'sig, 'agg) pq_lib \<Rightarrow> bytes52 list \<Rightarrow> bytes32 \<Rightarrow> u8 list \<Rightarrow> u32 \<Rightarrow>
     unit result" where
  "verify_aggregate_signature Q public_keys message aggregate_signature_bytes epoch =
     (if public_keys = [] then Inl (Err ''aggregate signature participants must be non-empty'')
      else if length aggregate_signature_bytes < 8
      then Inl (Err ''failed to decode aggregate signature: proof too short'')
      else
        and_then (ok_or ''failed to decode aggregate signature''
                    (lib_agg_from_bytes Q aggregate_signature_bytes)) (\<lambda>aggregate.
        and_then (traverse (public_key_from_bytes Q) public_keys) (\<lambda>pub_keys.
        if lib_agg_verify Q pub_keys message aggregate epoch then Inr ()
        else Inl (Err ''failed to verify aggregated signatures''))))"

section \<open>Signing and verifying\<close>

text \<open>
  What the crates document: serialization round-trips, a public key takes 52 bytes and a
  signature 3112, a signature made with a secret key verifies under its public key, and an
  aggregate of valid signatures verifies and serializes to at least eight bytes.
\<close>

definition key_pair :: "('pk, 'sk, 'sig, 'agg) pq_lib \<Rightarrow> bytes52 \<Rightarrow> 'sk \<Rightarrow> bool" where
  "key_pair Q key sk \<longleftrightarrow> (\<exists>pk. lib_pk_from_bytes Q (be_bytes 52 key) = Some pk \<and>
     (\<forall>epoch message sig. lib_sign Q sk epoch message = Inr (Some sig) \<longrightarrow>
        lib_verify Q pk epoch message sig))"

definition scheme_laws :: "('pk, 'sk, 'sig, 'agg) pq_lib \<Rightarrow> bool" where
  "scheme_laws Q \<longleftrightarrow>
     (\<forall>sig. length (lib_sig_to_bytes Q sig) = 3112 \<and>
        lib_sig_from_bytes Q (lib_sig_to_bytes Q sig) = Some sig) \<and>
     (\<forall>agg. 8 \<le> length (lib_agg_to_bytes Q agg) \<and>
        lib_agg_from_bytes Q (lib_agg_to_bytes Q agg) = Some agg) \<and>
     (\<forall>pks sigs message epoch agg.
        list_all2 (\<lambda>pk sig. lib_verify Q pk epoch message sig) pks sigs \<longrightarrow>
        lib_aggregate Q pks sigs message epoch = Some agg \<longrightarrow>
        lib_agg_verify Q pks message agg epoch)"

lemma ok_or_simps [simp]:
  "ok_or m None = Inl (Err m)" "ok_or m (Some x) = Inr x"
  by (simp_all add: ok_or_def)

lemma ok_or_eq_Inr [result_simps]: "ok_or m r = Inr x \<longleftrightarrow> r = Some x"
  by (cases r) simp_all

lemma sign_message_Inr:
  assumes "scheme_laws Q" "sign_message Q sk epoch message = Inr sig_bytes"
  obtains sig where "lib_sign Q sk epoch message = Inr (Some sig)" "signature_from_bytes Q sig_bytes = Inr sig"
  using assms
  by (auto simp: sign_message_def result_simps Let_def scheme_laws_def bytes3112_from_slice_def
      slice_def signature_from_bytes_def split: if_splits)

lemma sign_verify:
  assumes "scheme_laws Q" "key_pair Q key sk" "sign_message Q sk epoch message = Inr sig_bytes"
  shows "verify_signature Q key epoch message sig_bytes = Inr ()"
  using assms(1,3)
proof (rule sign_message_Inr)
  fix sig assume "lib_sign Q sk epoch message = Inr (Some sig)" "signature_from_bytes Q sig_bytes = Inr sig"
  then show ?thesis
    using assms(2) by (auto simp: verify_signature_def public_key_from_bytes_def key_pair_def)
qed

lemma sign_aggregate_verifies:
  assumes laws: "scheme_laws Q" and keys: "list_all2 (key_pair Q) public_keys secret_keys"
    and ok: "sign_aggregate Q public_keys secret_keys epoch message = Inr proof_bytes"
  shows "verify_aggregate_signature Q public_keys message proof_bytes epoch = Inr ()"
proof -
  obtain signatures where sigs:
    "list_all2 (\<lambda>sk s. sign_message Q sk epoch message = Inr s) secret_keys signatures"
    and agg: "aggregate_signatures_impl Q public_keys signatures message epoch = Inr proof_bytes"
    and ne: "public_keys \<noteq> []"
    using ok by (auto simp: sign_aggregate_def result_simps traverse_eq_Inr split: if_splits)
  obtain pks ss a where parts:
    "list_all2 (\<lambda>k pk. public_key_from_bytes Q k = Inr pk) public_keys pks"
    "list_all2 (\<lambda>b s. signature_from_bytes Q b = Inr s) signatures ss"
    "lib_aggregate Q pks ss message epoch = Some a" "proof_bytes = lib_agg_to_bytes Q a"
    using agg by (auto simp: aggregate_signatures_impl_def result_simps traverse_eq_Inr)
  have len: "length pks = length public_keys" "length secret_keys = length public_keys"
    "length signatures = length public_keys" "length ss = length public_keys"
    using parts(1,2) [THEN list_all2_lengthD] keys [THEN list_all2_lengthD]
      sigs [THEN list_all2_lengthD] by simp_all
  have "lib_verify Q (pks ! i) epoch message (ss ! i)" if "i < length pks" for i
  proof -
    have "key_pair Q (public_keys ! i) (secret_keys ! i)"
      "sign_message Q (secret_keys ! i) epoch message = Inr (signatures ! i)"
      "public_key_from_bytes Q (public_keys ! i) = Inr (pks ! i)"
      "signature_from_bytes Q (signatures ! i) = Inr (ss ! i)"
      using that len parts(1,2) keys sigs by (auto dest: list_all2_nthD)
    then have "verify_signature Q (public_keys ! i) epoch message (signatures ! i) = Inr ()"
      and "public_key_from_bytes Q (public_keys ! i) = Inr (pks ! i)"
      and "signature_from_bytes Q (signatures ! i) = Inr (ss ! i)"
      using laws by (auto intro: sign_verify)
    then show ?thesis by (auto simp: verify_signature_def split: if_splits)
  qed
  then have "list_all2 (\<lambda>pk sig. lib_verify Q pk epoch message sig) pks ss"
    using len by (simp add: list_all2_conv_all_nth)
  then have "lib_agg_verify Q pks message a epoch"
    using laws parts(3) unfolding scheme_laws_def by blast
  moreover have "8 \<le> length proof_bytes" "lib_agg_from_bytes Q proof_bytes = Some a"
    using laws parts(4) by (simp_all add: scheme_laws_def)
  moreover have "traverse (public_key_from_bytes Q) public_keys = Inr pks"
    using parts(1) by (simp add: traverse_eq_Inr)
  ultimately show ?thesis using ne by (simp add: verify_aggregate_signature_def)
qed

section \<open>Properties\<close>

text \<open>
  C29 (signatures verify). A block signature made by \<^verbatim>\<open>sign_message\<close> passes
  \<^verbatim>\<open>verify_signature\<close> under the matching public key, and an aggregate made by
  \<^verbatim>\<open>sign_aggregate\<close> passes \<^verbatim>\<open>verify_aggregate_signature\<close> for the same keys, message and
  epoch: the conversions between byte arrays and the types of the crates lose nothing.
\<close>

theorem signed_messages_verify:
  assumes "scheme_laws Q" "list_all2 (key_pair Q) public_keys secret_keys"
  shows "(sign_aggregate Q public_keys secret_keys epoch message = Inr proof_bytes \<longrightarrow>
      verify_aggregate_signature Q public_keys message proof_bytes epoch = Inr ()) \<and>
    (\<forall>i < length public_keys. \<forall>sig_bytes.
      sign_message Q (secret_keys ! i) epoch message = Inr sig_bytes \<longrightarrow>
      verify_signature Q (public_keys ! i) epoch message sig_bytes = Inr ())"
  using assms by (auto intro: sign_aggregate_verifies sign_verify dest: list_all2_nthD)

definition sample_pq :: "(bytes52, bytes52, bytes3112, u64) pq_lib" where
  "sample_pq = \<lparr>
     lib_key_gen = (\<lambda>seed e n. (ucast (hd seed), ucast (hd seed))),
     lib_pk_to_bytes = be_bytes 52,
     lib_pk_from_bytes = (\<lambda>bs. Some (from_be_bytes bs)),
     lib_sig_to_bytes = be_bytes 3112,
     lib_sig_from_bytes = (\<lambda>bs. Some (from_be_bytes bs)),
     lib_sign = (\<lambda>sk epoch message. Inr (Some (ucast sk))),
     lib_verify = (\<lambda>pk epoch message sig. sig = ucast pk),
     lib_aggregate = (\<lambda>pks sigs message epoch. if sigs = map ucast pks then Some 5 else None),
     lib_agg_to_bytes = le64,
     lib_agg_from_bytes = (\<lambda>bs. Some (from_le_bytes bs)),
     lib_agg_verify = (\<lambda>pks message agg epoch. agg = 5)\<rparr>"

lemma sample_scheme_laws: "scheme_laws sample_pq"
  by (simp add: scheme_laws_def sample_pq_def)

lemma sample_key_pair: "key_pair sample_pq k k"
  by (simp add: key_pair_def sample_pq_def)

lemma sample_sign: "sign_message sample_pq sk epoch message = Inr (ucast sk)"
  by (simp add: sign_message_def sample_pq_def bytes3112_from_slice_def slice_def)

lemma sample_decode:
  "public_key_from_bytes sample_pq k = Inr k" "signature_from_bytes sample_pq s = Inr s"
  by (simp_all add: public_key_from_bytes_def signature_from_bytes_def sample_pq_def)

theorem signed_messages_verify_witness:
  "\<exists>proof_bytes. sign_aggregate sample_pq [3, 4] [3, 4] 7 9 = Inr proof_bytes \<and>
     verify_aggregate_signature sample_pq [3, 4] 9 proof_bytes 7 = Inr ()"
proof -
  have keys: "list_all2 (key_pair sample_pq) [3, 4] [3, 4]" by (simp add: sample_key_pair)
  have "\<exists>proof_bytes. sign_aggregate sample_pq [3, 4] [3, 4] 7 9 = Inr proof_bytes"
    by (simp add: sign_aggregate_def aggregate_signatures_impl_def sample_sign sample_decode)
      (simp add: sample_pq_def)
  then show ?thesis using signed_messages_verify [OF sample_scheme_laws keys] by blast
qed

end
