(* ===== verification/StateTransition.thy ===== *)
theory StateTransition
  imports VarCodec VoteBitmap Pq
begin

text \<open>
  The state transition of \<^verbatim>\<open>src/containers/state.rs\<close>: genesis, empty slots, block headers,
  attestations with justification and finalization, whole blocks with the state-root check,
  and signed blocks with their signature verifier. Functions on \<^verbatim>\<open>&mut self\<close> return the new
  state; logging, tracing and metrics are left out.
\<close>

unbundle bit_operations_syntax

section \<open>Genesis\<close>

definition EMPTY_BLOCK_BODY_ROOT :: bytes32 where
  "EMPTY_BLOCK_BODY_ROOT = from_be_bytes
     [0xdb, 0xa9, 0x67, 0x1b, 0xac, 0x95, 0x13, 0xc9, 0x48, 0x2f, 0x14, 0x16, 0xa5, 0x3a, 0xab, 0xd2,
      0xc6, 0xce, 0x90, 0xd5, 0xa5, 0xf8, 0x65, 0xce, 0x5a, 0x55, 0xc7, 0x75, 0x32, 0x5c, 0x91, 0x36]"

definition generate_genesis :: "ssz_lib \<Rightarrow> u64 \<Rightarrow> validator list \<Rightarrow> state" where
  "generate_genesis L gt validators =
     (let latest_block_header =
            \<lparr>bh_slot = 0, bh_proposer_index = 0, bh_parent_root = zero_root,
             bh_state_root = zero_root, bh_body_root = EMPTY_BLOCK_BODY_ROOT\<rparr>;
          state =
            \<lparr>st_config = \<lparr>genesis_time = gt\<rparr>, st_slot = 0,
             st_latest_block_header = latest_block_header,
             st_latest_justified = \<lparr>cp_root = zero_root, cp_slot = 0\<rparr>,
             st_latest_finalized = \<lparr>cp_root = zero_root, cp_slot = 0\<rparr>,
             st_historical_block_hashes = [], st_justified_slots = bitlist_default,
             st_validators = validators,
             st_justifications_roots = [], st_justifications_validators = bitlist_default\<rparr>;
          tmp = state\<lparr>st_latest_block_header :=
                  (st_latest_block_header state)\<lparr>bh_state_root := zero_root\<rparr>\<rparr>
      in state\<lparr>st_latest_block_header :=
           (st_latest_block_header state)\<lparr>bh_state_root := state_root L tmp\<rparr>\<rparr>)"

definition generate_genesis_empty :: "ssz_lib \<Rightarrow> u64 \<Rightarrow> state" where
  "generate_genesis_empty L gt = generate_genesis L gt []"

section \<open>Slots and headers\<close>

definition fill_header_root :: "ssz_lib \<Rightarrow> state \<Rightarrow> state" where
  "fill_header_root L s =
     (if bh_state_root (st_latest_block_header s) = zero_root
      then s\<lparr>st_latest_block_header :=
             (st_latest_block_header s)\<lparr>bh_state_root := state_root L s\<rparr>\<rparr>
      else s)"

function process_slots_loop :: "ssz_lib \<Rightarrow> state \<Rightarrow> slot \<Rightarrow> state" where
  "process_slots_loop L s target_slot =
     (if st_slot s < target_slot
      then process_slots_loop L
             ((fill_header_root L s)\<lparr>st_slot := st_slot (fill_header_root L s) + 1\<rparr>) target_slot
      else s)"
  by auto
termination
proof (relation "measure (\<lambda>(L, s, t). unat t - unat (st_slot s))")
  fix L :: ssz_lib and s :: state and t :: slot
  assume lt: "st_slot s < t"
  have "st_slot (fill_header_root L s) = st_slot s" by (simp add: fill_header_root_def)
  moreover have "unat (st_slot s) < unat t" using lt by (simp add: word_less_nat_alt)
  moreover have "unat (st_slot s + 1) = unat (st_slot s) + 1"
    using calculation(2) unat_bound [of t] by (subst unat_add_no_wrap) simp_all
  ultimately show "((L, (fill_header_root L s)\<lparr>st_slot := st_slot (fill_header_root L s) + 1\<rparr>, t),
      (L, s, t)) \<in> measure (\<lambda>(L, s, t). unat t - unat (st_slot s))" by simp
qed simp

declare process_slots_loop.simps [simp del]

definition process_slots :: "ssz_lib \<Rightarrow> state \<Rightarrow> slot \<Rightarrow> state result" where
  "process_slots L s target_slot =
     (if st_slot s \<ge> target_slot then Inl (Err ''target slot must be in the future'')
      else Inr (process_slots_loop L s target_slot))"

definition process_block_header_assuming_slot ::
    "ssz_lib \<Rightarrow> state \<Rightarrow> block_header \<Rightarrow> state result" where
  "process_block_header_assuming_slot L s block =
     (if bh_slot block \<le> bh_slot (st_latest_block_header s)
      then Inl (Err ''block slot not greater than latest header slot'')
      else if \<not> is_proposer_for (bh_proposer_index block) (st_slot s)
                 (of_nat (length (st_validators s)))
      then Inl (Err ''block proposer index does not match expected proposer'')
      else if bh_parent_root block \<noteq> block_header_root L (st_latest_block_header s)
      then Inl (Err ''block parent root does not match latest header root'')
      else
        let s = (if bh_slot (st_latest_block_header s) = 0
                 then s\<lparr>st_latest_justified :=
                          (st_latest_justified s)\<lparr>cp_root := bh_parent_root block\<rparr>,
                        st_latest_finalized :=
                          (st_latest_finalized s)\<lparr>cp_root := bh_parent_root block\<rparr>\<rparr>
                 else s);
            block_slot = bh_slot block;
            latest_slot = bh_slot (st_latest_block_header s);
            num_empty_slots = block_slot - latest_slot - 1
        in and_then (roots_push (lib_list L) HISTORICAL_ROOTS_LIMIT
                       (st_historical_block_hashes s) (bh_parent_root block)) (\<lambda>hist.
           and_then (if num_empty_slots > 0
                     then roots_extend_copy (lib_list L) HISTORICAL_ROOTS_LIMIT hist
                            (unat num_empty_slots) zero_root
                     else Inr hist) (\<lambda>hist.
           Inr (s\<lparr>st_historical_block_hashes := hist,
                  st_justified_slots := extend_justified_window (st_justified_slots s)
                    (cp_slot (st_latest_finalized s)) block_slot,
                  st_latest_block_header := block\<lparr>bh_state_root := zero_root\<rparr>\<rparr>))))"

definition process_block_header :: "ssz_lib \<Rightarrow> state \<Rightarrow> block_header \<Rightarrow> state result" where
  "process_block_header L s block =
     (if bh_slot block \<noteq> st_slot s then Inl (Err ''block slot does not match state slot'')
      else process_block_header_assuming_slot L s block)"

section \<open>Attestations\<close>

record att_ctx =
  ac_state :: state
  ac_votes :: "(bytes32, justification_votes) hmap option"
  ac_finalized :: slot

definition root_at :: "bytes32 list \<Rightarrow> nat \<Rightarrow> bytes32 \<Rightarrow> bool" where
  "root_at hist idx root = (if idx < length hist then hist ! idx = root else False)"

definition source_matches :: "state \<Rightarrow> attestation_data \<Rightarrow> bool" where
  "source_matches s d =
     root_at (st_historical_block_hashes s) (unat (cp_slot (ad_source d))) (cp_root (ad_source d))"

definition target_matches :: "state \<Rightarrow> bytes32 \<Rightarrow> attestation_data \<Rightarrow> bool" where
  "target_matches s latest_root d =
     (let target_slot_idx = unat (cp_slot (ad_target d)) in
      root_at (st_historical_block_hashes s) target_slot_idx (cp_root (ad_target d)) \<or>
      (target_slot_idx = length (st_historical_block_hashes s) \<and>
       cp_slot (ad_target d) = bh_slot (st_latest_block_header s) \<and>
       cp_root (ad_target d) = latest_root))"

definition retain_votes ::
    "(bytes32, slot) hmap \<Rightarrow> slot \<Rightarrow> (bytes32, justification_votes) hmap \<Rightarrow>
     (bytes32, justification_votes) hmap result" where
  "retain_votes root_to_slot finalized_slot votes_map =
     (if list_ex (\<lambda>(root, _). hm_get root_to_slot root = None) votes_map
      then Inl (Err ''justification root missing from root_to_slot'')
      else Inr (filter (\<lambda>(root, _). case hm_get root_to_slot root of
                  Some slot \<Rightarrow> slot > finalized_slot | None \<Rightarrow> False) votes_map))"

text \<open>The part of the loop body after the supermajority check: justify the target, and
  finalize the source when no justifiable slot lies between them.\<close>

definition justify_target ::
    "(bytes32, slot) hmap \<Rightarrow> attestation_data \<Rightarrow> (bytes32, justification_votes) hmap \<Rightarrow>
     state \<Rightarrow> slot \<Rightarrow> att_ctx result" where
  "justify_target root_to_slot d votes_map s finalized_slot =
     (let s = s\<lparr>st_latest_justified :=
              \<lparr>cp_root = cp_root (ad_target d), cp_slot = cp_slot (ad_target d)\<rparr>\<rparr>
      in and_then (set_justified_slot (st_justified_slots s) finalized_slot (cp_slot (ad_target d)))
           (\<lambda>justified.
         let s = s\<lparr>st_justified_slots := justified\<rparr>;
             votes_map = hm_remove (cp_root (ad_target d)) votes_map
         in if is_next_valid_justifiable_slot (cp_slot (ad_source d)) (cp_slot (ad_target d))
                 finalized_slot
            then
              let old_finalized = cp_slot (st_latest_finalized s);
                  s = s\<lparr>st_latest_finalized :=
                    \<lparr>cp_root = cp_root (ad_source d), cp_slot = cp_slot (ad_source d)\<rparr>\<rparr>;
                  delta = unat (cp_slot (st_latest_finalized s) - old_finalized);
                  s = s\<lparr>st_justified_slots := shift_justified_window (st_justified_slots s) delta\<rparr>;
                  finalized_slot = cp_slot (st_latest_finalized s)
              in and_then (retain_votes root_to_slot finalized_slot votes_map) (\<lambda>votes_map.
                 Inr \<lparr>ac_state = s, ac_votes = Some votes_map, ac_finalized = finalized_slot\<rparr>)
            else Inr \<lparr>ac_state = s, ac_votes = Some votes_map, ac_finalized = finalized_slot\<rparr>))"

definition process_attestation ::
    "nat \<Rightarrow> (bytes32, slot) hmap \<Rightarrow> bytes32 \<Rightarrow> att_ctx \<Rightarrow> attestation \<Rightarrow> att_ctx result" where
  "process_attestation total_validators root_to_slot latest_root ctx att =
     (let d = att_data att; s = ac_state ctx; finalized_slot = ac_finalized ctx in
      if cp_slot (ad_target d) \<le> cp_slot (ad_source d) then Inr ctx
      else if cp_root (ad_source d) = zero_root \<or> cp_root (ad_target d) = zero_root then Inr ctx
      else if \<not> source_matches s d then Inr ctx
      else if \<not> target_matches s latest_root d then Inr ctx
      else and_then (is_justifiable_after (cp_slot (ad_target d)) finalized_slot) (\<lambda>justifiable.
        if \<not> justifiable then Inr ctx
        else if is_slot_justified (st_justified_slots s) finalized_slot (cp_slot (ad_target d))
        then Inr ctx
        else if \<not> is_slot_justified (st_justified_slots s) finalized_slot (cp_slot (ad_source d))
        then Inr ctx
        else
          let votes_map = (case ac_votes ctx of
                Some m \<Rightarrow> m | None \<Rightarrow> decode_justification_votes s total_validators);
              votes = (case hm_get votes_map (cp_root (ad_target d)) of
                Some v \<Rightarrow> v | None \<Rightarrow> justification_votes_new total_validators)
          in and_then (merge_participant_votes_from_bits votes (att_bits att) total_validators)
               (\<lambda>votes.
             let votes_map = hm_insert (cp_root (ad_target d)) votes votes_map in
             if 3 * jv_count votes < 2 * total_validators
             then Inr (ctx\<lparr>ac_votes := Some votes_map\<rparr>)
             else justify_target root_to_slot d votes_map s finalized_slot)))"

fun process_attestation_loop ::
    "nat \<Rightarrow> (bytes32, slot) hmap \<Rightarrow> bytes32 \<Rightarrow> att_ctx \<Rightarrow> attestation list \<Rightarrow> att_ctx result" where
  "process_attestation_loop total_validators root_to_slot latest_root ctx [] = Inr ctx"
| "process_attestation_loop total_validators root_to_slot latest_root ctx (att # atts) =
     and_then (process_attestation total_validators root_to_slot latest_root ctx att)
       (\<lambda>ctx. process_attestation_loop total_validators root_to_slot latest_root ctx atts)"

definition root_slots :: "ssz_lib \<Rightarrow> state \<Rightarrow> (bytes32, slot) hmap" where
  "root_slots L s =
     (let root_to_slot = build_historical_root_slots (st_historical_block_hashes s);
          latest_root = block_header_root L (st_latest_block_header s)
      in if latest_root \<noteq> zero_root \<and> \<not> hm_contains root_to_slot latest_root
         then hm_insert latest_root (bh_slot (st_latest_block_header s)) root_to_slot
         else root_to_slot)"

definition process_attestations :: "ssz_lib \<Rightarrow> state \<Rightarrow> attestation list \<Rightarrow> state result" where
  "process_attestations L s attestations =
     (let total_validators = length (st_validators s) in
      if total_validators = 0 then Inr s
      else if list_ex (\<lambda>root. root = zero_root) (st_justifications_roots s)
      then Inl (Err ''zero hash is not allowed in justifications roots'')
      else
        and_then (process_attestation_loop total_validators (root_slots L s)
                    (block_header_root L (st_latest_block_header s))
                    \<lparr>ac_state = s, ac_votes = None,
                     ac_finalized = cp_slot (st_latest_finalized s)\<rparr> attestations) (\<lambda>ctx.
        case ac_votes ctx of
          None \<Rightarrow> Inr (ac_state ctx)
        | Some votes \<Rightarrow> encode_justification_votes L (ac_state ctx) votes total_validators))"

section \<open>Blocks\<close>

definition process_block_body :: "ssz_lib \<Rightarrow> state \<Rightarrow> block_body \<Rightarrow> bytes32 \<Rightarrow> state result" where
  "process_block_body L s body expected_root =
     (if expected_root \<noteq> block_body_root L body
      then Inl (Err ''block body root does not match header'')
      else process_attestations L s (bb_attestations body))"

definition process_block :: "ssz_lib \<Rightarrow> state \<Rightarrow> block \<Rightarrow> state result" where
  "process_block L s block =
     (let header = block_header_of L block in
      and_then (process_block_header L s header) (\<lambda>s.
      process_block_body L s (b_body block) (bh_body_root header)))"

definition state_transition_inner :: "ssz_lib \<Rightarrow> state \<Rightarrow> block \<Rightarrow> state result" where
  "state_transition_inner L s block =
     and_then (process_slots L s (b_slot block)) (\<lambda>s.
     let header = block_header_of L block in
     and_then (process_block_header_assuming_slot L s header) (\<lambda>s.
     if bh_body_root header \<noteq> block_body_root L (b_body block)
     then Inl (Err ''block body root does not match header'')
     else
       and_then (process_attestations L s (bb_attestations (b_body block))) (\<lambda>s.
       let computed_root = state_root L s in
       if computed_root \<noteq> b_state_root block
       then Inl (Err ''block state root does not match computed state root'')
       else Inr (s\<lparr>st_latest_block_header :=
                   (st_latest_block_header s)\<lparr>bh_state_root := computed_root\<rparr>\<rparr>))))"

section \<open>Signed blocks\<close>

definition noop_verify_signed_block :: "signed_block \<Rightarrow> state \<Rightarrow> unit result" where
  "noop_verify_signed_block sb s = Inr ()"

definition trailing_zeros :: "u8 \<Rightarrow> nat" where
  "trailing_zeros w = length (takeWhile (\<lambda>k. \<not> bit w k) [0..<8])"

text \<open>The inner loop of the verifier over the set bits of one byte; \<open>fuel\<close> bounds the number
  of iterations.\<close>

fun gather_byte ::
    "nat \<Rightarrow> validator list \<Rightarrow> nat \<Rightarrow> nat \<Rightarrow> u8 \<Rightarrow> bytes52 list \<Rightarrow> bytes52 list result" where
  "gather_byte 0 validators bit_len byte_idx remaining public_keys =
     (if remaining \<noteq> 0 then Inl Diverge else Inr public_keys)"
| "gather_byte (Suc fuel) validators bit_len byte_idx remaining public_keys =
     (if remaining \<noteq> 0
      then
        let k = trailing_zeros remaining; idx = byte_idx * 8 + k in
        if idx \<ge> bit_len then Inr public_keys
        else if idx < length validators
        then gather_byte fuel validators bit_len byte_idx (remaining AND (remaining - 1))
               (public_keys @ [v_pubkey (validators ! idx)])
        else Inl (Err ''validator index out of range'')
      else Inr public_keys)"

fun gather_bytes ::
    "validator list \<Rightarrow> nat \<Rightarrow> nat \<Rightarrow> u8 list \<Rightarrow> bytes52 list \<Rightarrow> bytes52 list result" where
  "gather_bytes validators bit_len byte_idx [] public_keys = Inr public_keys"
| "gather_bytes validators bit_len byte_idx (byte # bytes) public_keys =
     and_then (gather_byte 8 validators bit_len byte_idx byte public_keys)
       (\<lambda>public_keys. gather_bytes validators bit_len (Suc byte_idx) bytes public_keys)"

fun verify_attestation_proofs ::
    "ssz_lib \<Rightarrow> ('pk, 'sk, 'sig, 'agg) pq_lib \<Rightarrow> validator list \<Rightarrow>
     (attestation \<times> aggregated_signature_proof) list \<Rightarrow> unit result" where
  "verify_attestation_proofs L Q validators [] = Inr ()"
| "verify_attestation_proofs L Q validators ((att, proof) # rest) =
     and_then (gather_bytes validators (bl_len (att_bits att)) 0 (bl_data (att_bits att)) [])
       (\<lambda>public_keys.
     if public_keys = []
     then Inl (Err ''attestation aggregate participants must be non-empty'')
     else
       and_then (verify_aggregate_signature Q public_keys (attestation_data_root L (att_data att))
                   (ap_proof_data proof) (ucast (ad_slot (att_data att)))) (\<lambda>_.
       verify_attestation_proofs L Q validators rest))"

definition pq_verify_signed_block ::
    "ssz_lib \<Rightarrow> ('pk, 'sk, 'sig, 'agg) pq_lib \<Rightarrow> signed_block \<Rightarrow> state \<Rightarrow> unit result" where
  "pq_verify_signed_block L Q sb s =
     (let block = bwa_block (sb_message sb);
          attestations = bb_attestations (b_body block);
          proofs = bs_attestation_signatures (sb_signature sb)
      in if length attestations \<noteq> length proofs
         then Inl (ErrFmt ''attestation signatures count {} does not match attestations {}''
                     [length proofs, length attestations])
         else
           let validators = st_validators s in
           and_then (verify_attestation_proofs L Q validators (zip attestations proofs)) (\<lambda>_.
           let proposer_attestation = bwa_proposer_attestation (sb_message sb);
               proposer_idx = unat (b_proposer_index block)
           in if proposer_idx < length validators
              then verify_signature Q (v_pubkey (validators ! proposer_idx))
                     (ucast (ad_slot (att_data proposer_attestation)))
                     (attestation_data_root L (att_data proposer_attestation))
                     (bs_proposer_signature (sb_signature sb))
              else Inl (Err ''proposer index out of range'')))"

text \<open>The transition runs on a working copy: the result is the answer and the state that
  \<^verbatim>\<open>self\<close> holds afterwards.\<close>

definition process_signed_block_with_verifier ::
    "ssz_lib \<Rightarrow> (signed_block \<Rightarrow> state \<Rightarrow> unit result) \<Rightarrow> state \<Rightarrow> signed_block \<Rightarrow>
     unit result \<times> state" where
  "process_signed_block_with_verifier L verify s sb =
     (case and_then (validate_basic sb) (\<lambda>_. verify sb s) of
        Inl e \<Rightarrow> (Inl e, s)
      | Inr _ \<Rightarrow>
          (case state_transition_inner L s (bwa_block (sb_message sb)) of
             Inl e \<Rightarrow> (Inl e, s)
           | Inr working_state \<Rightarrow> (Inr (), working_state)))"

definition process_signed_block ::
    "ssz_lib \<Rightarrow> ('pk, 'sk, 'sig, 'agg) pq_lib \<Rightarrow> state \<Rightarrow> signed_block \<Rightarrow>
     unit result \<times> state" where
  "process_signed_block L Q s sb =
     process_signed_block_with_verifier L (pq_verify_signed_block L Q) s sb"

end
