(* ===== verification/VoteTally.thy ===== *)
theory VoteTally
  imports StateTransition
begin

text \<open>
  What \<^verbatim>\<open>process_attestations\<close> computes, stated on sets: a tally of the validators that voted
  for each target root, the set of justified slots and the two checkpoints. The bit fields
  of \<^verbatim>\<open>State\<close> refine the tally, and the safety properties of justification and finalization
  are proved on it.
\<close>

section \<open>The abstract tally\<close>

record tally =
  ta_justified :: checkpoint
  ta_finalized :: checkpoint
  ta_slots :: "nat set"
  ta_votes :: "bytes32 \<Rightarrow> nat set option"

definition votes_for :: "tally \<Rightarrow> bytes32 \<Rightarrow> nat set" where
  "votes_for T root = (case ta_votes T root of None \<Rightarrow> {} | Some S \<Rightarrow> S)"

definition tally_finalize ::
    "(bytes32 \<Rightarrow> slot option) \<Rightarrow> attestation_data \<Rightarrow> tally \<Rightarrow> tally result" where
  "tally_finalize slot_of d T =
     (if \<exists>root. ta_votes T root \<noteq> None \<and> slot_of root = None
      then Inl (Err ''justification root missing from root_to_slot'')
      else Inr (T\<lparr>ta_finalized := ad_source d,
                  ta_slots := {..unat (cp_slot (ad_source d))} \<union> ta_slots T,
                  ta_votes := (\<lambda>root. case slot_of root of
                    Some slot \<Rightarrow> if slot > cp_slot (ad_source d) then ta_votes T root else None
                  | None \<Rightarrow> None)\<rparr>))"

definition tally_justify ::
    "(bytes32 \<Rightarrow> slot option) \<Rightarrow> attestation_data \<Rightarrow> tally \<Rightarrow> tally result" where
  "tally_justify slot_of d T =
     (let f = cp_slot (ta_finalized T); target = cp_slot (ad_target d) in
      if HISTORICAL_ROOTS_LIMIT \<le> unat target - unat f - 1
      then Inl (Err ''justified slot exceeds limit'')
      else
        let T' = T\<lparr>ta_justified := ad_target d, ta_slots := insert (unat target) (ta_slots T),
                   ta_votes := (ta_votes T)(cp_root (ad_target d) := None)\<rparr>
        in if is_next_valid_justifiable_slot (cp_slot (ad_source d)) target f
           then tally_finalize slot_of d T' else Inr T')"

definition tally_step ::
    "nat \<Rightarrow> (bytes32 \<Rightarrow> slot option) \<Rightarrow> (attestation_data \<Rightarrow> bool) \<Rightarrow> tally \<Rightarrow> attestation \<Rightarrow>
     tally result" where
  "tally_step n slot_of admissible T att =
     (let d = att_data att in
      if \<not> admissible d then Inr T
      else and_then (is_justifiable_after (cp_slot (ad_target d)) (cp_slot (ta_finalized T)))
        (\<lambda>justifiable.
        if \<not> justifiable \<or> unat (cp_slot (ad_target d)) \<in> ta_slots T \<or>
           unat (cp_slot (ad_source d)) \<notin> ta_slots T
        then Inr T
        else
          let S = votes_for T (cp_root (ad_target d)) \<union> (bits_of (att_bits att) \<inter> {..<n}) in
          if 3 * card S < 2 * n
          then Inr (T\<lparr>ta_votes := (ta_votes T)(cp_root (ad_target d) \<mapsto> S)\<rparr>)
          else tally_justify slot_of d T))"

fun tally_run ::
    "nat \<Rightarrow> (bytes32 \<Rightarrow> slot option) \<Rightarrow> (attestation_data \<Rightarrow> bool) \<Rightarrow> tally \<Rightarrow> attestation list \<Rightarrow>
     tally result" where
  "tally_run n slot_of admissible T [] = Inr T"
| "tally_run n slot_of admissible T (att # atts) =
     and_then (tally_step n slot_of admissible T att)
       (\<lambda>T. tally_run n slot_of admissible T atts)"

text \<open>The checks that depend only on the block history.\<close>

definition admissible :: "state \<Rightarrow> bytes32 \<Rightarrow> attestation_data \<Rightarrow> bool" where
  "admissible s latest_root d \<longleftrightarrow> cp_slot (ad_source d) < cp_slot (ad_target d) \<and>
     cp_root (ad_source d) \<noteq> zero_root \<and> cp_root (ad_target d) \<noteq> zero_root \<and>
     source_matches s d \<and> target_matches s latest_root d"

section \<open>The bit fields refine the tally\<close>

definition ctx_votes :: "nat \<Rightarrow> att_ctx \<Rightarrow> (bytes32, justification_votes) hmap" where
  "ctx_votes n ctx =
     (case ac_votes ctx of Some m \<Rightarrow> m | None \<Rightarrow> decode_justification_votes (ac_state ctx) n)"

definition tally_of :: "nat \<Rightarrow> att_ctx \<Rightarrow> tally" where
  "tally_of n ctx =
     \<lparr>ta_justified = st_latest_justified (ac_state ctx),
      ta_finalized = st_latest_finalized (ac_state ctx),
      ta_slots = window_slots (st_justified_slots (ac_state ctx)) (ac_finalized ctx),
      ta_votes = (\<lambda>root. map_option jv_set (hm_get (ctx_votes n ctx) root))\<rparr>"

definition ctx_inv :: "nat \<Rightarrow> att_ctx \<Rightarrow> bool" where
  "ctx_inv n ctx \<longleftrightarrow> window_inv (st_justified_slots (ac_state ctx)) \<and>
     ac_finalized ctx = cp_slot (st_latest_finalized (ac_state ctx)) \<and>
     (\<forall>m. ac_votes ctx = Some m \<longrightarrow> votes_map_inv n m)"

lemma ctx_votes_inv: "ctx_inv n ctx \<Longrightarrow> votes_map_inv n (ctx_votes n ctx)"
  by (simp add: ctx_inv_def ctx_votes_def decode_justification_votes_inv split: option.splits)

text \<open>Fields that attestations never change.\<close>

definition same_chain :: "state \<Rightarrow> state \<Rightarrow> bool" where
  "same_chain s s' \<longleftrightarrow> st_config s' = st_config s \<and> st_slot s' = st_slot s \<and>
     st_latest_block_header s' = st_latest_block_header s \<and>
     st_historical_block_hashes s' = st_historical_block_hashes s \<and>
     st_validators s' = st_validators s"

lemma same_chain_refl [simp]: "same_chain s s"
  by (simp add: same_chain_def)

lemma same_chain_trans: "same_chain s t \<Longrightarrow> same_chain t u \<Longrightarrow> same_chain s u"
  by (simp add: same_chain_def)

lemma admissible_same_chain: "same_chain s s' \<Longrightarrow> admissible s' r d = admissible s r d"
  by (simp add: admissible_def source_matches_def target_matches_def same_chain_def)

lemma cp_eta [simp]: "\<lparr>cp_root = cp_root c, cp_slot = cp_slot c\<rparr> = (c :: checkpoint)"
  by simp

lemma length_update_le: "length (AList.update k v m) \<le> Suc (length m)"
  by (induction m) auto

lemma retain_votes_spec:
  assumes "votes_map_inv n m"
  shows "if \<exists>root. hm_get m root \<noteq> None \<and> hm_get rts root = None
    then retain_votes rts f m = Inl (Err ''justification root missing from root_to_slot'')
    else \<exists>m'. retain_votes rts f m = Inr m' \<and> votes_map_inv n m' \<and> length m' \<le> length m \<and>
      (\<forall>root. hm_get m' root = (case hm_get rts root of
         Some slot \<Rightarrow> if slot > f then hm_get m root else None | None \<Rightarrow> None))"
proof -
  let ?P = "\<lambda>root. case hm_get rts root of Some slot \<Rightarrow> slot > f | None \<Rightarrow> False"
  have ex: "list_ex (\<lambda>(root, _). hm_get rts root = None) m \<longleftrightarrow>
      (\<exists>root. hm_get m root \<noteq> None \<and> hm_get rts root = None)"
    by (force simp: list_ex_iff map_of_eq_None_iff)
  have "votes_map_inv n (filter (\<lambda>(root, _). ?P root) m)"
    using assms by (rule votes_map_inv_filter)
  moreover have "hm_get (filter (\<lambda>(root, _). ?P root) m) root =
      (case hm_get rts root of Some slot \<Rightarrow> if slot > f then hm_get m root else None | None \<Rightarrow> None)" for root
    by (simp add: map_of_filter_fst split: option.splits)
  ultimately show ?thesis unfolding retain_votes_def ex by auto
qed

text \<open>Justifying a target: the window gains the slot; with finalization it moves to the source.\<close>

lemma set_target_justified:
  assumes "window_inv w" "f < t"
  obtains (limit) "HISTORICAL_ROOTS_LIMIT \<le> unat t - unat f - 1"
      "set_justified_slot w f t = Inl (Err ''justified slot exceeds limit'')"
  | (ok) w' where "\<not> HISTORICAL_ROOTS_LIMIT \<le> unat t - unat f - 1" "set_justified_slot w f t = Inr w'"
      "window_inv w'" "window_slots w' f = insert (unat t) (window_slots w f)"
proof (cases "HISTORICAL_ROOTS_LIMIT \<le> unat t - unat f - 1")
  case True
  then show thesis using limit assms(2) by (simp add: set_justified_slot_eq unat_gap)
next
  case False
  then obtain w' where w': "set_justified_slot w f t = Inr w'"
    using assms(2) by (simp add: set_justified_slot_eq unat_gap Let_def)
  then show thesis using ok False set_justified_slot_slots [OF assms w'] by blast
qed

text \<open>Finalizing the source after the target was justified, on the votes \<open>m\<close> that remain.\<close>

lemma finalize_source_refines:
  fixes m :: "(bytes32, justification_votes) hmap"
  assumes m: "votes_map_inv n m"
    and w: "window_slots w (cp_slot (ad_source d)) = {..unat (cp_slot (ad_source d))} \<union> S"
    and T: "ta_justified T = st_latest_justified s" "ta_slots T = S"
      "ta_votes T = (\<lambda>root. map_option jv_set (hm_get m root))"
  defines "s' \<equiv> s\<lparr>st_latest_finalized := ad_source d, st_justified_slots := w\<rparr>"
  shows "and_then (retain_votes rts (cp_slot (ad_source d)) m) (\<lambda>m. Inr (tally_of n
      \<lparr>ac_state = s', ac_votes = Some m, ac_finalized = cp_slot (ad_source d)\<rparr>)) =
      tally_finalize (hm_get rts) d T"
proof (cases "\<exists>root. hm_get m root \<noteq> None \<and> hm_get rts root = None")
  case True
  then have "retain_votes rts (cp_slot (ad_source d)) m =
      Inl (Err ''justification root missing from root_to_slot'')"
    using retain_votes_spec [OF m, of rts "cp_slot (ad_source d)"] by (simp only: if_True)
  with True show ?thesis by (auto simp: tally_finalize_def T)
next
  case False
  then obtain m' where m': "retain_votes rts (cp_slot (ad_source d)) m = Inr m'"
    "\<And>root. hm_get m' root = (case hm_get rts root of
       Some slot \<Rightarrow> if slot > cp_slot (ad_source d) then hm_get m root else None | None \<Rightarrow> None)"
    using retain_votes_spec [OF m, of rts "cp_slot (ad_source d)"] unfolding if_not_P [OF False]
    by blast
  have "map_option jv_set (hm_get m' root) = (case hm_get rts root of
      Some slot \<Rightarrow> if slot > cp_slot (ad_source d) then ta_votes T root else None
    | None \<Rightarrow> None)" for root
    by (simp add: m'(2) T(3) split: option.splits)
  then have "tally_of n \<lparr>ac_state = s', ac_votes = Some m', ac_finalized = cp_slot (ad_source d)\<rparr> =
      T\<lparr>ta_finalized := ad_source d, ta_slots := {..unat (cp_slot (ad_source d))} \<union> ta_slots T,
        ta_votes := (\<lambda>root. case hm_get rts root of
          Some slot \<Rightarrow> if slot > cp_slot (ad_source d) then ta_votes T root else None
        | None \<Rightarrow> None)\<rparr>"
    by (intro tally.equality) (simp_all add: tally_of_def ctx_votes_def s'_def T(1,2) w)
  moreover have "\<not> (\<exists>root. ta_votes T root \<noteq> None \<and> hm_get rts root = None)"
    using False by (simp add: T(3))
  ultimately show ?thesis
    unfolding m'(1) and_then_simps tally_finalize_def by (simp only: if_False)
qed

lemma retain_votes_inv:
  "votes_map_inv n m \<Longrightarrow> retain_votes rts f m = Inr m' \<Longrightarrow> votes_map_inv n m' \<and> length m' \<le> length m"
  by (auto simp: retain_votes_def votes_map_inv_filter length_filter_le split: if_splits)

lemma justify_target_refines:
  assumes inv: "window_inv (st_justified_slots s)" "votes_map_inv n m"
    and f: "f = cp_slot (st_latest_finalized s)" "f < cp_slot (ad_target d)"
  shows "and_then (justify_target rts d m s f) (\<lambda>c. Inr (tally_of n c)) =
      tally_justify (hm_get rts) d (tally_of n \<lparr>ac_state = s, ac_votes = Some m, ac_finalized = f\<rparr>) \<and>
    (\<forall>ctx'. justify_target rts d m s f = Inr ctx' \<longrightarrow>
      ctx_inv n ctx' \<and> same_chain s (ac_state ctx') \<and> length (ctx_votes n ctx') \<le> length m)"
  using inv(1) f(2)
proof (cases rule: set_target_justified)
  case limit
  then show ?thesis
    by (simp add: justify_target_def tally_justify_def tally_of_def Let_def flip: f(1))
next
  case (ok w')
  let ?m = "hm_remove (cp_root (ad_target d)) m"
  let ?s = "s\<lparr>st_latest_justified := ad_target d, st_justified_slots := w'\<rparr>"
  have m: "votes_map_inv n ?m" using inv(2) by (rule votes_map_inv_remove)
  have len: "length ?m \<le> length m" by (rule length_delete_le)
  have votes: "(\<lambda>root. map_option jv_set (hm_get m root))(cp_root (ad_target d) := None) =
      (\<lambda>root. map_option jv_set (hm_get ?m root))" by (simp add: fun_eq_iff)
  show ?thesis
  proof (cases "is_next_valid_justifiable_slot (cp_slot (ad_source d)) (cp_slot (ad_target d)) f")
    case False
    then have "justify_target rts d m s f =
        Inr \<lparr>ac_state = ?s, ac_votes = Some ?m, ac_finalized = f\<rparr>"
      using ok by (simp add: justify_target_def Let_def)
    with False ok m len f(1) votes show ?thesis
      by (simp add: tally_justify_def tally_of_def ctx_votes_def ctx_inv_def same_chain_def Let_def)
  next
    case True
    have le: "f \<le> cp_slot (ad_source d)" using True f(2) by (rule finalizable_source_above)
    let ?w = "shift_justified_window w' (unat (cp_slot (ad_source d) - f))"
    have w: "window_inv ?w" "window_slots ?w (cp_slot (ad_source d)) =
        {..unat (cp_slot (ad_source d))} \<union> insert (unat (cp_slot (ad_target d)))
          (window_slots (st_justified_slots s) f)"
      using justified_window.justify_and_finalize [OF inv(1) f(2) ok(2) le] by simp_all
    have jt: "justify_target rts d m s f = and_then (retain_votes rts (cp_slot (ad_source d)) ?m)
        (\<lambda>m. Inr \<lparr>ac_state = ?s\<lparr>st_latest_finalized := ad_source d, st_justified_slots := ?w\<rparr>,
          ac_votes = Some m, ac_finalized = cp_slot (ad_source d)\<rparr>)"
      using ok True f(1) by (simp add: justify_target_def Let_def)
    have "and_then (justify_target rts d m s f) (\<lambda>c. Inr (tally_of n c)) =
      tally_justify (hm_get rts) d (tally_of n \<lparr>ac_state = s, ac_votes = Some m, ac_finalized = f\<rparr>)"
      unfolding jt and_then_assoc and_then_simps
      by (subst finalize_source_refines [OF m w(2)])
        (use ok True f(1) votes in \<open>simp_all add: tally_justify_def tally_of_def ctx_votes_def Let_def\<close>)
    moreover have "retain_votes rts x ?m = Inr m' \<Longrightarrow> votes_map_inv n m' \<and> length m' \<le> length m" for x m'
      using retain_votes_inv [OF m] len by (meson order_trans)
    ultimately show ?thesis using w(1) unfolding jt
      by (auto simp: result_simps ctx_inv_def same_chain_def ctx_votes_def)
  qed
qed

lemma tally_of_insert:
  "tally_of n (ctx\<lparr>ac_votes := Some (hm_insert root v (ctx_votes n ctx))\<rparr>) =
     (tally_of n ctx)\<lparr>ta_votes := (ta_votes (tally_of n ctx))(root \<mapsto> jv_set v)\<rparr>"
  by (rule tally.equality) (simp_all add: tally_of_def ctx_votes_def fun_eq_iff)

lemma tally_justify_update:
  "tally_justify slot_of d (T\<lparr>ta_votes := (ta_votes T)(cp_root (ad_target d) \<mapsto> S)\<rparr>) =
     tally_justify slot_of d T"
  by (simp add: tally_justify_def Let_def)

lemma process_attestation_skip:
  "\<not> admissible (ac_state ctx) lr (att_data att) \<Longrightarrow> process_attestation n rts lr ctx att = Inr ctx"
  by (auto simp: process_attestation_def admissible_def Let_def not_less)

lemma process_attestation_vote:
  assumes "admissible (ac_state ctx) lr (att_data att)" "ctx_inv n ctx"
  defines "T \<equiv> tally_of n ctx" and "d \<equiv> att_data att"
  shows "process_attestation n rts lr ctx att =
    and_then (is_justifiable_after (cp_slot (ad_target d)) (cp_slot (ta_finalized T))) (\<lambda>justifiable.
      if \<not> justifiable \<or> unat (cp_slot (ad_target d)) \<in> ta_slots T \<or>
         unat (cp_slot (ad_source d)) \<notin> ta_slots T
      then Inr ctx
      else
        and_then (merge_participant_votes_from_bits
            (case hm_get (ctx_votes n ctx) (cp_root (ad_target d)) of
               Some v \<Rightarrow> v | None \<Rightarrow> justification_votes_new n) (att_bits att) n) (\<lambda>v.
        let m = hm_insert (cp_root (ad_target d)) v (ctx_votes n ctx) in
        if 3 * jv_count v < 2 * n then Inr (ctx\<lparr>ac_votes := Some m\<rparr>)
        else justify_target rts d m (ac_state ctx) (ac_finalized ctx)))"
proof -
  have fin: "ac_finalized ctx = cp_slot (ta_finalized T)"
    and slots: "is_slot_justified (st_justified_slots (ac_state ctx)) (cp_slot (ta_finalized T)) x \<longleftrightarrow>
      unat x \<in> ta_slots T" for x
    using assms(2) by (simp_all add: T_def tally_of_def ctx_inv_def is_slot_justified_iff)
  have adm: "(cp_slot (ad_target d) \<le> cp_slot (ad_source d)) = False"
    "(cp_root (ad_source d) = zero_root) = False" "(cp_root (ad_target d) = zero_root) = False"
    "source_matches (ac_state ctx) d = True" "target_matches (ac_state ctx) lr d = True"
    using assms(1) by (simp_all add: admissible_def d_def not_le)
  show ?thesis
    unfolding process_attestation_def Let_def d_def [symmetric] fin slots adm ctx_votes_def
    by (simp only: simp_thms if_False) (rule and_then_cong [OF refl], simp)
qed

lemma unjustified_above:
  "unat t \<notin> ta_slots (tally_of n ctx) \<Longrightarrow> ac_finalized ctx < t"
  by (simp add: tally_of_def window_slots_iff word_less_nat_alt)

lemma merged_vote:
  fixes att :: attestation
  assumes "ctx_inv n ctx"
  defines "T \<equiv> tally_of n ctx" and "root \<equiv> cp_root (ad_target (att_data att))"
  obtains v where
    "merge_participant_votes_from_bits (case hm_get (ctx_votes n ctx) root of
       Some v \<Rightarrow> v | None \<Rightarrow> justification_votes_new n) (att_bits att) n = Inr v"
    "jv_set v = votes_for T root \<union> (bits_of (att_bits att) \<inter> {..<n})" "jv_count v = card (jv_set v)"
    "votes_map_inv n (hm_insert root v (ctx_votes n ctx))"
proof -
  let ?v0 = "case hm_get (ctx_votes n ctx) root of Some v \<Rightarrow> v | None \<Rightarrow> justification_votes_new n"
  have m: "votes_map_inv n (ctx_votes n ctx)" using assms(1) by (rule ctx_votes_inv)
  then have v0: "votes_inv n ?v0" "jv_set ?v0 = votes_for T root"
    by (auto simp: votes_map_inv_def votes_for_def T_def tally_of_def split: option.splits)
  obtain v where "merge_participant_votes_from_bits ?v0 (att_bits att) n = Inr v" "votes_inv n v"
    "jv_set v = jv_set ?v0 \<union> (bits_of (att_bits att) \<inter> {..<n})"
    using merge_participant_votes_set [OF v0(1), of "att_bits att"] by blast
  then show thesis using that m v0(2) votes_map_inv_insert [OF m] by (simp add: votes_inv_def)
qed

lemma process_attestation_refines:
  assumes inv: "ctx_inv n ctx"
  shows "and_then (process_attestation n rts lr ctx att) (\<lambda>c. Inr (tally_of n c)) =
      tally_step n (hm_get rts) (admissible (ac_state ctx) lr) (tally_of n ctx) att \<and>
    (\<forall>ctx'. process_attestation n rts lr ctx att = Inr ctx' \<longrightarrow> ctx_inv n ctx' \<and>
      same_chain (ac_state ctx) (ac_state ctx') \<and> length (ctx_votes n ctx') \<le> Suc (length (ctx_votes n ctx)))"
proof (cases "admissible (ac_state ctx) lr (att_data att)")
  case False
  then show ?thesis using inv by (auto simp: process_attestation_skip tally_step_def)
next
  case adm: True
  define d where "d = att_data att"
  define T where "T = tally_of n ctx"
  note vote = process_attestation_vote [OF adm inv, of rts, folded d_def T_def]
  show ?thesis
  proof (cases "is_justifiable_after (cp_slot (ad_target d)) (cp_slot (ta_finalized T)) = Inr True \<and>
      unat (cp_slot (ad_target d)) \<notin> ta_slots T \<and> unat (cp_slot (ad_source d)) \<in> ta_slots T")
    case False
    then show ?thesis
      using adm inv
      by (cases "is_justifiable_after (cp_slot (ad_target d)) (cp_slot (ta_finalized T))")
        (auto simp: vote tally_step_def T_def [symmetric] d_def [symmetric])
  next
    case el: True
    obtain v where v: "merge_participant_votes_from_bits (case hm_get (ctx_votes n ctx) (cp_root (ad_target d)) of
         Some v \<Rightarrow> v | None \<Rightarrow> justification_votes_new n) (att_bits att) n = Inr v"
      "jv_set v = votes_for T (cp_root (ad_target d)) \<union> (bits_of (att_bits att) \<inter> {..<n})"
      "jv_count v = card (jv_set v)"
      and inv_m: "votes_map_inv n (hm_insert (cp_root (ad_target d)) v (ctx_votes n ctx))"
      using merged_vote [OF inv, of att] unfolding d_def T_def by blast
    define m where "m = hm_insert (cp_root (ad_target d)) v (ctx_votes n ctx)"
    have len: "length m \<le> Suc (length (ctx_votes n ctx))" unfolding m_def by (rule length_update_le)
    have pa: "process_attestation n rts lr ctx att =
        (if 3 * jv_count v < 2 * n then Inr (ctx\<lparr>ac_votes := Some m\<rparr>)
         else justify_target rts d m (ac_state ctx) (ac_finalized ctx))"
      using el v(1) by (simp add: vote m_def [symmetric] Let_def)
    have ts: "tally_step n (hm_get rts) (admissible (ac_state ctx) lr) T att =
        (if 3 * jv_count v < 2 * n
         then Inr (T\<lparr>ta_votes := (ta_votes T)(cp_root (ad_target d) \<mapsto> jv_set v)\<rparr>)
         else tally_justify (hm_get rts) d T)"
      using el adm by (simp add: tally_step_def d_def [symmetric] v(2,3) Let_def)
    show ?thesis
    proof (cases "3 * jv_count v < 2 * n")
      case True
      have "tally_of n (ctx\<lparr>ac_votes := Some m\<rparr>) =
          T\<lparr>ta_votes := (ta_votes T)(cp_root (ad_target d) \<mapsto> jv_set v)\<rparr>"
        unfolding T_def m_def by (rule tally_of_insert)
      moreover have "ctx_inv n (ctx\<lparr>ac_votes := Some m\<rparr>)" "ctx_votes n (ctx\<lparr>ac_votes := Some m\<rparr>) = m"
        using inv inv_m by (simp_all add: ctx_inv_def ctx_votes_def m_def)
      ultimately show ?thesis
        using True len unfolding pa T_def [symmetric] ts by simp
    next
      case False
      have above: "ac_finalized ctx < cp_slot (ad_target d)"
        using el unfolding T_def by (blast intro: unjustified_above)
      have same: "tally_justify (hm_get rts) d (tally_of n \<lparr>ac_state = ac_state ctx, ac_votes = Some m,
            ac_finalized = ac_finalized ctx\<rparr>) = tally_justify (hm_get rts) d T"
      proof -
        have "tally_of n \<lparr>ac_state = ac_state ctx, ac_votes = Some m, ac_finalized = ac_finalized ctx\<rparr> =
            tally_of n (ctx\<lparr>ac_votes := Some m\<rparr>)" by (simp add: tally_of_def ctx_votes_def)
        also have "\<dots> = T\<lparr>ta_votes := (ta_votes T)(cp_root (ad_target d) \<mapsto> jv_set v)\<rparr>"
          unfolding m_def T_def by (rule tally_of_insert)
        finally show ?thesis by (simp only: tally_justify_update)
      qed
      show ?thesis
        using justify_target_refines [of "ac_state ctx" n m "ac_finalized ctx" d rts] inv inv_m above
          False len
        unfolding pa T_def [symmetric] ts same m_def [symmetric]
        by (auto simp: ctx_inv_def intro: order_trans)
    qed
  qed
qed

lemma process_attestation_loop_refines:
  assumes "ctx_inv n ctx" "same_chain s (ac_state ctx)"
  shows "and_then (process_attestation_loop n rts lr ctx atts) (\<lambda>c. Inr (tally_of n c)) =
      tally_run n (hm_get rts) (admissible s lr) (tally_of n ctx) atts \<and>
    (\<forall>ctx'. process_attestation_loop n rts lr ctx atts = Inr ctx' \<longrightarrow> ctx_inv n ctx' \<and>
      same_chain s (ac_state ctx') \<and> length (ctx_votes n ctx') \<le> length (ctx_votes n ctx) + length atts)"
  using assms
proof (induction atts arbitrary: ctx)
  case (Cons att atts)
  have adm: "admissible (ac_state ctx) lr = admissible s lr"
    using Cons.prems(2) by (simp add: admissible_same_chain fun_eq_iff)
  note step = process_attestation_refines [OF Cons.prems(1), of rts lr att, unfolded adm]
  show ?case
  proof (cases "process_attestation n rts lr ctx att")
    case (Inl e)
    then have "tally_step n (hm_get rts) (admissible s lr) (tally_of n ctx) att = Inl e"
      using step [THEN conjunct1] by simp
    then show ?thesis by (simp add: Inl)
  next
    case (Inr ctx1)
    then have T1: "tally_step n (hm_get rts) (admissible s lr) (tally_of n ctx) att = Inr (tally_of n ctx1)"
      and inv: "ctx_inv n ctx1" "same_chain (ac_state ctx) (ac_state ctx1)"
        "length (ctx_votes n ctx1) \<le> Suc (length (ctx_votes n ctx))"
      using step by auto
    have "same_chain s (ac_state ctx1)" using Cons.prems(2) inv(2) by (rule same_chain_trans)
    from Cons.IH [OF inv(1) this] show ?thesis using inv(3) by (auto simp: Inr T1)
  qed
qed simp

definition tally_of_state :: "state \<Rightarrow> tally" where
  "tally_of_state s = tally_of (length (st_validators s))
     \<lparr>ac_state = s, ac_votes = None, ac_finalized = cp_slot (st_latest_finalized s)\<rparr>"

definition admissible_in :: "ssz_lib \<Rightarrow> state \<Rightarrow> attestation_data \<Rightarrow> bool" where
  "admissible_in L s = admissible s (block_header_root L (st_latest_block_header s))"

lemma encode_success_fits:
  assumes "list_ops_bounded L" "encode_justification_votes L s m n = Inr s'"
  shows "length m * n \<le> JUSTIFICATION_VALIDATORS_LIMIT \<and> length m \<le> HISTORICAL_ROOTS_LIMIT"
proof (cases "roots_new (lib_list L) HISTORICAL_ROOTS_LIMIT (sort (map fst m))")
  case (Inl e)
  then show ?thesis
    using assms(2) by (auto simp: encode_justification_votes_def Let_def result_simps split: if_splits)
next
  case (Inr roots)
  then have "length m \<le> HISTORICAL_ROOTS_LIMIT" by (simp add: list_ops_Inr [OF assms(1)])
  then show ?thesis
    using assms(2) by (auto simp: encode_justification_votes_def Let_def result_simps split: if_splits)
qed

lemma stored_tally:
  assumes L: "list_ops_bounded L" and n: "0 < n" "n = length (st_validators (ac_state ctx))"
    and inv: "ctx_inv n ctx"
    and s': "(case ac_votes ctx of None \<Rightarrow> Inr (ac_state ctx)
      | Some votes \<Rightarrow> encode_justification_votes L (ac_state ctx) votes n) = Inr s'"
  shows "tally_of_state s' = tally_of n ctx \<and> same_chain (ac_state ctx) s' \<and>
    st_justified_slots s' = st_justified_slots (ac_state ctx) \<and>
    st_latest_finalized s' = st_latest_finalized (ac_state ctx)"
proof (cases "ac_votes ctx")
  case None
  then show ?thesis using s' n inv by (simp add: tally_of_state_def tally_of_def ctx_votes_def ctx_inv_def)
next
  case (Some m)
  have m: "votes_map_inv n m" using inv Some by (simp add: ctx_inv_def)
  have enc: "encode_justification_votes L (ac_state ctx) m n = Inr s'" using s' Some by simp
  note fits = encode_success_fits [OF L enc, THEN conjunct1] encode_success_fits [OF L enc, THEN conjunct2]
  obtain roots flat where s': "s' = (ac_state ctx)\<lparr>st_justifications_roots := roots,
      st_justifications_validators := flat\<rparr>"
    and get: "hm_get (decode_justification_votes s' n) = hm_get m"
    using encode_decode_votes [OF L n(1) m fits, of "ac_state ctx"] enc by (metis sum.inject(2))
  have "tally_of_state s' = tally_of n ctx"
    using get inv n(2) Some unfolding tally_of_state_def tally_of_def ctx_votes_def
    by (simp add: s' ctx_inv_def)
  then show ?thesis by (simp add: s' same_chain_def)
qed

lemma process_attestations_refines:
  assumes L: "list_ops_bounded L" and w: "window_inv (st_justified_slots s)"
    and n: "n = length (st_validators s)" "0 < n"
    and ok: "process_attestations L s atts = Inr s'"
  shows "tally_run n (hm_get (root_slots L s)) (admissible_in L s) (tally_of_state s) atts =
      Inr (tally_of_state s') \<and> same_chain s s' \<and> window_inv (st_justified_slots s')"
proof -
  let ?ctx = "\<lparr>ac_state = s, ac_votes = None, ac_finalized = cp_slot (st_latest_finalized s)\<rparr>"
  have inv: "ctx_inv n ?ctx" using w by (simp add: ctx_inv_def)
  obtain ctx' where loop: "process_attestation_loop n (root_slots L s)
      (block_header_root L (st_latest_block_header s)) ?ctx atts = Inr ctx'"
    and s': "(case ac_votes ctx' of None \<Rightarrow> Inr (ac_state ctx')
      | Some votes \<Rightarrow> encode_justification_votes L (ac_state ctx') votes n) = Inr s'"
    using ok n by (auto simp: process_attestations_def Let_def result_simps split: if_splits)
  have ref: "tally_run n (hm_get (root_slots L s)) (admissible_in L s) (tally_of n ?ctx) atts =
      Inr (tally_of n ctx')" "ctx_inv n ctx'" "same_chain s (ac_state ctx')"
    using process_attestation_loop_refines [OF inv, of s "root_slots L s" "block_header_root L (st_latest_block_header s)" atts]
    by (auto simp: loop admissible_in_def)
  have "n = length (st_validators (ac_state ctx'))" using ref(3) n(1) by (simp add: same_chain_def)
  then have st: "tally_of_state s' = tally_of n ctx'" "same_chain (ac_state ctx') s'"
    "st_justified_slots s' = st_justified_slots (ac_state ctx')"
    using stored_tally [OF L n(2) _ ref(2) s'] by simp_all
  then show ?thesis
    using ref n(1) by (auto simp: tally_of_state_def ctx_inv_def intro: same_chain_trans)
qed

end
