(* ===== verification/Finality.thy ===== *)
theory Finality
  imports VoteTally
begin

text \<open>
  Safety of justification and finalization in \<^verbatim>\<open>process_attestations\<close>: proved on the vote
  tally and carried over to the state by refinement.
\<close>

section \<open>Steps of the tally\<close>

definition tally_wf :: "nat \<Rightarrow> tally \<Rightarrow> bool" where
  "tally_wf n T \<longleftrightarrow> {..unat (cp_slot (ta_finalized T))} \<subseteq> ta_slots T \<and> (\<forall>r. votes_for T r \<subseteq> {..<n})"

definition ballot :: "nat \<Rightarrow> bytes32 \<Rightarrow> attestation \<Rightarrow> nat set" where
  "ballot n root att =
     (if cp_root (ad_target (att_data att)) = root then bits_of (att_bits att) \<inter> {..<n} else {})"

definition ballots :: "nat \<Rightarrow> bytes32 \<Rightarrow> attestation list \<Rightarrow> nat set" where
  "ballots n root atts = (\<Union>att \<in> set atts. ballot n root att)"

definition supported :: "nat \<Rightarrow> tally \<Rightarrow> attestation list \<Rightarrow> bytes32 \<Rightarrow> bool" where
  "supported n T atts root \<longleftrightarrow> 2 * n \<le> 3 * card (votes_for T root \<union> ballots n root atts)"

lemma ballots_simps [simp]:
  "ballots n root [] = {}" "ballots n root (att # atts) = ballot n root att \<union> ballots n root atts"
  by (simp_all add: ballots_def)

lemma ballots_subset: "ballots n root atts \<subseteq> {..<n}"
  by (auto simp: ballots_def ballot_def split: if_splits)

lemma supported_mono:
  assumes "tally_wf n T" "supported n U as root"
    and sub: "votes_for U root \<union> ballots n root as \<subseteq> votes_for T root \<union> ballots n root atts"
  shows "supported n T atts root"
proof -
  have "finite (votes_for T root \<union> ballots n root atts)"
    using assms(1) ballots_subset [of n root atts] finite_subset [OF _ finite_lessThan [of n]]
    by (auto simp: tally_wf_def)
  then have "card (votes_for U root \<union> ballots n root as) \<le>
      card (votes_for T root \<union> ballots n root atts)"
    using sub by (rule card_mono)
  then show ?thesis using assms(2) by (simp add: supported_def)
qed

lemma tally_step_cases:
  assumes step: "tally_step n slot_of adm T att = Inr T'" and wf: "tally_wf n T"
  obtains (skip) "T' = T"
  | (vote) "adm (att_data att)"
      "T' = T\<lparr>ta_votes := (ta_votes T)(cp_root (ad_target (att_data att)) \<mapsto>
         votes_for T (cp_root (ad_target (att_data att))) \<union> (bits_of (att_bits att) \<inter> {..<n}))\<rparr>"
  | (justify) "adm (att_data att)" "supported n T [att] (cp_root (ad_target (att_data att)))"
      "unat (cp_slot (ad_source (att_data att))) \<in> ta_slots T"
      "cp_slot (ta_finalized T) < cp_slot (ad_target (att_data att))"
      "tally_justify slot_of (att_data att) T = Inr T'"
proof -
  let ?d = "att_data att"
  let ?S = "votes_for T (cp_root (ad_target ?d)) \<union> (bits_of (att_bits att) \<inter> {..<n})"
  have S: "?S = votes_for T (cp_root (ad_target ?d)) \<union> ballots n (cp_root (ad_target ?d)) [att]"
    by (simp add: ballot_def)
  show thesis
  proof (cases "adm ?d \<and> T' \<noteq> T")
    case False
    then show thesis using step skip by (auto simp: tally_step_def)
  next
    case True
    then obtain e: "unat (cp_slot (ad_target ?d)) \<notin> ta_slots T"
      "unat (cp_slot (ad_source ?d)) \<in> ta_slots T"
      "(if 3 * card ?S < 2 * n
        then Inr (T\<lparr>ta_votes := (ta_votes T)(cp_root (ad_target ?d) \<mapsto> ?S)\<rparr>)
        else tally_justify slot_of ?d T) = Inr T'"
      using step by (auto simp: tally_step_def Let_def result_simps split: if_splits)
    have above: "cp_slot (ta_finalized T) < cp_slot (ad_target ?d)"
      using e(1) wf by (auto simp: tally_wf_def word_less_nat_alt not_less [symmetric])
    show thesis
    proof (cases "3 * card ?S < 2 * n")
      case 3: True
      then show thesis using e(3) True by (intro vote) simp_all
    next
      case 3: False
      then show thesis using e above True by (intro justify) (simp_all add: supported_def S)
    qed
  qed
qed

text \<open>Justification alone, and justification with finalization of the source.\<close>

lemma tally_justify_cases:
  assumes "tally_justify slot_of d T = Inr T'" "cp_slot (ta_finalized T) < cp_slot (ad_target d)"
  obtains (keep) "T' = T\<lparr>ta_justified := ad_target d,
      ta_slots := insert (unat (cp_slot (ad_target d))) (ta_slots T),
      ta_votes := (ta_votes T)(cp_root (ad_target d) := None)\<rparr>"
  | (finalize) "is_next_valid_justifiable_slot (cp_slot (ad_source d)) (cp_slot (ad_target d))
        (cp_slot (ta_finalized T))"
      "cp_slot (ta_finalized T) \<le> cp_slot (ad_source d)" "cp_slot (ad_source d) < cp_slot (ad_target d)"
      "ta_justified T' = ad_target d" "ta_finalized T' = ad_source d"
      "ta_slots T' = {..unat (cp_slot (ad_source d))} \<union>
         insert (unat (cp_slot (ad_target d))) (ta_slots T)"
      "\<And>r. votes_for T' r \<subseteq> votes_for T r"
proof (cases "is_next_valid_justifiable_slot (cp_slot (ad_source d)) (cp_slot (ad_target d))
    (cp_slot (ta_finalized T))")
  case False
  then show thesis using assms(1) keep by (auto simp: tally_justify_def Let_def split: if_splits)
next
  case True
  then have "cp_slot (ta_finalized T) \<le> cp_slot (ad_source d)" "cp_slot (ad_source d) < cp_slot (ad_target d)"
    using assms(2) by (auto intro: finalizable_source_above simp: is_next_valid_justifiable_slot_iff)
  then show thesis
    using assms(1) True
    by (intro finalize)
      (auto simp: tally_justify_def tally_finalize_def votes_for_def Let_def
        split: if_splits option.splits)
qed

lemma votes_for_remove: "votes_for (T\<lparr>ta_votes := (ta_votes T)(root := None)\<rparr>) r \<subseteq> votes_for T r"
  by (simp add: votes_for_def)

section \<open>Runs of the tally\<close>

definition justified_by :: "nat \<Rightarrow> (attestation_data \<Rightarrow> bool) \<Rightarrow> tally \<Rightarrow> attestation list \<Rightarrow> checkpoint \<Rightarrow> bool" where
  "justified_by n adm T atts c \<longleftrightarrow>
     (\<exists>att \<in> set atts. adm (att_data att) \<and> ad_target (att_data att) = c) \<and> supported n T atts (cp_root c)"

definition finalized_by :: "nat \<Rightarrow> (attestation_data \<Rightarrow> bool) \<Rightarrow> tally \<Rightarrow> attestation list \<Rightarrow> checkpoint \<Rightarrow> bool" where
  "finalized_by n adm T atts c \<longleftrightarrow>
     (\<exists>att \<in> set atts. \<exists>f. adm (att_data att) \<and> ad_source (att_data att) = c \<and>
        supported n T atts (cp_root (ad_target (att_data att))) \<and>
        cp_slot (ta_finalized T) \<le> f \<and> f \<le> cp_slot c \<and>
        is_next_valid_justifiable_slot (cp_slot c) (cp_slot (ad_target (att_data att))) f)"

definition safe_progress :: "nat \<Rightarrow> (attestation_data \<Rightarrow> bool) \<Rightarrow> tally \<Rightarrow> attestation list \<Rightarrow> tally \<Rightarrow> bool" where
  "safe_progress n adm T atts T' \<longleftrightarrow>
     tally_wf n T' \<and> cp_slot (ta_finalized T) \<le> cp_slot (ta_finalized T') \<and> ta_slots T \<subseteq> ta_slots T' \<and>
     (cp_slot (ta_finalized T) \<le> cp_slot (ta_justified T) \<longrightarrow>
        cp_slot (ta_finalized T') \<le> cp_slot (ta_justified T')) \<and>
     (\<forall>r. votes_for T' r \<subseteq> votes_for T r \<union> ballots n r atts) \<and>
     (ta_justified T' \<noteq> ta_justified T \<longrightarrow> justified_by n adm T atts (ta_justified T')) \<and>
     (ta_finalized T' \<noteq> ta_finalized T \<longrightarrow> finalized_by n adm T atts (ta_finalized T'))"

lemma safe_progress_refl: "tally_wf n T \<Longrightarrow> safe_progress n adm T atts T"
  by (simp add: safe_progress_def)

lemma tally_wfI:
  assumes "tally_wf n T" "{..unat (cp_slot (ta_finalized T'))} \<subseteq> ta_slots T'"
    "\<And>r. votes_for T' r \<subseteq> votes_for T r \<union> ballots n r atts"
  shows "tally_wf n T'"
  using assms ballots_subset [of n _ atts] unfolding tally_wf_def by (meson Un_least subset_trans)

lemma tally_step_safe:
  assumes "tally_step n slot_of adm T att = Inr T'" and wf: "tally_wf n T"
  shows "safe_progress n adm T [att] T'"
  using assms
proof (cases rule: tally_step_cases)
  case skip
  then show ?thesis using wf by (simp add: safe_progress_refl)
next
  case vote
  have "votes_for T' r \<subseteq> votes_for T r \<union> ballots n r [att]" for r
    unfolding vote(2) by (simp add: votes_for_def ballot_def split: option.splits)
  moreover from this have "tally_wf n T'"
    using wf by (intro tally_wfI [of n T T' "[att]"]) (auto simp: vote(2) tally_wf_def)
  ultimately show ?thesis by (simp add: safe_progress_def vote(2))
next
  case justify
  note just = justify
  from just(5,4) show ?thesis
  proof (cases rule: tally_justify_cases)
    case keep
    have "votes_for T' r \<subseteq> votes_for T r" for r
      unfolding keep by (simp add: votes_for_def)
    moreover from this have "tally_wf n T'"
      using wf by (intro tally_wfI [of n T T' "[]"]) (auto simp: keep tally_wf_def)
    ultimately show ?thesis
      using just(1,2,4) by (auto simp: safe_progress_def keep justified_by_def)
  next
    case finalize
    have "tally_wf n T'"
      using wf finalize(5-7) by (intro tally_wfI [of n T T' "[]"]) auto
    then show ?thesis
      using just(1,2) finalize(1-7)
      by (auto simp: safe_progress_def justified_by_def finalized_by_def)
  qed
qed

lemma safe_progress_trans:
  assumes wf: "tally_wf n T" and first: "safe_progress n adm T [att] T1"
    and rest: "safe_progress n adm T1 atts T'"
  shows "safe_progress n adm T (att # atts) T'"
proof -
  have votes: "votes_for T1 r \<union> ballots n r atts \<subseteq> votes_for T r \<union> ballots n r (att # atts)" for r
    using first by (auto simp: safe_progress_def)
  have sup1: "supported n T [att] r \<Longrightarrow> supported n T (att # atts) r" for r
    using wf by (rule supported_mono [where U = T and as = "[att]"]) auto
  have sup2: "supported n T1 atts r \<Longrightarrow> supported n T (att # atts) r" for r
    using wf by (rule supported_mono [where U = T1 and as = atts]) (use votes in auto)
  have just: "justified_by n adm T (att # atts) c"
    if "justified_by n adm T [att] c \<or> justified_by n adm T1 atts c" for c
    using that by (auto simp: justified_by_def dest: sup1 sup2)
  have fin: "finalized_by n adm T (att # atts) c"
    if "finalized_by n adm T [att] c \<or> finalized_by n adm T1 atts c" for c
    using that first
    by (auto simp: finalized_by_def safe_progress_def dest: sup1 sup2 intro: order_trans)
  note f = first [unfolded safe_progress_def] and r = rest [unfolded safe_progress_def]
  show ?thesis
    unfolding safe_progress_def
  proof (intro conjI allI impI)
    show "tally_wf n T'" using r by blast
    show "cp_slot (ta_finalized T) \<le> cp_slot (ta_finalized T')"
      using f r by (meson order_trans)
    show "ta_slots T \<subseteq> ta_slots T'" using f r by (meson subset_trans)
    show "votes_for T' root \<subseteq> votes_for T root \<union> ballots n root (att # atts)" for root
      using r votes by (meson subset_trans)
    show "cp_slot (ta_finalized T') \<le> cp_slot (ta_justified T')"
      if "cp_slot (ta_finalized T) \<le> cp_slot (ta_justified T)" using f r that by blast
    show "justified_by n adm T (att # atts) (ta_justified T')" if "ta_justified T' \<noteq> ta_justified T"
      using f r that just by metis
    show "finalized_by n adm T (att # atts) (ta_finalized T')" if "ta_finalized T' \<noteq> ta_finalized T"
      using f r that fin by metis
  qed
qed

lemma tally_run_safe:
  "tally_run n slot_of adm T atts = Inr T' \<Longrightarrow> tally_wf n T \<Longrightarrow> safe_progress n adm T atts T'"
proof (induction atts arbitrary: T)
  case (Cons att atts)
  then obtain T1 where T1: "tally_step n slot_of adm T att = Inr T1"
    "tally_run n slot_of adm T1 atts = Inr T'"
    by (auto simp: result_simps)
  have "safe_progress n adm T [att] T1" using T1(1) Cons.prems(2) by (rule tally_step_safe)
  moreover then have "safe_progress n adm T1 atts T'"
    using Cons.IH [OF T1(2)] by (simp add: safe_progress_def)
  ultimately show ?case using Cons.prems(2) by (blast intro: safe_progress_trans)
qed (simp add: safe_progress_refl)

lemma tally_of_state_wf: "tally_wf (length (st_validators s)) (tally_of_state s)"
  using decode_justification_votes_inv [of "length (st_validators s)" s]
  by (auto simp: tally_wf_def tally_of_state_def tally_of_def votes_for_def ctx_votes_def
      window_slots_iff votes_map_inv_def votes_inv_def split: option.splits)

lemma process_attestations_safe:
  assumes L: "list_ops_bounded L" and w: "window_inv (st_justified_slots s)"
    and ok: "process_attestations L s atts = Inr s'"
  shows "safe_progress (length (st_validators s)) (admissible_in L s) (tally_of_state s) atts
    (tally_of_state s')"
proof (cases "st_validators s = []")
  case True
  then have "s' = s" using ok by (simp add: process_attestations_def)
  then show ?thesis by (simp add: safe_progress_refl tally_of_state_wf)
next
  case False
  then have "tally_run (length (st_validators s)) (hm_get (root_slots L s)) (admissible_in L s)
      (tally_of_state s) atts = Inr (tally_of_state s')"
    using process_attestations_refines [OF L w refl _ ok] by simp
  then show ?thesis by (rule tally_run_safe) (rule tally_of_state_wf)
qed

section \<open>Stale attestations\<close>

lemma tally_step_error: "tally_step n slot_of adm T att = Inl e \<Longrightarrow> \<exists>m. e = Err m"
  by (auto simp: tally_step_def tally_justify_def tally_finalize_def is_justifiable_after_def Let_def
      result_simps split: if_splits)

text \<open>Finality never moves back, so an attestation that is stale before the run is stale when
  its turn comes.\<close>

lemma tally_run_stale:
  "tally_wf n T \<Longrightarrow> att \<in> set atts \<Longrightarrow> adm (att_data att) \<Longrightarrow>
   cp_slot (ad_target (att_data att)) < cp_slot (ta_finalized T) \<Longrightarrow>
   \<exists>e. tally_run n slot_of adm T atts = Inl (Err e)"
proof (induction atts arbitrary: T)
  case (Cons a atts)
  show ?case
  proof (cases "tally_step n slot_of adm T a")
    case (Inl e)
    then show ?thesis using tally_step_error [OF Inl] by auto
  next
    case (Inr T1)
    have "a \<noteq> att" using Inr Cons.prems(3,4) by (auto simp: tally_step_def is_justifiable_after_error)
    moreover have "tally_wf n T1" "cp_slot (ta_finalized T) \<le> cp_slot (ta_finalized T1)"
      using tally_step_safe [OF Inr Cons.prems(1)] by (simp_all add: safe_progress_def)
    ultimately show ?thesis using Cons.IH [of T1] Cons.prems Inr by simp
  qed
qed simp

lemma process_attestations_error:
  assumes "st_validators s \<noteq> []" "window_inv (st_justified_slots s)"
    and "\<exists>e. tally_run (length (st_validators s)) (hm_get (root_slots L s)) (admissible_in L s)
      (tally_of_state s) atts = Inl (Err e)"
  shows "\<exists>e. process_attestations L s atts = Inl (Err e)"
proof -
  let ?n = "length (st_validators s)"
  let ?ctx = "\<lparr>ac_state = s, ac_votes = None, ac_finalized = cp_slot (st_latest_finalized s)\<rparr>"
  let ?loop = "process_attestation_loop ?n (root_slots L s) (block_header_root L (st_latest_block_header s)) ?ctx atts"
  have "ctx_inv ?n ?ctx" using assms(2) by (simp add: ctx_inv_def)
  then have "and_then ?loop (\<lambda>c. Inr (tally_of ?n c)) =
      tally_run ?n (hm_get (root_slots L s)) (admissible_in L s) (tally_of_state s) atts"
    using process_attestation_loop_refines [of ?n ?ctx s] by (simp add: admissible_in_def tally_of_state_def)
  then obtain e where "?loop = Inl (Err e)" using assms(3) by (cases ?loop) auto
  then show ?thesis using assms(1) by (simp add: process_attestations_def Let_def)
qed

section \<open>A finalizing run\<close>

text \<open>Three validators; slot 1 is justified, and two of them vote for slot 2 from it.\<close>

definition sample_voting_state :: state where
  "sample_voting_state = sample_state\<lparr>
     st_slot := 3,
     st_latest_block_header := \<lparr>bh_slot = 3, bh_proposer_index = 0, bh_parent_root = 23,
       bh_state_root = 0, bh_body_root = 12\<rparr>,
     st_latest_justified := \<lparr>cp_root = 22, cp_slot = 1\<rparr>,
     st_latest_finalized := \<lparr>cp_root = 21, cp_slot = 0\<rparr>,
     st_historical_block_hashes := [21, 22, 23],
     st_justified_slots := \<lparr>bl_data = [1], bl_len = 2\<rparr>\<rparr>"

definition sample_vote :: attestation where
  "sample_vote = \<lparr>att_bits = \<lparr>bl_data = [3], bl_len = 3\<rparr>,
     att_data = \<lparr>ad_slot = 2, ad_head = \<lparr>cp_root = 23, cp_slot = 2\<rparr>,
       ad_target = \<lparr>cp_root = 23, cp_slot = 2\<rparr>, ad_source = \<lparr>cp_root = 22, cp_slot = 1\<rparr>\<rparr>\<rparr>"

definition sample_final_state :: state where
  "sample_final_state = sample_voting_state\<lparr>
     st_latest_justified := \<lparr>cp_root = 23, cp_slot = 2\<rparr>,
     st_latest_finalized := \<lparr>cp_root = 22, cp_slot = 1\<rparr>,
     st_justified_slots := \<lparr>bl_data = [1], bl_len = 1\<rparr>\<rparr>"

lemma two_gt_one_word: "\<not> (2::64 word) \<le> 1" "\<not> (2::64 word) < 1" "(1::64 word) < 2" "(1::64 word) \<le> 2"
  by (simp_all add: word_le_nat_alt word_less_nat_alt)

lemma sample_step:
  "process_attestation 3 rts lr \<lparr>ac_state = sample_voting_state, ac_votes = None, ac_finalized = 0\<rparr> sample_vote =
    justify_target rts (att_data sample_vote) [(23, \<lparr>jv_bits = [3], jv_count = Suc (Suc 0)\<rparr>)] sample_voting_state 0"
  by (simp add: process_attestation_def sample_voting_state_def sample_state_def sample_vote_def
    source_matches_def target_matches_def root_at_def is_justifiable_after_near zero_root_def
    is_slot_justified_def byte_bit_def decode_justification_votes_def
    merge_participant_votes_from_bits_def justification_votes_new_def merge_byte_def get_or_zero_def
    count_ones_def upt_rec bit_iff_odd two_gt_one_word Let_def)

lemma sample_justify:
  "justify_target rts (att_data sample_vote) [(23, v)] sample_voting_state 0 =
   Inr \<lparr>ac_state = sample_final_state, ac_votes = Some [], ac_finalized = 1\<rparr>"
  by (simp add: justify_target_def sample_vote_def sample_voting_state_def sample_final_state_def
    set_justified_slot_def resize_zero_def HISTORICAL_ROOTS_LIMIT_def is_next_valid_justifiable_slot_def
    next_valid_loop.simps shift_justified_window_def byte_bit_def set_bit_at_def retain_votes_def
    two_gt_one_word Let_def)

lemma sample_finalizes:
  "process_attestations sample_lib sample_voting_state [sample_vote] = Inr sample_final_state"
proof -
  have n: "length (st_validators sample_voting_state) = 3" "st_justifications_roots sample_voting_state = []"
    "cp_slot (st_latest_finalized sample_voting_state) = 0"
    by (simp_all add: sample_voting_state_def sample_state_def)
  have "encode_justification_votes sample_lib sample_final_state [] 3 = Inr sample_final_state"
    by (simp add: encode_justification_votes_def sample_list_def sample_final_state_def sample_voting_state_def sample_state_def bitlist_default_def)
  then show ?thesis by (simp add: process_attestations_def n sample_step sample_justify)
qed

lemma sample_voting_fields:
  "length (st_validators sample_voting_state) = 3" "st_validators sample_voting_state \<noteq> []"
  "st_latest_justified sample_voting_state = \<lparr>cp_root = 22, cp_slot = 1\<rparr>"
  "st_latest_finalized sample_voting_state = \<lparr>cp_root = 21, cp_slot = 0\<rparr>"
  "st_latest_justified sample_final_state = \<lparr>cp_root = 23, cp_slot = 2\<rparr>"
  "st_latest_finalized sample_final_state = \<lparr>cp_root = 22, cp_slot = 1\<rparr>"
  by (simp_all add: sample_voting_state_def sample_final_state_def sample_state_def)

lemma sample_voting_window: "window_inv (st_justified_slots sample_voting_state)"
  by (auto simp: window_inv_def sample_voting_state_def data_bit_single bit_1_iff)

section \<open>Properties\<close>



text \<open>
  C16 (finality never regresses). Processing attestations never moves the finalized slot
  back, never forgets a justified slot, and keeps the finalized checkpoint at or before the
  latest justified one.
\<close>

theorem finality_never_regresses:
  assumes "list_ops_bounded L" "window_inv (st_justified_slots s)"
    and "process_attestations L s atts = Inr s'"
  shows "cp_slot (st_latest_finalized s) \<le> cp_slot (st_latest_finalized s') \<and>
    (is_slot_justified (st_justified_slots s) (cp_slot (st_latest_finalized s)) x \<longrightarrow>
     is_slot_justified (st_justified_slots s') (cp_slot (st_latest_finalized s')) x) \<and>
    (cp_slot (st_latest_finalized s) \<le> cp_slot (st_latest_justified s) \<longrightarrow>
     cp_slot (st_latest_finalized s') \<le> cp_slot (st_latest_justified s'))"
  using process_attestations_safe [OF assms]
  by (auto simp: safe_progress_def tally_of_state_def tally_of_def is_slot_justified_iff)

theorem finality_never_regresses_witness:
  "is_slot_justified (st_justified_slots sample_voting_state) 0 1 \<and>
   is_slot_justified (st_justified_slots sample_final_state) 1 1 \<and>
   cp_slot (st_latest_finalized sample_final_state) \<le> cp_slot (st_latest_justified sample_final_state)"
proof -
  have "is_slot_justified (st_justified_slots sample_voting_state) 0 1"
    by (simp add: is_slot_justified_def sample_voting_state_def byte_bit_def)
  then show ?thesis
    using finality_never_regresses [OF sample_list_ops_bounded sample_voting_window sample_finalizes, of 1]
    by (simp add: sample_voting_fields)
qed

text \<open>
  C17 (justification needs two thirds). If the latest justified checkpoint changes, some
  attestation of the block has it as its target, and at least two thirds of all validators
  have voted for its root, in this block or in earlier blocks whose votes are stored in the
  state.
\<close>

theorem justification_needs_supermajority:
  assumes "list_ops_bounded L" "window_inv (st_justified_slots s)"
    and "process_attestations L s atts = Inr s'"
    and "st_latest_justified s' \<noteq> st_latest_justified s"
  shows "(\<exists>att \<in> set atts. admissible_in L s (att_data att) \<and>
      ad_target (att_data att) = st_latest_justified s') \<and>
    2 * length (st_validators s) \<le>
      3 * card (votes_for (tally_of_state s) (cp_root (st_latest_justified s')) \<union>
        ballots (length (st_validators s)) (cp_root (st_latest_justified s')) atts)"
  using process_attestations_safe [OF assms(1-3)] assms(4)
  by (simp add: safe_progress_def justified_by_def supported_def tally_of_state_def tally_of_def)

theorem justification_needs_supermajority_witness:
  "2 * 3 \<le> 3 * card (votes_for (tally_of_state sample_voting_state) 23 \<union> ballots 3 23 [sample_vote])"
  using justification_needs_supermajority [OF sample_list_ops_bounded sample_voting_window
    sample_finalizes] by (simp add: sample_voting_fields)

text \<open>
  C18 (finalization needs a justified successor). If the finalized checkpoint changes, it is
  the source of an attestation of the block whose target has the votes of two thirds of the
  validators, and no slot between source and target was justifiable.
\<close>

theorem finalization_needs_justified_successor:
  assumes "list_ops_bounded L" "window_inv (st_justified_slots s)"
    and "process_attestations L s atts = Inr s'"
    and "st_latest_finalized s' \<noteq> st_latest_finalized s"
  shows "\<exists>att \<in> set atts. \<exists>f. admissible_in L s (att_data att) \<and>
    ad_source (att_data att) = st_latest_finalized s' \<and>
    2 * length (st_validators s) \<le>
      3 * card (votes_for (tally_of_state s) (cp_root (ad_target (att_data att))) \<union>
        ballots (length (st_validators s)) (cp_root (ad_target (att_data att))) atts) \<and>
    cp_slot (st_latest_finalized s) \<le> f \<and> f \<le> cp_slot (st_latest_finalized s') \<and>
    is_next_valid_justifiable_slot (cp_slot (st_latest_finalized s'))
      (cp_slot (ad_target (att_data att))) f"
  using process_attestations_safe [OF assms(1-3)] assms(4)
  by (simp add: safe_progress_def finalized_by_def supported_def tally_of_state_def tally_of_def)

theorem finalization_needs_justified_successor_witness:
  "\<exists>f. admissible_in sample_lib sample_voting_state (att_data sample_vote) \<and>
    ad_source (att_data sample_vote) = st_latest_finalized sample_final_state \<and>
    is_next_valid_justifiable_slot 1 2 f"
  using finalization_needs_justified_successor [OF sample_list_ops_bounded sample_voting_window
    sample_finalizes] by (auto simp: sample_voting_fields sample_vote_def)

end
