(* ===== verification/Transition.thy ===== *)
theory Transition
  imports Finality
begin

text \<open>
  Whole state transitions. A transition extends the chain of the state: the block names the
  latest header as its parent, its header becomes the latest one and the history grows by
  one entry per slot. It keeps the state well formed. A signed block that is refused
  leaves the state as it was. The verifier of signed blocks gathers the public keys of
  exactly the participants, in order.
\<close>

unbundle bit_operations_syntax

section \<open>Empty slots\<close>

lemma fill_header_root_eq:
  "fill_header_root L s = s\<lparr>st_latest_block_header := (st_latest_block_header s)\<lparr>bh_state_root :=
     (if bh_state_root (st_latest_block_header s) = zero_root then state_root L s
      else bh_state_root (st_latest_block_header s))\<rparr>\<rparr>"
  by (simp add: fill_header_root_def)

lemma process_slots_loop_spec:
  "st_slot s \<le> t \<Longrightarrow> \<exists>r. process_slots_loop L s t =
     s\<lparr>st_slot := t, st_latest_block_header := (st_latest_block_header s)\<lparr>bh_state_root := r\<rparr>\<rparr> \<and>
     (bh_state_root (st_latest_block_header s) \<noteq> zero_root \<longrightarrow> r = bh_state_root (st_latest_block_header s)) \<and>
     (bh_state_root (st_latest_block_header s) = zero_root \<longrightarrow> st_slot s < t \<longrightarrow>
        state_root L s \<noteq> zero_root \<longrightarrow> r = state_root L s)"
proof (induction L s t rule: process_slots_loop.induct)
  case (1 L s t)
  show ?case
  proof (cases "st_slot s < t")
    case True
    let ?s = "(fill_header_root L s)\<lparr>st_slot := st_slot (fill_header_root L s) + 1\<rparr>"
    have sl: "st_slot ?s = st_slot s + 1" by (simp add: fill_header_root_eq)
    then have le: "st_slot ?s \<le> t" using inc_le [OF True] by simp
    show ?thesis
      using 1(1) [OF True le] True
      by (subst process_slots_loop.simps) (auto simp: fill_header_root_eq split: if_splits)
  next
    case False
    then have "st_slot s = t" using 1(2) by simp
    then show ?thesis using False
      by (intro exI [of _ "bh_state_root (st_latest_block_header s)"]) (simp add: process_slots_loop.simps)
  qed
qed

section \<open>Whole blocks\<close>

text \<open>How a successful transition extends the chain.\<close>

definition extends_chain :: "ssz_lib \<Rightarrow> state \<Rightarrow> block \<Rightarrow> state \<Rightarrow> bool" where
  "extends_chain L s b s' \<longleftrightarrow>
     st_slot s < b_slot b \<and> st_slot s' = b_slot b \<and>
     bh_slot (st_latest_block_header s) < b_slot b \<and>
     st_latest_block_header s' = block_header_of L b \<and>
     (\<exists>r. b_parent_root b = block_header_root L ((st_latest_block_header s)\<lparr>bh_state_root := r\<rparr>) \<and>
        (bh_state_root (st_latest_block_header s) \<noteq> zero_root \<longrightarrow>
           r = bh_state_root (st_latest_block_header s))) \<and>
     st_historical_block_hashes s' = st_historical_block_hashes s @ b_parent_root b #
       replicate (unat (b_slot b - bh_slot (st_latest_block_header s) - 1)) zero_root \<and>
     is_proposer_for (b_proposer_index b) (b_slot b) (of_nat (length (st_validators s))) \<and>
     st_validators s' = st_validators s \<and> st_config s' = st_config s"

definition state_wf :: "state \<Rightarrow> bool" where
  "state_wf s \<longleftrightarrow> window_inv (st_justified_slots s) \<and>
     length (st_historical_block_hashes s) = unat (bh_slot (st_latest_block_header s)) \<and>
     bh_slot (st_latest_block_header s) \<le> st_slot s \<and>
     cp_slot (st_latest_finalized s) \<le> cp_slot (st_latest_justified s) \<and>
     cp_slot (st_latest_justified s) \<le> bh_slot (st_latest_block_header s)"

lemma process_attestations_same_chain:
  assumes "list_ops_bounded L" "window_inv (st_justified_slots s)" "process_attestations L s atts = Inr s'"
  shows "same_chain s s' \<and> window_inv (st_justified_slots s')"
proof (cases "st_validators s = []")
  case True
  then have "s' = s" using assms(3) by (simp add: process_attestations_def)
  then show ?thesis using assms(2) by simp
next
  case False
  then show ?thesis using process_attestations_refines [OF assms(1,2) refl _ assms(3)] by simp
qed

lemma admissible_target_slot:
  assumes "admissible_in L s d" "length (st_historical_block_hashes s) = unat (bh_slot (st_latest_block_header s))"
  shows "cp_slot (ad_target d) \<le> bh_slot (st_latest_block_header s)"
  using assms
  by (auto simp: admissible_in_def admissible_def target_matches_def root_at_def Let_def word_le_nat_alt
      split: if_splits)

lemma process_attestations_justified_slot:
  assumes "list_ops_bounded L" "window_inv (st_justified_slots s)" "process_attestations L s atts = Inr s'"
    and len: "length (st_historical_block_hashes s) = unat (bh_slot (st_latest_block_header s))"
    and le: "cp_slot (st_latest_finalized s) \<le> cp_slot (st_latest_justified s)"
      "cp_slot (st_latest_justified s) \<le> bh_slot (st_latest_block_header s)"
  shows "cp_slot (st_latest_finalized s') \<le> cp_slot (st_latest_justified s') \<and>
    cp_slot (st_latest_justified s') \<le> bh_slot (st_latest_block_header s)"
proof -
  let ?n = "length (st_validators s)"
  have sel: "ta_justified (tally_of_state x) = st_latest_justified x" "ta_finalized (tally_of_state x) = st_latest_finalized x" for x
    by (simp_all add: tally_of_state_def tally_of_def)
  have sp: "cp_slot (st_latest_finalized s') \<le> cp_slot (st_latest_justified s')"
      "st_latest_justified s' \<noteq> st_latest_justified s \<Longrightarrow>
        justified_by ?n (admissible_in L s) (tally_of_state s) atts (st_latest_justified s')"
    using process_attestations_safe [OF assms(1-3)] le(1) by (simp_all add: safe_progress_def sel)
  have "cp_slot (st_latest_justified s') \<le> bh_slot (st_latest_block_header s)"
  proof (cases "st_latest_justified s' = st_latest_justified s")
    case False
    from sp(2) [OF this] obtain att :: attestation where "admissible_in L s (att_data att)" "ad_target (att_data att) = st_latest_justified s'"
      unfolding justified_by_def by blast
    then show ?thesis using admissible_target_slot [OF _ len] by metis
  qed (simp add: le)
  then show ?thesis using sp(1) by simp
qed

text \<open>The header step, with the library's lists.\<close>

lemma process_header_spec:
  assumes L: "list_ops_bounded L" and ok: "process_block_header_assuming_slot L s h = Inr s'"
  shows "bh_slot (st_latest_block_header s) < bh_slot h"
    "is_proposer_for (bh_proposer_index h) (st_slot s) (of_nat (length (st_validators s)))"
    "bh_parent_root h = block_header_root L (st_latest_block_header s)"
    "st_historical_block_hashes s' = st_historical_block_hashes s @ bh_parent_root h #
       replicate (unat (bh_slot h - bh_slot (st_latest_block_header s) - 1)) zero_root"
    "st_latest_block_header s' = h\<lparr>bh_state_root := zero_root\<rparr>" "st_slot s' = st_slot s"
    "st_validators s' = st_validators s" "st_config s' = st_config s"
    "cp_slot (st_latest_justified s') = cp_slot (st_latest_justified s)"
    "cp_slot (st_latest_finalized s') = cp_slot (st_latest_finalized s)"
    "window_inv (st_justified_slots s) \<Longrightarrow> window_inv (st_justified_slots s')"
proof -
  let ?hd = "st_latest_block_header s"
  show g: "bh_slot ?hd < bh_slot h" and
      "is_proposer_for (bh_proposer_index h) (st_slot s) (of_nat (length (st_validators s)))"
      "bh_parent_root h = block_header_root L ?hd"
    using ok unfolding process_block_header_assuming_slot_def by (simp_all split: if_splits)
  define s0 where "s0 = (if bh_slot ?hd = 0
    then s\<lparr>st_latest_justified := (st_latest_justified s)\<lparr>cp_root := bh_parent_root h\<rparr>,
           st_latest_finalized := (st_latest_finalized s)\<lparr>cp_root := bh_parent_root h\<rparr>\<rparr> else s)"
  have s0: "st_latest_block_header s0 = ?hd" "st_historical_block_hashes s0 = st_historical_block_hashes s"
      "st_slot s0 = st_slot s" "st_validators s0 = st_validators s" "st_config s0 = st_config s"
      "cp_slot (st_latest_justified s0) = cp_slot (st_latest_justified s)"
      "cp_slot (st_latest_finalized s0) = cp_slot (st_latest_finalized s)"
      "st_justified_slots s0 = st_justified_slots s"
    by (simp_all add: s0_def)
  define n where "n = bh_slot h - bh_slot ?hd - 1"
  have "and_then (roots_push (lib_list L) HISTORICAL_ROOTS_LIMIT (st_historical_block_hashes s) (bh_parent_root h)) (\<lambda>h1.
      and_then (if n > 0 then roots_extend_copy (lib_list L) HISTORICAL_ROOTS_LIMIT h1 (unat n) zero_root else Inr h1) (\<lambda>h2.
      Inr (s0\<lparr>st_historical_block_hashes := h2,
         st_justified_slots := extend_justified_window (st_justified_slots s) (cp_slot (st_latest_finalized s)) (bh_slot h),
         st_latest_block_header := h\<lparr>bh_state_root := zero_root\<rparr>\<rparr>))) = Inr s'"
    using ok unfolding process_block_header_assuming_slot_def Let_def s0_def [symmetric] s0 n_def [symmetric]
    by (simp only: split: if_splits) simp_all
  then obtain h1 h2 where h: "roots_push (lib_list L) HISTORICAL_ROOTS_LIMIT (st_historical_block_hashes s) (bh_parent_root h) = Inr h1"
      "(if n > 0 then roots_extend_copy (lib_list L) HISTORICAL_ROOTS_LIMIT h1 (unat n) zero_root else Inr h1) = Inr h2"
      "s' = s0\<lparr>st_historical_block_hashes := h2,
         st_justified_slots := extend_justified_window (st_justified_slots s) (cp_slot (st_latest_finalized s)) (bh_slot h),
         st_latest_block_header := h\<lparr>bh_state_root := zero_root\<rparr>\<rparr>"
    unfolding and_then_eq_Inr by blast
  have "h1 = st_historical_block_hashes s @ [bh_parent_root h]"
    using h(1) by (simp add: list_ops_Inr [OF L] split: if_splits)
  moreover have "h2 = h1 @ replicate (unat n) zero_root"
    using h(2) by (simp add: list_ops_Inr [OF L] word_neq_0_conv [symmetric] split: if_splits) 
  ultimately show "st_historical_block_hashes s' = st_historical_block_hashes s @ bh_parent_root h #
       replicate (unat (bh_slot h - bh_slot ?hd - 1)) zero_root"
    by (simp add: h(3) n_def)
  show "window_inv (st_justified_slots s')" if "window_inv (st_justified_slots s)"
    using extend_justified_window_bits [OF that] by (simp add: h(3))
  show "st_latest_block_header s' = h\<lparr>bh_state_root := zero_root\<rparr>" "st_slot s' = st_slot s"
    "st_validators s' = st_validators s" "st_config s' = st_config s"
    "cp_slot (st_latest_justified s') = cp_slot (st_latest_justified s)"
    "cp_slot (st_latest_finalized s') = cp_slot (st_latest_finalized s)"
    by (simp_all add: h(3) s0)
qed

lemma state_transition_inner_spec:
  assumes L: "list_ops_bounded L" and w: "window_inv (st_justified_slots s)"
    and ok: "state_transition_inner L s b = Inr s'"
  obtains s1 where "extends_chain L s b s'" "b_state_root b = state_root L (s'\<lparr>st_latest_block_header := (block_header_of L b)\<lparr>bh_state_root := zero_root\<rparr>\<rparr>)"
    "process_attestations L s1 (bb_attestations (b_body b)) = Inr (s'\<lparr>st_latest_block_header := (block_header_of L b)\<lparr>bh_state_root := zero_root\<rparr>\<rparr>)"
    "window_inv (st_justified_slots s1)" "st_latest_block_header s1 = (block_header_of L b)\<lparr>bh_state_root := zero_root\<rparr>"
    "st_historical_block_hashes s1 = st_historical_block_hashes s'"
    "cp_slot (st_latest_justified s1) = cp_slot (st_latest_justified s)"
    "cp_slot (st_latest_finalized s1) = cp_slot (st_latest_finalized s)"
    "window_inv (st_justified_slots s')"
proof -
  let ?h = "block_header_of L b" let ?hz = "?h\<lparr>bh_state_root := zero_root\<rparr>"
  obtain s0 s1 s2 where st: "process_slots L s (b_slot b) = Inr s0"
      "process_block_header_assuming_slot L s0 ?h = Inr s1"
      "process_attestations L s1 (bb_attestations (b_body b)) = Inr s2" "state_root L s2 = b_state_root b"
      "s' = s2\<lparr>st_latest_block_header := (st_latest_block_header s2)\<lparr>bh_state_root := state_root L s2\<rparr>\<rparr>"
    using ok by (auto simp: state_transition_inner_def Let_def and_then_eq_Inr split: if_splits)
  have lt: "st_slot s < b_slot b" and "s0 = process_slots_loop L s (b_slot b)"
    using st(1) by (auto simp: process_slots_def split: if_splits)
  then obtain r where s0: "s0 = s\<lparr>st_slot := b_slot b,
        st_latest_block_header := (st_latest_block_header s)\<lparr>bh_state_root := r\<rparr>\<rparr>"
      "bh_state_root (st_latest_block_header s) \<noteq> zero_root \<Longrightarrow> r = bh_state_root (st_latest_block_header s)"
    using process_slots_loop_spec [OF less_imp_le [OF lt], of L] by blast
  note hd = process_header_spec [OF L st(2)]
  have w1: "window_inv (st_justified_slots s1)" using hd(11) w s0(1) by simp
  have ch: "same_chain s1 s2" "window_inv (st_justified_slots s2)"
    using process_attestations_same_chain [OF L w1 st(3)] by simp_all
  have h2: "st_latest_block_header s2 = ?hz" using ch(1) hd(5) by (simp add: same_chain_def)
  have s2: "s2 = s'\<lparr>st_latest_block_header := ?hz\<rparr>" using st(5) h2 by simp
  have hs': "st_latest_block_header s' = ?h"
    using st(4,5) h2 by (simp add: block_header_of_def)
  have fs: "st_slot s' = st_slot s1" "st_historical_block_hashes s' = st_historical_block_hashes s1"
      "st_validators s' = st_validators s1" "st_config s' = st_config s1"
    using ch(1) st(5) by (simp_all add: same_chain_def)
  have fields: "bh_slot ?h = b_slot b" "bh_parent_root ?h = b_parent_root b" "bh_proposer_index ?h = b_proposer_index b"
    by (simp_all add: block_header_of_def)
  show ?thesis
  proof (rule that [of s1])
    have "\<exists>r. b_parent_root b = block_header_root L ((st_latest_block_header s)\<lparr>bh_state_root := r\<rparr>) \<and>
        (bh_state_root (st_latest_block_header s) \<noteq> zero_root \<longrightarrow> r = bh_state_root (st_latest_block_header s))"
      using hd(3) s0 fields by (intro exI [of _ r]) simp
    then show "extends_chain L s b s'"
      unfolding extends_chain_def hs' fs using lt hd(1,2,4,6-8) fields by (simp add: s0(1))
    show "b_state_root b = state_root L (s'\<lparr>st_latest_block_header := ?hz\<rparr>)" using st(4) s2 by simp
    show "process_attestations L s1 (bb_attestations (b_body b)) = Inr (s'\<lparr>st_latest_block_header := ?hz\<rparr>)"
      using st(3) s2 by simp
    show "window_inv (st_justified_slots s')" using ch(2) st(5) by simp
  qed (use w1 hd(5,9,10) fs in \<open>simp_all add: s0(1)\<close>)
qed

lemma replicate_history_length:
  assumes "length xs = unat a" "a < (b :: u64)"
  shows "length (xs @ y # replicate (unat (b - a - 1)) z) = unat b"
proof -
  have ab: "unat a < unat b" using assms(2) by (simp add: word_less_nat_alt)
  have "unat (b - a) = unat b - unat a" using assms(2) by (simp add: unat_sub)
  then have "unat (b - a - 1) = unat b - unat a - 1"
    using ab by (subst unat_minus_one) (auto simp: unat_eq_zero)
  then show ?thesis using assms(1) ab by simp
qed

lemma state_transition_keeps_wf:
  assumes L: "list_ops_bounded L" and wf: "state_wf s" and ok: "state_transition_inner L s b = Inr s'"
  shows "state_wf s' \<and> extends_chain L s b s'"
proof -
  have w: "window_inv (st_justified_slots s)" using wf by (simp add: state_wf_def)
  obtain s1 where s1: "extends_chain L s b s'"
    "process_attestations L s1 (bb_attestations (b_body b)) = Inr (s'\<lparr>st_latest_block_header := (block_header_of L b)\<lparr>bh_state_root := zero_root\<rparr>\<rparr>)"
    "window_inv (st_justified_slots s1)" "st_latest_block_header s1 = (block_header_of L b)\<lparr>bh_state_root := zero_root\<rparr>"
    "st_historical_block_hashes s1 = st_historical_block_hashes s'"
    "cp_slot (st_latest_justified s1) = cp_slot (st_latest_justified s)"
    "cp_slot (st_latest_finalized s1) = cp_slot (st_latest_finalized s)"
    "window_inv (st_justified_slots s')"
    by (rule state_transition_inner_spec [OF L w ok])
  have hs: "bh_slot (st_latest_block_header s') = b_slot b" "bh_slot (st_latest_block_header s1) = b_slot b"
    using s1(1,4) by (simp_all add: extends_chain_def block_header_of_def)
  have lt: "bh_slot (st_latest_block_header s) < b_slot b" using s1(1) by (simp add: extends_chain_def)
  have len: "length (st_historical_block_hashes s') = unat (b_slot b)"
  proof -
    have eq: "st_historical_block_hashes s' = st_historical_block_hashes s @ b_parent_root b #
        replicate (unat (b_slot b - bh_slot (st_latest_block_header s) - 1)) zero_root"
      using s1(1) unfolding extends_chain_def by blast
    have "length (st_historical_block_hashes s) = unat (bh_slot (st_latest_block_header s))"
      using wf by (simp add: state_wf_def)
    from replicate_history_length [OF this lt] show ?thesis unfolding eq .
  qed
  have "cp_slot (st_latest_finalized s') \<le> cp_slot (st_latest_justified s') \<and>
      cp_slot (st_latest_justified s') \<le> b_slot b"
  proof -
    have "cp_slot (st_latest_justified s) \<le> b_slot b" using wf lt by (auto simp: state_wf_def)
    then show ?thesis
      using process_attestations_justified_slot [OF L s1(3,2)] len s1(5-7) wf hs(2)
      by (simp add: state_wf_def)
  qed
  then show ?thesis using s1(1,8) len hs(1) by (simp add: state_wf_def extends_chain_def)
qed

lemma generate_genesis_wf: "state_wf (generate_genesis L t vs)"
  by (simp add: state_wf_def generate_genesis_def Let_def window_inv_def bitlist_default_def data_bit_def)

section \<open>Gathering participants\<close>

text \<open>The verifier walks the set bits of every byte with \<^verbatim>\<open>trailing_zeros\<close> and
  \<^verbatim>\<open>remaining & (remaining - 1)\<close>, which clears the lowest set bit.\<close>

lemma clear_lowest_bit:
  fixes w :: "'a::len word"
  assumes lo: "\<And>i. i < k \<Longrightarrow> \<not> bit w i" and k: "bit w k"
  shows "bit (w AND (w - 1)) i \<longleftrightarrow> bit w i \<and> i \<noteq> k"
proof -
  define u where "u = unset_bit k w"
  have kl: "k < LENGTH('a)" using k by (rule bit_imp_le_length)
  have bu: "bit u i \<longleftrightarrow> bit w i \<and> i \<noteq> k" for i by (auto simp: u_def bit_unset_bit_iff)
  have "u AND 2 ^ k = 0" by (rule bit_eqI) (auto simp: bit_and_iff bu bit_exp_iff)
  then have "u + 2 ^ k = u OR 2 ^ k" by (rule disjunctive_add_eq_or)
  also have "\<dots> = w" using k kl by (intro bit_eqI) (auto simp: bit_or_iff bu bit_exp_iff)
  finally have w: "w = u + 2 ^ k" ..
  have "u AND mask k = 0" using lo by (intro bit_eqI) (auto simp: bit_and_iff bu bit_mask_iff)
  then have "u + mask k = u OR mask k" by (rule disjunctive_add_eq_or)
  moreover have "w - 1 = u + mask k" by (simp add: w mask_eq_exp_minus_1)
  ultimately have "bit (w - 1) i \<longleftrightarrow> bit u i \<or> i < k \<and> i < LENGTH('a)" for i
    by (auto simp: bit_or_iff bit_mask_iff)
  then show ?thesis using lo by (auto simp: bit_and_iff bu)
qed

definition byte_indices :: "u8 \<Rightarrow> nat list" where
  "byte_indices w = filter (bit w) [0..<8]"

lemma byte_indices_0_iff: "byte_indices w = [] \<longleftrightarrow> w = 0"
  by (auto simp: byte_indices_def filter_empty_conv bit_eq_iff dest: bit_imp_le_length)

lemma byte_indices_step:
  assumes "w \<noteq> 0"
  shows "byte_indices w = trailing_zeros w # byte_indices (w AND (w - 1))"
proof -
  define k where "k = trailing_zeros w"
  obtain j where j: "j < 8" "bit w j"
    using assms byte_indices_0_iff [of w] by (auto simp: byte_indices_def filter_empty_conv)
  have k8: "k < 8"
  proof (rule ccontr)
    assume "\<not> k < 8"
    moreover have "k \<le> length [0..<8]" unfolding k_def trailing_zeros_def by (rule length_takeWhile_le)
    ultimately have "length (takeWhile (\<lambda>k. \<not> bit w k) [0..<8]) = length [0..<8]"
      by (simp add: k_def trailing_zeros_def)
    then have "takeWhile (\<lambda>k. \<not> bit w k) [0..<8] = [0..<8]" by (metis takeWhile_eq_take take_all order_refl)
    then show False using j by (auto simp: takeWhile_eq_all_conv)
  qed
  have lo: "\<not> bit w i" if "i < k" for i
  proof -
    have "\<not> bit w (takeWhile (\<lambda>k. \<not> bit w k) [0..<8] ! i)"
      using that nth_mem set_takeWhileD unfolding k_def trailing_zeros_def by metis
    then show ?thesis using that k8 by (simp add: takeWhile_nth k_def trailing_zeros_def)
  qed
  have hi: "bit w k" using nth_length_takeWhile [of "\<lambda>k. \<not> bit w k" "[0..<8]"] k8
    by (simp add: k_def trailing_zeros_def)
  have split: "[0..<8] = [0..<k] @ k # [Suc k..<8]"
    using k8 upt_conv_Cons [of k 8] upt_add_eq_append [of 0 k "8 - k"] by simp
  note clear = clear_lowest_bit [OF lo hi]
  have "filter (bit w) [Suc k..<8] = filter (bit (w AND (w - 1))) [Suc k..<8]"
    by (intro filter_cong refl) (auto simp: clear)
  then show ?thesis
    unfolding byte_indices_def k_def [symmetric] split using lo hi by (simp add: clear)
qed

fun keys_of :: "validator list \<Rightarrow> nat list \<Rightarrow> bytes52 list \<Rightarrow> bytes52 list result" where
  "keys_of vs [] acc = Inr acc"
| "keys_of vs (i # is) acc =
     (if i < length vs then keys_of vs is (acc @ [v_pubkey (vs ! i)])
      else Inl (Err ''validator index out of range''))"

lemma keys_of_append: "keys_of vs (is @ js) acc = and_then (keys_of vs is acc) (keys_of vs js)"
  by (induction vs "is" acc rule: keys_of.induct) simp_all

lemma keys_of_traverse:
  "keys_of vs is acc = and_then (traverse (\<lambda>i. if i < length vs then Inr (v_pubkey (vs ! i))
     else Inl (Err ''validator index out of range'')) is) (\<lambda>ks. Inr (acc @ ks))"
  by (induction vs "is" acc rule: keys_of.induct) (auto simp: and_then_def split: sum.splits)

lemma gather_byte_spec:
  "length (byte_indices w) \<le> fuel \<Longrightarrow> gather_byte fuel vs n bi w acc =
     keys_of vs (filter (\<lambda>i. i < n) (map (\<lambda>k. bi * 8 + k) (byte_indices w))) acc"
proof (induction fuel arbitrary: w acc)
  case 0
  then show ?case using byte_indices_0_iff [of w] by simp
next
  case (Suc fuel)
  show ?case
  proof (cases "w = 0")
    case True
    then show ?thesis using byte_indices_0_iff [of w] by simp
  next
    case False
    note st = byte_indices_step [OF False]
    have "sorted (byte_indices w)" by (simp add: byte_indices_def sorted_wrt_filter)
    then have later: "trailing_zeros w \<le> j" if "j \<in> set (byte_indices (w AND (w - 1)))" for j
      using that unfolding st by simp
    show ?thesis
    proof (cases "bi * 8 + trailing_zeros w < n")
      case True
      then show ?thesis using Suc False st by (simp add: Let_def)
    next
      case c: False
      then have "filter (\<lambda>i. i < n) (map (\<lambda>k. bi * 8 + k) (byte_indices w)) = []"
        using later unfolding st by (fastforce simp: filter_empty_conv)
      then show ?thesis using c False by (simp add: Let_def)
    qed
  qed
qed

fun indices_from :: "nat \<Rightarrow> u8 list \<Rightarrow> nat list" where
  "indices_from bi [] = []"
| "indices_from bi (b # bs) = map (\<lambda>k. bi * 8 + k) (byte_indices b) @ indices_from (Suc bi) bs"

lemma gather_bytes_keys:
  "gather_bytes vs n bi bytes acc = keys_of vs (filter (\<lambda>i. i < n) (indices_from bi bytes)) acc"
proof (induction bytes arbitrary: bi acc)
  case (Cons b bytes)
  have "length (byte_indices b) \<le> 8"
    using length_filter_le [of "bit b" "[0..<8]"] by (simp add: byte_indices_def)
  moreover have "gather_bytes vs n (Suc bi) bytes = keys_of vs (filter (\<lambda>i. i < n) (indices_from (Suc bi) bytes))"
    using Cons by (simp add: fun_eq_iff)
  ultimately show ?case by (simp add: gather_byte_spec keys_of_append)
qed simp

lemma indices_from_eq:
  "indices_from bi bytes = filter (\<lambda>i. bit (bytes ! (i div 8 - bi)) (i mod 8)) [8 * bi..<8 * (bi + length bytes)]"
proof (induction bytes arbitrary: bi)
  case (Cons b bytes)
  have split: "[8 * bi..<8 * (bi + length (b # bytes))] =
      map (\<lambda>k. bi * 8 + k) [0..<8] @ [8 * Suc bi..<8 * (Suc bi + length bytes)]"
    using upt_add_eq_append [of "8 * bi" "8 * bi + 8" "8 * length bytes"] map_add_upt [of "8 * bi" 8]
    by (simp add: algebra_simps)
  have first: "filter (\<lambda>i. bit ((b # bytes) ! (i div 8 - bi)) (i mod 8)) (map (\<lambda>k. bi * 8 + k) [0..<8]) =
      map (\<lambda>k. bi * 8 + k) (byte_indices b)"
    by (auto simp: filter_map byte_indices_def intro!: filter_cong arg_cong [of _ _ "map _"])
  have "(b # bytes) ! (i div 8 - bi) = bytes ! (i div 8 - Suc bi)" if "i \<in> set [8 * Suc bi..<8 * (Suc bi + length bytes)]" for i
  proof -
    have "Suc bi \<le> i div 8" using that by (simp add: less_eq_div_iff_mult_less_eq)
    then have "i div 8 - bi = Suc (i div 8 - Suc bi)" by simp
    then show ?thesis by simp
  qed
  then have "filter (\<lambda>i. bit ((b # bytes) ! (i div 8 - bi)) (i mod 8)) [8 * Suc bi..<8 * (Suc bi + length bytes)] =
      indices_from (Suc bi) bytes"
    unfolding Cons.IH by (intro filter_cong) simp_all
  then show ?case unfolding split by (simp add: first)
qed simp

lemma indices_from_bitlist:
  "filter (\<lambda>i. i < bl_len b) (indices_from 0 (bl_data b)) = bitlist_indices b"
proof (rule sorted_distinct_set_unique)
  show "set (filter (\<lambda>i. i < bl_len b) (indices_from 0 (bl_data b))) = set (bitlist_indices b)"
    by (auto simp: indices_from_eq bitlist_indices_eq data_bit_def)
qed (simp_all add: indices_from_eq bitlist_indices_eq sorted_wrt_filter)

lemma gather_bytes_spec:
  "gather_bytes vs (bl_len b) 0 (bl_data b) [] =
     traverse (\<lambda>i. if i < length vs then Inr (v_pubkey (vs ! i))
       else Inl (Err ''validator index out of range'')) (bitlist_indices b)"
  by (simp add: gather_bytes_keys indices_from_bitlist keys_of_traverse and_then_def split: sum.splits)

lemma gather_bytes_Inr:
  "gather_bytes vs (bl_len b) 0 (bl_data b) [] = Inr keys \<longleftrightarrow>
     (\<forall>i \<in> bits_of b. i < length vs) \<and> keys = map (\<lambda>i. v_pubkey (vs ! i)) (bitlist_indices b)"
proof -
  let ?f = "\<lambda>i. if i < length vs then Inr (v_pubkey (vs ! i)) else Inl (Err ''validator index out of range'')"
  have "list_all2 (\<lambda>x y. ?f x = Inr y) is keys \<longleftrightarrow>
      (\<forall>i \<in> set is. i < length vs) \<and> keys = map (\<lambda>i. v_pubkey (vs ! i)) is" for "is"
    by (induction "is" arbitrary: keys) (auto simp: list_all2_Cons1)
  then show ?thesis
    unfolding gather_bytes_spec traverse_eq_Inr set_bitlist_indices [symmetric] .
qed

definition attestation_verified ::
    "ssz_lib \<Rightarrow> ('pk, 'sk, 'sig, 'agg) pq_lib \<Rightarrow> validator list \<Rightarrow> attestation \<Rightarrow>
     aggregated_signature_proof \<Rightarrow> bool" where
  "attestation_verified L Q vs att proof \<longleftrightarrow>
     bits_of (att_bits att) \<noteq> {} \<and> (\<forall>i \<in> bits_of (att_bits att). i < length vs) \<and>
     verify_aggregate_signature Q (map (\<lambda>i. v_pubkey (vs ! i)) (bitlist_indices (att_bits att)))
       (attestation_data_root L (att_data att)) (ap_proof_data proof) (ucast (ad_slot (att_data att))) = Inr ()"

lemma verify_attestation_proofs_iff:
  "verify_attestation_proofs L Q vs ps = Inr () \<longleftrightarrow> (\<forall>(att, proof) \<in> set ps. attestation_verified L Q vs att proof)"
proof (induction L Q vs ps rule: verify_attestation_proofs.induct)
  case (2 L Q vs att pr rest)
  have "bitlist_indices (att_bits att) = [] \<longleftrightarrow> bits_of (att_bits att) = {}"
    using set_bitlist_indices [of "att_bits att"] by (metis set_empty)
  then show ?case
    using 2 by (auto simp: and_then_eq_Inr gather_bytes_Inr attestation_verified_def split: if_splits)
qed simp

lemma pq_verify_signed_block_iff:
  "pq_verify_signed_block L Q sb s = Inr () \<longleftrightarrow>
     (let block = bwa_block (sb_message sb); pa = bwa_proposer_attestation (sb_message sb);
          atts = bb_attestations (b_body block); proofs = bs_attestation_signatures (sb_signature sb);
          p = unat (b_proposer_index block)
      in length atts = length proofs \<and>
         (\<forall>i < length atts. attestation_verified L Q (st_validators s) (atts ! i) (proofs ! i)) \<and>
         p < length (st_validators s) \<and>
         verify_signature Q (v_pubkey (st_validators s ! p)) (ucast (ad_slot (att_data pa)))
           (attestation_data_root L (att_data pa)) (bs_proposer_signature (sb_signature sb)) = Inr ())"
  by (auto simp: pq_verify_signed_block_def Let_def and_then_eq_Inr verify_attestation_proofs_iff set_zip
      split: if_splits)

section \<open>A concrete transition\<close>

definition sample_parent_root :: bytes32 where
  "sample_parent_root = block_header_root sample_lib (st_latest_block_header sample_state)"

definition sample_mid_state :: state where
  "sample_mid_state = sample_state\<lparr>st_slot := 1,
     st_latest_justified := \<lparr>cp_root = sample_parent_root, cp_slot = 0\<rparr>,
     st_latest_finalized := \<lparr>cp_root = sample_parent_root, cp_slot = 0\<rparr>,
     st_historical_block_hashes := [sample_parent_root],
     st_justified_slots := extend_justified_window bitlist_default 0 1,
     st_latest_block_header := \<lparr>bh_slot = 1, bh_proposer_index = 1, bh_parent_root = sample_parent_root,
       bh_state_root = zero_root, bh_body_root = 0\<rparr>\<rparr>"

definition sample_next :: signed_block where
  "sample_next = \<lparr>
     sb_message = \<lparr>
       bwa_block = \<lparr>b_slot = 1, b_proposer_index = 1, b_parent_root = sample_parent_root,
         b_state_root = state_root sample_lib sample_mid_state, b_body = \<lparr>bb_attestations = []\<rparr>\<rparr>,
       bwa_proposer_attestation = \<lparr>att_bits = proposer_bits 1,
         att_data = \<lparr>ad_slot = 1, ad_head = \<lparr>cp_root = 1, cp_slot = 1\<rparr>,
           ad_target = \<lparr>cp_root = 1, cp_slot = 1\<rparr>, ad_source = \<lparr>cp_root = 0, cp_slot = 0\<rparr>\<rparr>\<rparr>\<rparr>,
     sb_signature = \<lparr>bs_attestation_signatures = [], bs_proposer_signature = 2\<rparr>\<rparr>"

definition sample_post_state :: state where
  "sample_post_state = sample_mid_state\<lparr>st_latest_block_header :=
     (st_latest_block_header sample_mid_state)\<lparr>bh_state_root := state_root sample_lib sample_mid_state\<rparr>\<rparr>"

lemma sample_state_wf: "state_wf sample_state"
  by (simp add: state_wf_def sample_state_def window_inv_def bitlist_default_def data_bit_def)

lemma sample_slots: "process_slots sample_lib sample_state 1 = Inr (sample_state\<lparr>st_slot := 1\<rparr>)"
  by (simp add: process_slots_def process_slots_loop.simps fill_header_root_def sample_state_def zero_root_def)

lemma sample_proposer: "is_proposer_for 1 1 3"
  by (simp add: is_proposer_for_def)

lemma sample_header:
  "process_block_header_assuming_slot sample_lib (sample_state\<lparr>st_slot := 1\<rparr>)
     (block_header_of sample_lib (bwa_block (sb_message sample_next))) = Inr sample_mid_state"
  by (simp add: process_block_header_assuming_slot_def block_header_of_def sample_next_def block_body_root_def
      sample_state_def sample_proposer sample_parent_root_def sample_list_def sample_seq_def
      HISTORICAL_ROOTS_LIMIT_def sample_mid_state_def Let_def)

lemma sample_no_attestations: "process_attestations sample_lib sample_mid_state [] = Inr sample_mid_state"
  by (simp add: process_attestations_def sample_mid_state_def sample_state_def)

lemma sample_transition:
  "state_transition_inner sample_lib sample_state (bwa_block (sb_message sample_next)) = Inr sample_post_state"
proof -
  let ?b = "bwa_block (sb_message sample_next)"
  have b: "b_slot ?b = 1" "b_state_root ?b = state_root sample_lib sample_mid_state"
      "bb_attestations (b_body ?b) = []"
    by (simp_all add: sample_next_def)
  have "bh_body_root (block_header_of sample_lib ?b) = block_body_root sample_lib (b_body ?b)"
    by (simp add: block_header_of_def)
  then show ?thesis
    unfolding state_transition_inner_def b sample_slots and_then_simps Let_def sample_header
      sample_no_attestations
    by (simp add: sample_post_state_def)
qed

section \<open>Properties\<close>

text \<open>
  C21 (the state stays well formed). The genesis state is well formed, and every successful
  state transition keeps it so: the history has one root for every slot before the latest
  header, the finalized slot is at or before the justified one, the justified one at or
  before the latest header and that at or before the slot, and the justified window has no
  stray bits.
\<close>

theorem transition_keeps_state_wf:
  assumes "list_ops_bounded L" and "state_wf s" and "state_transition_inner L s b = Inr s'"
  shows "state_wf s' \<and> state_wf (generate_genesis L t vs)"
  using state_transition_keeps_wf [OF assms] generate_genesis_wf by simp

theorem transition_keeps_state_wf_witness:
  "state_wf sample_post_state \<and> state_wf (generate_genesis sample_lib 0 [])"
  by (rule transition_keeps_state_wf [OF sample_list_ops_bounded sample_state_wf sample_transition])

text \<open>
  C20 (a transition extends the chain). A block that passes the transition is for a later
  slot than the state and its latest header, names that header as its parent and comes
  from the proposer of its slot. Its own header, state root included, becomes the latest
  one. The history grows by the parent root and a zero root for each skipped slot, and
  validators and configuration stay.
\<close>

theorem transition_extends_chain:
  assumes "list_ops_bounded L" and "state_wf s" and "state_transition_inner L s b = Inr s'"
  shows "extends_chain L s b s' \<and>
    block_header_root L (st_latest_block_header s') = block_root L b"
proof -
  have "extends_chain L s b s'" using state_transition_keeps_wf [OF assms] by simp
  then show ?thesis by (simp add: extends_chain_def block_header_root_of)
qed

theorem transition_extends_chain_witness:
  "st_historical_block_hashes sample_post_state = [sample_parent_root] \<and>
   block_header_root sample_lib (st_latest_block_header sample_post_state) =
     block_root sample_lib (bwa_block (sb_message sample_next))"
  using transition_extends_chain [OF sample_list_ops_bounded sample_state_wf sample_transition]
  by (simp add: sample_post_state_def sample_mid_state_def)

text \<open>
  C19 (an accepted block is fully signed). If \<^verbatim>\<open>process_signed_block\<close> accepts, the signature of
  the slot's proposer verifies under its registered key, and every attestation of the body
  has participants, all of them registered, whose keys verify the aggregate that the block
  carries for it. If it refuses, the state is untouched.
\<close>

theorem accepted_block_is_signed:
  assumes "list_ops_bounded L" and "state_wf s"
    and "process_signed_block L Q s sb = (r, s')"
    and "block = bwa_block (sb_message sb)" and "pa = bwa_proposer_attestation (sb_message sb)"
  shows "case r of Inl _ \<Rightarrow> s' = s
    | Inr _ \<Rightarrow> extends_chain L s block s' \<and>
        is_proposer_for (b_proposer_index block) (b_slot block) (of_nat (length (st_validators s))) \<and>
        ad_slot (att_data pa) = b_slot block \<and> bits_of (att_bits pa) = {unat (b_proposer_index block)} \<and>
        verify_signature Q (v_pubkey (st_validators s ! unat (b_proposer_index block)))
          (ucast (b_slot block)) (attestation_data_root L (att_data pa))
          (bs_proposer_signature (sb_signature sb)) = Inr () \<and>
        (\<forall>i < length (bb_attestations (b_body block)).
          attestation_verified L Q (st_validators s) (bb_attestations (b_body block) ! i)
            (bs_attestation_signatures (sb_signature sb) ! i))"
proof (cases r)
  case (Inl e)
  then show ?thesis
    using assms(3) by (auto simp: process_signed_block_def process_signed_block_with_verifier_def split: sum.splits)
next
  case (Inr u)
  then have ok: "validate_basic sb = Inr ()" "pq_verify_signed_block L Q sb s = Inr ()"
      "state_transition_inner L s block = Inr s'"
    using assms(3,4)
    by (auto simp: process_signed_block_def process_signed_block_with_verifier_def and_then_eq_Inr split: sum.splits)
  have ext: "extends_chain L s block s'" using state_transition_keeps_wf [OF assms(1,2) ok(3)] by simp
  have "ad_slot (att_data pa) = b_slot block" "bits_of (att_bits pa) = {unat (b_proposer_index block)}"
    using ok(1) assms(4,5)
    by (auto simp: validate_basic_def Let_def and_then_eq_Inr simp flip: single_set_bit_iff
        split: if_splits option.splits)
  then show ?thesis
    using Inr ok(2) ext assms(4,5) unfolding pq_verify_signed_block_iff Let_def
    by (simp add: extends_chain_def)
qed

lemma sample_accepted: "process_signed_block sample_lib sample_pq sample_state sample_next = (Inr (), sample_post_state)"
proof -
  have "bits_of (proposer_bits 1) = {1}" by (rule single_set_bit_iff [THEN iffD1, OF single_set_bit_proposer_bits])
  then have "single_set_bit (proposer_bits 1) = Some 1" by (simp add: single_set_bit_iff)
  then have "validate_basic sample_next = Inr ()" by (simp add: validate_basic_def sample_next_def Let_def)
  moreover have "pq_verify_signed_block sample_lib sample_pq sample_next sample_state = Inr ()"
    by (simp add: pq_verify_signed_block_def sample_next_def sample_state_def verify_signature_def sample_decode)
      (simp add: sample_pq_def)
  ultimately show ?thesis
    by (simp add: process_signed_block_def process_signed_block_with_verifier_def sample_transition)
qed

theorem accepted_block_is_signed_witness:
  "verify_signature sample_pq 2 1 (attestation_data_root sample_lib
     (att_data (bwa_proposer_attestation (sb_message sample_next)))) 2 = Inr ()"
  using accepted_block_is_signed [OF sample_list_ops_bounded sample_state_wf sample_accepted refl refl]
  by (simp add: sample_next_def sample_state_def)

text \<open>
  (participants are gathered completely). The bit-clearing loops of the verifier give
  the keys of exactly the validators whose bits are set, in ascending order, and an error
  as soon as a participant is not registered. They neither skip a bit nor run for ever.
\<close>

theorem gathered_keys_are_participants:
  "gather_bytes vs (bl_len b) 0 (bl_data b) [] =
     traverse (\<lambda>i. if i < length vs then Inr (v_pubkey (vs ! i))
       else Inl (Err ''validator index out of range'')) (bitlist_indices b)"
  by (rule gather_bytes_spec)

text \<open>
  C30 (a stale attestation invalidates the block). Take an attestation, anywhere in a block
  body, whose source and target are blocks of the canonical chain and whose target lies
  before the finalized slot. It is not skipped, as attestations off the chain are: whatever
  the attestations before it did, the justifiability test returns an error, and with it the
  whole body is refused.
\<close>

theorem stale_attestation_rejects_block:
  assumes "st_validators s \<noteq> []" and "window_inv (st_justified_slots s)" and "att \<in> set atts"
    and "cp_slot (ad_source (att_data att)) < cp_slot (ad_target (att_data att))"
    and "cp_root (ad_source (att_data att)) \<noteq> zero_root" and "cp_root (ad_target (att_data att)) \<noteq> zero_root"
    and "source_matches s (att_data att)"
    and "target_matches s (block_header_root L (st_latest_block_header s)) (att_data att)"
    and "cp_slot (ad_target (att_data att)) < cp_slot (st_latest_finalized s)"
  shows "(\<exists>e. process_attestations L s atts = Inl (Err e)) \<and>
    (\<exists>e. process_block_body L s \<lparr>bb_attestations = atts\<rparr> root = Inl (Err e))"
proof -
  have "admissible_in L s (att_data att)" using assms(4-8) by (simp add: admissible_in_def admissible_def)
  then have "\<exists>e. tally_run (length (st_validators s)) (hm_get (root_slots L s)) (admissible_in L s)
      (tally_of_state s) atts = Inl (Err e)"
    using assms(3,9) by (intro tally_run_stale [OF tally_of_state_wf]) (simp_all add: tally_of_state_def tally_of_def)
  then have "\<exists>e. process_attestations L s atts = Inl (Err e)"
    by (rule process_attestations_error [OF assms(1,2)])
  then show ?thesis by (auto simp: process_block_body_def)
qed

theorem stale_attestation_rejects_block_witness:
  "\<exists>e. process_attestations sample_lib (sample_voting_state\<lparr>st_latest_finalized := \<lparr>cp_root = 23, cp_slot = 2\<rparr>\<rparr>)
     [\<lparr>att_bits = \<lparr>bl_data = [3], bl_len = 3\<rparr>,
       att_data = \<lparr>ad_slot = 2, ad_head = \<lparr>cp_root = 5, cp_slot = 1\<rparr>,
         ad_target = \<lparr>cp_root = 5, cp_slot = 1\<rparr>, ad_source = \<lparr>cp_root = 21, cp_slot = 0\<rparr>\<rparr>\<rparr>,
      \<lparr>att_bits = \<lparr>bl_data = [3], bl_len = 3\<rparr>,
       att_data = \<lparr>ad_slot = 2, ad_head = \<lparr>cp_root = 22, cp_slot = 1\<rparr>,
         ad_target = \<lparr>cp_root = 22, cp_slot = 1\<rparr>, ad_source = \<lparr>cp_root = 21, cp_slot = 0\<rparr>\<rparr>\<rparr>] = Inl (Err e)"
  by (rule stale_attestation_rejects_block [where att = "\<lparr>att_bits = \<lparr>bl_data = [3], bl_len = 3\<rparr>,
       att_data = \<lparr>ad_slot = 2, ad_head = \<lparr>cp_root = 22, cp_slot = 1\<rparr>,
         ad_target = \<lparr>cp_root = 22, cp_slot = 1\<rparr>, ad_source = \<lparr>cp_root = 21, cp_slot = 0\<rparr>\<rparr>\<rparr>", THEN conjunct1])
    (use sample_voting_window in \<open>simp_all add: sample_voting_state_def sample_state_def zero_root_def
      source_matches_def target_matches_def root_at_def two_gt_one_word\<close>)

end
