(* ===== verification/ForkChoice.thy ===== *)
theory ForkChoice
  imports StateTransition "HOL-Library.Product_Lexorder"
begin

text \<open>
  The fork-choice store of \<^verbatim>\<open>src/fork_choice.rs\<close>: a block tree kept twice, as hash maps
  from roots to blocks, states, parents and children, and as an arena of nodes with
  parent and child indices, vote weights and the best child of every node.

  Node indices are \<open>nat\<close> and an index outside the arena is a panic. Vote weights, \<^verbatim>\<open>i64\<close> in
  the code, are \<open>int\<close>: the theory \<open>ProtoArray\<close> shows that a weight is a number of
  validators. Loops that follow parent or best-child links may not end on a cyclic graph.
  They get as many steps as the graph has nodes, and a walk that takes more has met a
  node twice and runs for ever, which is the value \<open>Diverge\<close>.
\<close>

section \<open>Data\<close>

definition JUSTIFICATION_LOOKBACK_SLOTS :: nat where "JUSTIFICATION_LOOKBACK_SLOTS = 3"

record proto_node =
  pn_root :: bytes32
  pn_parent :: "nat option"
  pn_children :: "nat list"
  pn_slot :: u64
  pn_proposer_index :: u64
  pn_weight :: int
  pn_best_child :: "nat option"

record node_snapshot =
  ns_root :: bytes32
  ns_slot :: u64
  ns_parent_root :: bytes32
  ns_proposer_index :: u64
  ns_weight :: nat

datatype vote_disposition = Active | Pending

record fork_choice_store =
  fc_head :: bytes32
  fc_safe_target :: bytes32
  fc_head_slot :: u64
  fc_latest_justified :: checkpoint
  fc_previous_justified :: checkpoint
  fc_latest_finalized :: checkpoint
  fc_reorgs_total :: u64
  fc_validator_count :: nat
  fc_blocks :: "(bytes32, signed_block) hmap"
  fc_states :: "(bytes32, state) hmap"
  fc_parents :: "(bytes32, bytes32) hmap"
  fc_children :: "(bytes32, bytes32 list) hmap"
  fc_nodes :: "proto_node list"
  fc_node_indices :: "(bytes32, nat) hmap"
  fc_latest_votes :: "(nat, bytes32) hmap"
  fc_latest_new_votes :: "(nat, bytes32) hmap"

definition index_at :: "'a list \<Rightarrow> nat \<Rightarrow> 'a result" where
  "index_at xs i = (if i < length xs then Inr (xs ! i) else Inl Panic)"

abbreviation block_of :: "signed_block \<Rightarrow> block" where
  "block_of sb \<equiv> bwa_block (sb_message sb)"

definition push_child :: "bytes32 \<Rightarrow> bytes32 \<Rightarrow> (bytes32, bytes32 list) hmap \<Rightarrow>
    (bytes32, bytes32 list) hmap" where
  "push_child parent root children =
     hm_insert parent ((case hm_get children parent of None \<Rightarrow> [] | Some rs \<Rightarrow> rs) @ [root]) children"

definition new_node :: "bytes32 \<Rightarrow> nat option \<Rightarrow> u64 \<Rightarrow> u64 \<Rightarrow> proto_node" where
  "new_node root parent slot proposer_index =
     \<lparr>pn_root = root, pn_parent = parent, pn_children = [], pn_slot = slot,
      pn_proposer_index = proposer_index, pn_weight = 0, pn_best_child = None\<rparr>"

section \<open>The node arena\<close>

definition child_is_better :: "proto_node list \<Rightarrow> nat \<Rightarrow> nat \<Rightarrow> bool result" where
  "child_is_better nodes candidate_idx incumbent_idx =
     and_then (index_at nodes candidate_idx) (\<lambda>candidate.
     and_then (index_at nodes incumbent_idx) (\<lambda>incumbent.
     Inr (pn_weight candidate > pn_weight incumbent \<or>
       (pn_weight candidate = pn_weight incumbent \<and> pn_root candidate < pn_root incumbent))))"

fun best_child_loop :: "proto_node list \<Rightarrow> nat list \<Rightarrow> nat option \<Rightarrow> nat option result" where
  "best_child_loop nodes [] best_child = Inr best_child"
| "best_child_loop nodes (child_idx # rest) None = best_child_loop nodes rest (Some child_idx)"
| "best_child_loop nodes (child_idx # rest) (Some current_best) =
     and_then (child_is_better nodes child_idx current_best) (\<lambda>better.
     best_child_loop nodes rest (if \<not> better then Some current_best else Some child_idx))"

definition recompute_best_child :: "proto_node list \<Rightarrow> nat \<Rightarrow> proto_node list result" where
  "recompute_best_child nodes parent_idx =
     and_then (index_at nodes parent_idx) (\<lambda>parent.
     and_then (best_child_loop nodes (pn_children parent) None) (\<lambda>best_child.
     Inr (nodes[parent_idx := parent\<lparr>pn_best_child := best_child\<rparr>])))"

fun propagate_loop :: "nat \<Rightarrow> proto_node list \<Rightarrow> nat option \<Rightarrow> int \<Rightarrow> proto_node list result" where
  "propagate_loop fuel nodes None delta = Inr nodes"
| "propagate_loop 0 nodes (Some idx) delta = Inl Diverge"
| "propagate_loop (Suc fuel) nodes (Some idx) delta =
     and_then (index_at nodes idx) (\<lambda>node.
     let nodes = nodes[idx := node\<lparr>pn_weight := pn_weight node + delta\<rparr>];
         parent = pn_parent node
     in and_then (case parent of None \<Rightarrow> Inr nodes
                  | Some parent_idx \<Rightarrow> recompute_best_child nodes parent_idx) (\<lambda>nodes.
        propagate_loop fuel nodes parent delta))"

definition propagate_weight_from_index ::
    "proto_node list \<Rightarrow> nat \<Rightarrow> int \<Rightarrow> proto_node list result" where
  "propagate_weight_from_index nodes start_idx delta =
     propagate_loop (length nodes) nodes (Some start_idx) delta"

definition attach_child :: "proto_node list \<Rightarrow> nat \<Rightarrow> nat \<Rightarrow> proto_node list result" where
  "attach_child nodes parent_idx child_idx =
     and_then (index_at nodes child_idx) (\<lambda>child.
     if pn_parent child = Some parent_idx then Inr nodes
     else if pn_parent child \<noteq> None then Inr nodes
     else
       let nodes = nodes[child_idx := child\<lparr>pn_parent := Some parent_idx\<rparr>] in
       and_then (index_at nodes parent_idx) (\<lambda>parent.
       let nodes = (if child_idx \<notin> set (pn_children parent)
             then nodes[parent_idx := parent\<lparr>pn_children := pn_children parent @ [child_idx]\<rparr>]
             else nodes)
       in and_then (recompute_best_child nodes parent_idx) (\<lambda>nodes.
          and_then (index_at nodes child_idx) (\<lambda>child.
          let child_weight = pn_weight child in
          if child_weight \<noteq> 0 then propagate_weight_from_index nodes parent_idx child_weight
          else Inr nodes))))"

fun attach_children_loop ::
    "(bytes32, nat) hmap \<Rightarrow> proto_node list \<Rightarrow> bytes32 \<Rightarrow> nat \<Rightarrow> bytes32 list \<Rightarrow>
     proto_node list result" where
  "attach_children_loop node_indices nodes parent_root parent_idx [] = Inr nodes"
| "attach_children_loop node_indices nodes parent_root parent_idx (child_root # rest) =
     (if child_root = parent_root
      then attach_children_loop node_indices nodes parent_root parent_idx rest
      else case hm_get node_indices child_root of
        None \<Rightarrow> attach_children_loop node_indices nodes parent_root parent_idx rest
      | Some child_idx \<Rightarrow>
          and_then (attach_child nodes parent_idx child_idx) (\<lambda>nodes.
          attach_children_loop node_indices nodes parent_root parent_idx rest))"

definition attach_known_children ::
    "(bytes32, bytes32 list) hmap \<Rightarrow> (bytes32, nat) hmap \<Rightarrow> proto_node list \<Rightarrow> bytes32 \<Rightarrow> nat \<Rightarrow>
     proto_node list result" where
  "attach_known_children children node_indices nodes parent_root parent_idx =
     (case hm_get children parent_root of
        None \<Rightarrow> Inr nodes
      | Some child_roots \<Rightarrow>
          attach_children_loop node_indices nodes parent_root parent_idx child_roots)"

definition insert_proto_node ::
    "fork_choice_store \<Rightarrow> bytes32 \<Rightarrow> bytes32 \<Rightarrow> u64 \<Rightarrow> u64 \<Rightarrow> fork_choice_store result" where
  "insert_proto_node st root parent_root slot proposer_index =
     (if hm_contains (fc_node_indices st) root then Inr st
      else
        let node_idx = length (fc_nodes st);
            nodes = fc_nodes st @ [new_node root None slot proposer_index];
            node_indices = hm_insert root node_idx (fc_node_indices st)
        in and_then (case hm_get node_indices parent_root of
                       None \<Rightarrow> Inr nodes
                     | Some parent_idx \<Rightarrow> attach_child nodes parent_idx node_idx) (\<lambda>nodes.
           and_then (attach_known_children (fc_children st) node_indices nodes root node_idx)
             (\<lambda>nodes.
           Inr (st\<lparr>fc_nodes := nodes, fc_node_indices := node_indices\<rparr>))))"

section \<open>Votes\<close>

definition apply_vote_delta ::
    "fork_choice_store \<Rightarrow> bytes32 \<Rightarrow> int \<Rightarrow> fork_choice_store result" where
  "apply_vote_delta st root delta =
     (case hm_get (fc_node_indices st) root of
        None \<Rightarrow> Inr st
      | Some node_idx \<Rightarrow>
          and_then (propagate_weight_from_index (fc_nodes st) node_idx delta) (\<lambda>nodes.
          Inr (st\<lparr>fc_nodes := nodes\<rparr>)))"

definition set_latest_vote ::
    "fork_choice_store \<Rightarrow> nat \<Rightarrow> bytes32 \<Rightarrow> fork_choice_store result" where
  "set_latest_vote st validator_id root =
     (let previous = hm_get (fc_latest_votes st) validator_id;
          st = st\<lparr>fc_latest_votes := hm_insert validator_id root (fc_latest_votes st)\<rparr>
      in if previous = Some root then Inr st
         else
           and_then (case previous of None \<Rightarrow> Inr st
                     | Some old_root \<Rightarrow> apply_vote_delta st old_root (- 1)) (\<lambda>st.
           apply_vote_delta st root 1))"

definition resolve_vote_root :: "(bytes32, signed_block) hmap \<Rightarrow> attestation \<Rightarrow> bytes32 option" where
  "resolve_vote_root blocks attestation =
     (let head_root = cp_root (ad_head (att_data attestation)) in
      if hm_contains blocks head_root then Some head_root else None)"

fun vote_loop ::
    "fork_choice_store \<Rightarrow> vote_disposition \<Rightarrow> bytes32 \<Rightarrow> nat list \<Rightarrow> fork_choice_store result" where
  "vote_loop st disposition vote_root [] = Inr st"
| "vote_loop st Active vote_root (validator_id # rest) =
     and_then (set_latest_vote st validator_id vote_root) (\<lambda>st.
     vote_loop st Active vote_root rest)"
| "vote_loop st Pending vote_root (validator_id # rest) =
     vote_loop (st\<lparr>fc_latest_new_votes :=
       hm_insert validator_id vote_root (fc_latest_new_votes st)\<rparr>) Pending vote_root rest"

definition apply_attestation_votes ::
    "fork_choice_store \<Rightarrow> attestation \<Rightarrow> vote_disposition \<Rightarrow> (bool \<times> fork_choice_store) result" where
  "apply_attestation_votes st attestation disposition =
     (case resolve_vote_root (fc_blocks st) attestation of
        None \<Rightarrow> Inr (False, st)
      | Some vote_root \<Rightarrow>
          and_then (vote_loop st disposition vote_root (bitlist_indices (att_bits attestation)))
            (\<lambda>st. Inr (True, st)))"

definition on_attestation ::
    "fork_choice_store \<Rightarrow> attestation \<Rightarrow> (bool \<times> fork_choice_store) result" where
  "on_attestation st attestation = apply_attestation_votes st attestation Pending"

section \<open>Head, ancestry and safe target\<close>

fun best_leaf :: "nat \<Rightarrow> proto_node list \<Rightarrow> nat \<Rightarrow> nat result" where
  "best_leaf 0 nodes current =
     and_then (index_at nodes current) (\<lambda>node.
     case pn_best_child node of None \<Rightarrow> Inr current | Some best_child \<Rightarrow> Inl Diverge)"
| "best_leaf (Suc fuel) nodes current =
     and_then (index_at nodes current) (\<lambda>node.
     case pn_best_child node of None \<Rightarrow> Inr current
     | Some best_child \<Rightarrow> best_leaf fuel nodes best_child)"

definition find_head :: "fork_choice_store \<Rightarrow> bytes32 result" where
  "find_head st =
     (case hm_get (fc_node_indices st) (cp_root (fc_latest_justified st)) of
        None \<Rightarrow> Inr (fc_head st)
      | Some start_idx \<Rightarrow>
          and_then (best_leaf (length (fc_nodes st)) (fc_nodes st) start_idx) (\<lambda>current.
          and_then (index_at (fc_nodes st) current) (\<lambda>node. Inr (pn_root node))))"

definition subtree_weight :: "fork_choice_store \<Rightarrow> bytes32 \<Rightarrow> nat" where
  "subtree_weight st root =
     (case hm_get (fc_node_indices st) root of
        None \<Rightarrow> 0
      | Some idx \<Rightarrow>
          if idx < length (fc_nodes st) then nat (max (pn_weight (fc_nodes st ! idx)) 0) else 0)"

fun is_descendant_loop ::
    "nat \<Rightarrow> (bytes32, bytes32) hmap \<Rightarrow> bytes32 \<Rightarrow> bytes32 \<Rightarrow> bool result" where
  "is_descendant_loop fuel parents node ancestor =
     (case hm_get parents node of
        None \<Rightarrow> Inr False
      | Some parent \<Rightarrow>
          if parent = ancestor then Inr True
          else if parent = zero_root then Inr False
          else (case fuel of 0 \<Rightarrow> Inl Diverge
                | Suc fuel \<Rightarrow> is_descendant_loop fuel parents parent ancestor))"

declare is_descendant_loop.simps [simp del]

definition is_descendant :: "fork_choice_store \<Rightarrow> bytes32 \<Rightarrow> bytes32 \<Rightarrow> bool result" where
  "is_descendant st node ancestor =
     (if node = ancestor then Inr True
      else is_descendant_loop (length (fc_parents st)) (fc_parents st) node ancestor)"

fun safe_target_loop ::
    "fork_choice_store \<Rightarrow> bytes32 \<Rightarrow> (bytes32 \<times> signed_block) list \<Rightarrow> bytes32 \<Rightarrow> u64 \<Rightarrow>
     bytes32 result" where
  "safe_target_loop st anchor_root [] best_root best_slot = Inr best_root"
| "safe_target_loop st anchor_root ((root, sb) # rest) best_root best_slot =
     and_then (is_descendant st root anchor_root) (\<lambda>descends.
     if \<not> descends then safe_target_loop st anchor_root rest best_root best_slot
     else
       let vote_weight = subtree_weight st root in
       if 3 * vote_weight < 2 * fc_validator_count st
       then safe_target_loop st anchor_root rest best_root best_slot
       else
         let slot = b_slot (block_of sb) in
         if slot > best_slot \<or> (slot = best_slot \<and> root < best_root)
         then safe_target_loop st anchor_root rest root slot
         else safe_target_loop st anchor_root rest best_root best_slot)"

definition safe_anchor :: "fork_choice_store \<Rightarrow> bytes32" where
  "safe_anchor st =
     (let finalized_root = cp_root (fc_latest_finalized st) in
      if hm_contains (fc_blocks st) finalized_root then finalized_root
      else if hm_contains (fc_blocks st) (cp_root (fc_latest_justified st))
      then cp_root (fc_latest_justified st)
      else fc_head st)"

definition refresh_safe_target :: "fork_choice_store \<Rightarrow> fork_choice_store result" where
  "refresh_safe_target st =
     (if fc_validator_count st = 0 then Inr (st\<lparr>fc_safe_target := fc_head st\<rparr>)
      else
        let best_root = safe_anchor st;
            best_slot = (case hm_get (fc_blocks st) best_root of
                None \<Rightarrow> fc_head_slot st | Some sb \<Rightarrow> b_slot (block_of sb))
        in and_then (safe_target_loop st best_root (fc_blocks st) best_root best_slot) (\<lambda>best_root.
           Inr (st\<lparr>fc_safe_target := best_root\<rparr>)))"

definition update_safe_target :: "fork_choice_store \<Rightarrow> fork_choice_store result" where
  "update_safe_target st = refresh_safe_target st"

fun is_reorg_loop :: "nat \<Rightarrow> (bytes32, bytes32) hmap \<Rightarrow> bytes32 \<Rightarrow> bytes32 \<Rightarrow> bool result" where
  "is_reorg_loop fuel parents old_head node =
     (if node = old_head then Inr False
      else case hm_get parents node of
        None \<Rightarrow> Inr True
      | Some parent \<Rightarrow>
          if parent \<noteq> zero_root
          then (case fuel of 0 \<Rightarrow> Inl Diverge
                | Suc fuel \<Rightarrow> is_reorg_loop fuel parents old_head parent)
          else Inr True)"

declare is_reorg_loop.simps [simp del]

definition head_change_is_reorg :: "fork_choice_store \<Rightarrow> bytes32 \<Rightarrow> bytes32 \<Rightarrow> bool result" where
  "head_change_is_reorg st old_head new_head =
     (if old_head = new_head then Inr False
      else is_reorg_loop (length (fc_parents st)) (fc_parents st) old_head new_head)"

fun ancestors_loop ::
    "nat \<Rightarrow> (bytes32, bytes32) hmap \<Rightarrow> bytes32 \<Rightarrow> bytes32 list \<Rightarrow> bytes32 list result" where
  "ancestors_loop fuel parents node ancestors =
     (case hm_get parents node of
        None \<Rightarrow> Inr ancestors
      | Some parent \<Rightarrow>
          if parent \<noteq> zero_root
          then (case fuel of 0 \<Rightarrow> Inl Diverge
                | Suc fuel \<Rightarrow> ancestors_loop fuel parents parent (parent # ancestors))
          else Inr ancestors)"

declare ancestors_loop.simps [simp del]

fun reorg_depth_loop ::
    "nat \<Rightarrow> (bytes32, bytes32) hmap \<Rightarrow> bytes32 list \<Rightarrow> bytes32 \<Rightarrow> u64 \<Rightarrow> u64 result" where
  "reorg_depth_loop fuel parents ancestors_of_new node depth =
     (if node \<in> set ancestors_of_new then Inr depth
      else case hm_get parents node of
        None \<Rightarrow> Inr depth
      | Some parent \<Rightarrow>
          if parent \<noteq> zero_root
          then (case fuel of 0 \<Rightarrow> Inl Diverge
                | Suc fuel \<Rightarrow> reorg_depth_loop fuel parents ancestors_of_new parent (depth + 1))
          else Inr depth)"

declare reorg_depth_loop.simps [simp del]

definition reorg_depth :: "fork_choice_store \<Rightarrow> bytes32 \<Rightarrow> bytes32 \<Rightarrow> u64 result" where
  "reorg_depth st old_head new_head =
     and_then (ancestors_loop (length (fc_parents st)) (fc_parents st) new_head [new_head])
       (\<lambda>ancestors_of_new.
     reorg_depth_loop (length (fc_parents st)) (fc_parents st) ancestors_of_new old_head 0)"

section \<open>Accessors\<close>

definition checkpoint_for_root :: "fork_choice_store \<Rightarrow> bytes32 \<Rightarrow> checkpoint option" where
  "checkpoint_for_root st root =
     (case hm_get (fc_blocks st) root of
        None \<Rightarrow> None
      | Some sb \<Rightarrow> Some \<lparr>cp_root = root, cp_slot = b_slot (block_of sb)\<rparr>)"

definition override_checkpoint_roots :: "fork_choice_store \<Rightarrow> bytes32 \<Rightarrow> fork_choice_store" where
  "override_checkpoint_roots st anchor_root =
     (let st = st\<lparr>fc_latest_justified := (fc_latest_justified st)\<lparr>cp_root := anchor_root\<rparr>,
                  fc_latest_finalized := (fc_latest_finalized st)\<lparr>cp_root := anchor_root\<rparr>,
                  fc_previous_justified := (fc_previous_justified st)\<lparr>cp_root := anchor_root\<rparr>,
                  fc_safe_target := anchor_root, fc_head := anchor_root\<rparr>
      in case hm_get (fc_blocks st) anchor_root of
           None \<Rightarrow> st
         | Some sb \<Rightarrow> st\<lparr>fc_head_slot := b_slot (block_of sb)\<rparr>)"

definition head_validator_count :: "fork_choice_store \<Rightarrow> nat" where
  "head_validator_count st =
     (case hm_get (fc_states st) (fc_head st) of None \<Rightarrow> 0 | Some s \<Rightarrow> length (st_validators s))"

definition safe_target_slot :: "fork_choice_store \<Rightarrow> u64" where
  "safe_target_slot st =
     (case hm_get (fc_blocks st) (fc_safe_target st) of
        None \<Rightarrow> fc_head_slot st | Some sb \<Rightarrow> b_slot (block_of sb))"

definition gossip_signatures_count :: "fork_choice_store \<Rightarrow> nat" where
  "gossip_signatures_count st = length (fc_latest_new_votes st)"

definition latest_votes_count :: "fork_choice_store \<Rightarrow> nat" where
  "latest_votes_count st = length (fc_latest_votes st)"

definition node_snapshots :: "fork_choice_store \<Rightarrow> node_snapshot list" where
  "node_snapshots st =
     sort_key (\<lambda>s. (ns_slot s, ns_root s))
       (map (\<lambda>node. \<lparr>ns_root = pn_root node, ns_slot = pn_slot node,
               ns_parent_root = (case hm_get (fc_parents st) (pn_root node) of
                   None \<Rightarrow> zero_root | Some parent \<Rightarrow> parent),
               ns_proposer_index = pn_proposer_index node,
               ns_weight = nat (max (pn_weight node) 0)\<rparr>) (fc_nodes st))"

section \<open>Attestation targets\<close>

text \<open>\<^verbatim>\<open>None\<close> inside the result is the \<^verbatim>\<open>None\<close> that the code returns.\<close>

fun lookback_loop :: "nat \<Rightarrow> fork_choice_store \<Rightarrow> u64 \<Rightarrow> bytes32 \<Rightarrow> bytes32 option" where
  "lookback_loop 0 st safe_slot target_root = Some target_root"
| "lookback_loop (Suc n) st safe_slot target_root =
     (case hm_get (fc_blocks st) target_root of
        None \<Rightarrow> None
      | Some sb \<Rightarrow>
          if b_slot (block_of sb) \<le> safe_slot then Some target_root
          else (case hm_get (fc_parents st) target_root of
                  None \<Rightarrow> None
                | Some parent \<Rightarrow>
                    if parent = zero_root then Some target_root
                    else lookback_loop n st safe_slot parent))"

fun justifiable_loop ::
    "nat \<Rightarrow> fork_choice_store \<Rightarrow> slot \<Rightarrow> bytes32 \<Rightarrow> bytes32 option result" where
  "justifiable_loop fuel st finalized_slot target_root =
     (case hm_get (fc_blocks st) target_root of
        None \<Rightarrow> Inr None
      | Some sb \<Rightarrow>
          (case is_justifiable_after (b_slot (block_of sb)) finalized_slot of
             Inr True \<Rightarrow> Inr (Some target_root)
           | Inr False \<Rightarrow>
               (case hm_get (fc_parents st) target_root of
                  None \<Rightarrow> Inr None
                | Some parent \<Rightarrow>
                    if parent = zero_root then Inr (Some target_root)
                    else (case fuel of 0 \<Rightarrow> Inl Diverge
                          | Suc fuel \<Rightarrow> justifiable_loop fuel st finalized_slot parent))
           | Inl _ \<Rightarrow> Inr None))"

declare justifiable_loop.simps [simp del]

definition attestation_target ::
    "fork_choice_store \<Rightarrow> slot \<Rightarrow> checkpoint option result" where
  "attestation_target st finalized_slot =
     (let safe_slot = safe_target_slot st in
      case lookback_loop JUSTIFICATION_LOOKBACK_SLOTS st safe_slot (fc_head st) of
        None \<Rightarrow> Inr None
      | Some target_root \<Rightarrow>
          and_then (justifiable_loop (length (fc_parents st)) st finalized_slot target_root)
            (\<lambda>target_root.
          case target_root of
            None \<Rightarrow> Inr None
          | Some target_root \<Rightarrow>
              (case checkpoint_for_root st target_root of
                 None \<Rightarrow> Inr None
               | Some target \<Rightarrow>
                   if cp_slot target < cp_slot (fc_latest_justified st)
                   then Inr (Some (fc_latest_justified st))
                   else Inr (Some target))))"

section \<open>Pruning below the finalized block\<close>

text \<open>\<open>kept_loop\<close> collects the descendants of the finalized root and \<open>build_loop\<close> rebuilds
  the maps and the arena from them. Both pop a stack; a root is expanded once, so the
  number of known parents that were not expanded yet, then the height of the stack,
  decrease.\<close>

function kept_loop ::
    "(bytes32, signed_block) hmap \<Rightarrow> (bytes32, bytes32 list) hmap \<Rightarrow> bytes32 list \<Rightarrow>
     bytes32 list \<Rightarrow> bytes32 list" where
  "kept_loop old_blocks old_children kept_roots [] = kept_roots"
| "kept_loop old_blocks old_children kept_roots (root # stack) =
     (if root \<in> set kept_roots then kept_loop old_blocks old_children kept_roots stack
      else case hm_get old_children root of
        None \<Rightarrow> kept_loop old_blocks old_children (root # kept_roots) stack
      | Some children \<Rightarrow>
          kept_loop old_blocks old_children (root # kept_roots)
            (rev (filter (hm_contains old_blocks) children) @ stack))"
  by pat_completeness auto
termination
proof (relation "measures [\<lambda>(_, ch, kept, _). card (fst ` set ch - set kept),
    \<lambda>(_, _, _, stack). length stack]", goal_cases)
  case (4 bs ch kept root stack rs)
  then have "root \<in> fst ` set ch - set kept" by (force dest: map_of_SomeD)
  then have "card (fst ` set ch - set (root # kept)) < card (fst ` set ch - set kept)"
    by (intro psubset_card_mono) auto
  then show ?case by simp
next
  case (3 bs ch kept root stack)
  then have "fst ` set ch - set (root # kept) = fst ` set ch - set kept"
    by (auto simp: map_of_eq_None_iff)
  then show ?case by simp
qed auto

record rebuilt =
  rb_blocks :: "(bytes32, signed_block) hmap"
  rb_states :: "(bytes32, state) hmap"
  rb_parents :: "(bytes32, bytes32) hmap"
  rb_children :: "(bytes32, bytes32 list) hmap"
  rb_nodes :: "proto_node list"
  rb_node_indices :: "(bytes32, nat) hmap"

definition rebuild_add ::
    "rebuilt \<Rightarrow> bytes32 \<Rightarrow> nat option \<Rightarrow> signed_block \<Rightarrow> state \<Rightarrow> rebuilt result" where
  "rebuild_add rb root parent_idx sb s =
     (let idx = length (rb_nodes rb);
          rb = rb\<lparr>rb_node_indices := hm_insert root idx (rb_node_indices rb),
                  rb_blocks := hm_insert root sb (rb_blocks rb),
                  rb_states := hm_insert root s (rb_states rb),
                  rb_nodes := rb_nodes rb @ [new_node root parent_idx (b_slot (block_of sb))
                    (b_proposer_index (block_of sb))]\<rparr>
      in case parent_idx of
           None \<Rightarrow> Inr (rb\<lparr>rb_parents := hm_insert root zero_root (rb_parents rb)\<rparr>)
         | Some p \<Rightarrow>
             and_then (index_at (rb_nodes rb) p) (\<lambda>parent.
             Inr (rb\<lparr>rb_nodes := (rb_nodes rb)[p := parent\<lparr>pn_children := pn_children parent @ [idx]\<rparr>],
                     rb_parents := hm_insert root (pn_root parent) (rb_parents rb),
                     rb_children := push_child (pn_root parent) root (rb_children rb)\<rparr>)))"

lemma rebuild_add_indices:
  "rebuild_add rb root parent_idx sb s = Inr rb' \<Longrightarrow>
   rb_node_indices rb' = hm_insert root (length (rb_nodes rb)) (rb_node_indices rb)"
  by (auto simp: rebuild_add_def Let_def and_then_eq_Inr split: option.splits)

function build_loop ::
    "(bytes32, signed_block) hmap \<Rightarrow> (bytes32, state) hmap \<Rightarrow> (bytes32, bytes32 list) hmap \<Rightarrow>
     bytes32 list \<Rightarrow> rebuilt \<Rightarrow> (bytes32 \<times> nat option) list \<Rightarrow> rebuilt result" where
  "build_loop old_blocks old_states old_children kept_roots rb [] = Inr rb"
| "build_loop old_blocks old_states old_children kept_roots rb ((root, parent_idx) # stack) =
     (if hm_contains (rb_node_indices rb) root
      then build_loop old_blocks old_states old_children kept_roots rb stack
      else case hm_get old_blocks root of
        None \<Rightarrow> build_loop old_blocks old_states old_children kept_roots rb stack
      | Some sb \<Rightarrow>
          (case hm_get old_states root of
             None \<Rightarrow> build_loop old_blocks old_states old_children kept_roots rb stack
           | Some s \<Rightarrow>
               and_then (rebuild_add rb root parent_idx sb s) (\<lambda>rb'.
               case hm_get old_children root of
                 None \<Rightarrow> build_loop old_blocks old_states old_children kept_roots rb' stack
               | Some child_roots \<Rightarrow>
                   build_loop old_blocks old_states old_children kept_roots rb'
                     (map (\<lambda>child_root. (child_root, Some (length (rb_nodes rb))))
                        (filter (\<lambda>r. r \<in> set kept_roots) child_roots) @ stack))))"
  by pat_completeness auto
termination
proof (relation "measures [\<lambda>(_, _, ch, _, rb, _). card (fst ` set ch - fst ` set (rb_node_indices rb)),
    \<lambda>(_, _, _, _, _, stack). length stack]", goal_cases)
  case (6 bs sts ch kept rb root p stack sb s rb' rs)
  then have "fst ` set (rb_node_indices rb') = insert root (fst ` set (rb_node_indices rb))"
    by (simp add: rebuild_add_indices dom_update [unfolded image_set [symmetric]])
  moreover have "root \<in> fst ` set ch - fst ` set (rb_node_indices rb)"
    using 6 by (force dest: map_of_SomeD simp: hm_contains_iff)
  ultimately have "card (fst ` set ch - fst ` set (rb_node_indices rb'))
      < card (fst ` set ch - fst ` set (rb_node_indices rb))"
    by (intro psubset_card_mono) auto
  then show ?case by simp
next
  case (5 bs sts ch kept rb root p stack sb s rb')
  then have "fst ` set (rb_node_indices rb') = insert root (fst ` set (rb_node_indices rb))"
    by (simp add: rebuild_add_indices dom_update [unfolded image_set [symmetric]])
  then have "fst ` set ch - fst ` set (rb_node_indices rb') = fst ` set ch - fst ` set (rb_node_indices rb)"
    using 5 by (auto simp: map_of_eq_None_iff)
  then show ?case by simp
qed auto

fun normalize_loop ::
    "nat \<Rightarrow> (bytes32, bytes32) hmap \<Rightarrow> bytes32 \<Rightarrow> bytes32 \<Rightarrow> bytes32 \<Rightarrow> bytes32 option result" where
  "normalize_loop fuel old_parents finalized_root root cursor =
     (if cursor = root then Inr (Some finalized_root)
      else case hm_get old_parents cursor of
        None \<Rightarrow> Inr None
      | Some parent \<Rightarrow>
          if parent = zero_root then Inr None
          else (case fuel of 0 \<Rightarrow> Inl Diverge
                | Suc fuel \<Rightarrow> normalize_loop fuel old_parents finalized_root root parent))"

declare normalize_loop.simps [simp del]

definition normalize_pruned_vote_root ::
    "bytes32 \<Rightarrow> bytes32 \<Rightarrow> bytes32 list \<Rightarrow> (bytes32, bytes32) hmap \<Rightarrow> bytes32 option result" where
  "normalize_pruned_vote_root root finalized_root kept_roots old_parents =
     (if root \<in> set kept_roots then Inr (Some root)
      else normalize_loop (length old_parents) old_parents finalized_root root finalized_root)"

fun normalize_votes ::
    "bytes32 \<Rightarrow> bytes32 list \<Rightarrow> (bytes32, bytes32) hmap \<Rightarrow> (nat, bytes32) hmap \<Rightarrow>
     (nat, bytes32) hmap result" where
  "normalize_votes finalized_root kept_roots old_parents [] = Inr []"
| "normalize_votes finalized_root kept_roots old_parents ((validator_id, root) # votes) =
     and_then (normalize_pruned_vote_root root finalized_root kept_roots old_parents) (\<lambda>r.
     and_then (normalize_votes finalized_root kept_roots old_parents votes) (\<lambda>rest.
     Inr (case r of None \<Rightarrow> rest | Some normalized \<Rightarrow> (validator_id, normalized) # rest)))"

fun recompute_all :: "proto_node list \<Rightarrow> nat \<Rightarrow> proto_node list result" where
  "recompute_all nodes 0 = Inr nodes"
| "recompute_all nodes (Suc idx) =
     and_then (recompute_best_child nodes idx) (\<lambda>nodes. recompute_all nodes idx)"

fun apply_votes :: "fork_choice_store \<Rightarrow> bytes32 list \<Rightarrow> fork_choice_store result" where
  "apply_votes st [] = Inr st"
| "apply_votes st (root # roots) =
     and_then (apply_vote_delta st root 1) (\<lambda>st. apply_votes st roots)"

text \<open>The part of \<^verbatim>\<open>prune_finalized_history\<close> after the votes were replayed: checkpoints,
  safe target and head that point to pruned blocks are moved into the kept tree.\<close>

definition repoint_pruned :: "fork_choice_store \<Rightarrow> fork_choice_store result" where
  "repoint_pruned st =
     (let finalized_root = cp_root (fc_latest_finalized st);
          finalized_slot = cp_slot (fc_latest_finalized st);
          known = hm_contains (fc_node_indices st);
          st = (if \<not> known (cp_root (fc_latest_justified st))
                then st\<lparr>fc_latest_justified := fc_latest_finalized st\<rparr> else st);
          st = (if \<not> known (cp_root (fc_previous_justified st))
                then st\<lparr>fc_previous_justified := fc_latest_justified st\<rparr> else st);
          st = (if \<not> known (fc_safe_target st) then st\<lparr>fc_safe_target := finalized_root\<rparr> else st)
      in and_then (find_head st) (\<lambda>head.
         let st = st\<lparr>fc_head := head,
                     fc_head_slot := (case hm_get (fc_blocks st) head of
                         None \<Rightarrow> finalized_slot | Some sb \<Rightarrow> b_slot (block_of sb))\<rparr>;
             st = (if \<not> known (fc_head st)
                   then st\<lparr>fc_head := finalized_root, fc_head_slot := finalized_slot\<rparr> else st)
         in refresh_safe_target st))"

definition empty_rebuilt :: rebuilt where
  "empty_rebuilt = \<lparr>rb_blocks = [], rb_states = [], rb_parents = [], rb_children = [],
     rb_nodes = [], rb_node_indices = []\<rparr>"

definition prune_finalized_history :: "fork_choice_store \<Rightarrow> (nat \<times> fork_choice_store) result" where
  "prune_finalized_history st =
     (let finalized_root = cp_root (fc_latest_finalized st) in
      if finalized_root = zero_root \<or> \<not> hm_contains (fc_blocks st) finalized_root then Inr (0, st)
      else
        let kept_roots = kept_loop (fc_blocks st) (fc_children st) [] [finalized_root] in
        and_then (build_loop (fc_blocks st) (fc_states st) (fc_children st) kept_roots empty_rebuilt
                    [(finalized_root, None)]) (\<lambda>rb.
        and_then (recompute_all (rb_nodes rb) (length (rb_nodes rb))) (\<lambda>nodes.
        and_then (normalize_votes finalized_root kept_roots (fc_parents st) (fc_latest_votes st))
          (\<lambda>latest_votes.
        and_then (normalize_votes finalized_root kept_roots (fc_parents st) (fc_latest_new_votes st))
          (\<lambda>latest_new_votes.
        let st' = st\<lparr>fc_blocks := rb_blocks rb, fc_states := rb_states rb,
                     fc_parents := rb_parents rb, fc_children := rb_children rb,
                     fc_nodes := nodes, fc_node_indices := rb_node_indices rb,
                     fc_latest_votes := latest_votes, fc_latest_new_votes := latest_new_votes\<rparr>
        in and_then (apply_votes st' (map snd latest_votes)) (\<lambda>st'.
           and_then (repoint_pruned st') (\<lambda>st'.
           Inr (length (fc_blocks st) - length (fc_blocks st'), st'))))))))"

section \<open>Blocks\<close>

definition state_matches_block_root :: "ssz_lib \<Rightarrow> state \<Rightarrow> bytes32 \<Rightarrow> bool" where
  "state_matches_block_root L s expected \<longleftrightarrow>
     bh_state_root (st_latest_block_header s) = expected \<or> state_root L s = expected"

definition fork_choice_new :: "ssz_lib \<Rightarrow> signed_block \<Rightarrow> state \<Rightarrow> fork_choice_store result" where
  "fork_choice_new L anchor_block anchor_state =
     (let block = block_of anchor_block in
      if \<not> state_matches_block_root L anchor_state (b_state_root block)
      then Inl (Err ''anchor block state root does not match post-state invariants'')
      else
        let root = block_root L block; slot = b_slot block in
        Inr (override_checkpoint_roots
          \<lparr>fc_head = root, fc_safe_target = root, fc_head_slot = slot,
           fc_latest_justified = st_latest_justified anchor_state,
           fc_previous_justified = st_latest_justified anchor_state,
           fc_latest_finalized = st_latest_finalized anchor_state,
           fc_reorgs_total = 0, fc_validator_count = length (st_validators anchor_state),
           fc_blocks = hm_insert root anchor_block [], fc_states = hm_insert root anchor_state [],
           fc_parents = hm_insert root (b_parent_root block) [],
           fc_children = push_child (b_parent_root block) root [],
           fc_nodes = [new_node root None slot (b_proposer_index block)],
           fc_node_indices = hm_insert root 0 [],
           fc_latest_votes = [], fc_latest_new_votes = []\<rparr> root))"

text \<open>The update of the head after \<^verbatim>\<open>find_head\<close>, shared by the three callers.\<close>

definition move_head :: "fork_choice_store \<Rightarrow> bytes32 \<Rightarrow> fork_choice_store option" where
  "move_head st head =
     (case hm_get (fc_blocks st) head of
        None \<Rightarrow> None
      | Some sb \<Rightarrow> Some (st\<lparr>fc_head := head, fc_head_slot := b_slot (block_of sb)\<rparr>))"

definition count_reorg :: "fork_choice_store \<Rightarrow> bytes32 \<Rightarrow> fork_choice_store result" where
  "count_reorg st old_head =
     and_then (head_change_is_reorg st old_head (fc_head st)) (\<lambda>reorg.
     Inr (if reorg then st\<lparr>fc_reorgs_total := fc_reorgs_total st + 1\<rparr> else st))"

fun apply_all_votes ::
    "fork_choice_store \<Rightarrow> vote_disposition \<Rightarrow> attestation list \<Rightarrow> fork_choice_store result" where
  "apply_all_votes st disposition [] = Inr st"
| "apply_all_votes st disposition (att # atts) =
     and_then (apply_attestation_votes st att disposition) (\<lambda>(_, st).
     apply_all_votes st disposition atts)"

definition advance_checkpoints ::
    "fork_choice_store \<Rightarrow> state \<Rightarrow> fork_choice_store result" where
  "advance_checkpoints st post_state =
     (let st = (if cp_slot (st_latest_justified post_state) > cp_slot (fc_latest_justified st)
                then st\<lparr>fc_previous_justified := fc_latest_justified st,
                        fc_latest_justified := st_latest_justified post_state\<rparr>
                else st);
          finalized_advanced = (cp_slot (st_latest_finalized post_state)
                                  > cp_slot (fc_latest_finalized st))
      in if finalized_advanced
         then and_then (prune_finalized_history
                 (st\<lparr>fc_latest_finalized := st_latest_finalized post_state\<rparr>)) (\<lambda>(_, st). Inr st)
         else Inr st)"

definition import_block_internal ::
    "ssz_lib \<Rightarrow> fork_choice_store \<Rightarrow> signed_block \<Rightarrow> state \<Rightarrow> bool \<Rightarrow> fork_choice_store result" where
  "import_block_internal L st sb post_state include_proposer_attestation =
     (let block = block_of sb in
      if \<not> state_matches_block_root L post_state (b_state_root block)
      then Inl (Err ''post-state root does not match block.state_root invariants'')
      else
        let root = block_root L block;
            slot = b_slot block;
            st = st\<lparr>fc_blocks := hm_insert root sb (fc_blocks st),
                    fc_states := hm_insert root post_state (fc_states st),
                    fc_parents := hm_insert root (b_parent_root block) (fc_parents st),
                    fc_children := push_child (b_parent_root block) root (fc_children st)\<rparr>
        in and_then (insert_proto_node st root (b_parent_root block) slot (b_proposer_index block))
             (\<lambda>st.
           and_then (apply_all_votes st Active (bb_attestations (b_body block))) (\<lambda>st.
           and_then (if include_proposer_attestation
                     then apply_all_votes st Active [bwa_proposer_attestation (sb_message sb)]
                     else Inr st) (\<lambda>st.
           and_then (advance_checkpoints st post_state) (\<lambda>st.
           let old_head = fc_head st in
           and_then (find_head st) (\<lambda>head.
           let st = (case move_head st head of
                 Some st \<Rightarrow> st
               | None \<Rightarrow> if slot > fc_head_slot st
                   then st\<lparr>fc_head := root, fc_head_slot := slot\<rparr> else st)
           in and_then (count_reorg st old_head) refresh_safe_target))))))"

definition on_block ::
    "ssz_lib \<Rightarrow> fork_choice_store \<Rightarrow> signed_block \<Rightarrow> state \<Rightarrow> fork_choice_store result" where
  "on_block L st sb post_state = import_block_internal L st sb post_state True"

fun promote_votes :: "fork_choice_store \<Rightarrow> (nat \<times> bytes32) list \<Rightarrow> fork_choice_store result" where
  "promote_votes st [] = Inr st"
| "promote_votes st ((validator_id, root) # pending) =
     and_then (set_latest_vote st validator_id root) (\<lambda>st. promote_votes st pending)"

definition accept_new_votes :: "fork_choice_store \<Rightarrow> fork_choice_store result" where
  "accept_new_votes st =
     (if fc_latest_new_votes st = [] then Inr st
      else
        let pending = fc_latest_new_votes st in
        and_then (promote_votes (st\<lparr>fc_latest_new_votes := []\<rparr>) pending) (\<lambda>st.
        let old_head = fc_head st in
        and_then (find_head st) (\<lambda>head.
        let st = (case move_head st head of Some st \<Rightarrow> st | None \<Rightarrow> st) in
        and_then (count_reorg st old_head) refresh_safe_target)))"

definition get_proposal_head :: "fork_choice_store \<Rightarrow> (bytes32 \<times> fork_choice_store) result" where
  "get_proposal_head st =
     and_then (accept_new_votes st) (\<lambda>st.
     and_then (find_head st) (\<lambda>head.
     let st = (case move_head st head of Some st \<Rightarrow> st | None \<Rightarrow> st) in
     Inr (fc_head st, st)))"

definition get_proposal_head_with_pending ::
    "fork_choice_store \<Rightarrow> attestation list \<Rightarrow> (bytes32 \<times> fork_choice_store) result" where
  "get_proposal_head_with_pending st pending_votes =
     and_then (apply_all_votes st Pending pending_votes) (\<lambda>st.
     and_then (accept_new_votes st) get_proposal_head)"

definition placeholder_signed_block :: "ssz_lib \<Rightarrow> block \<Rightarrow> signed_block result" where
  "placeholder_signed_block L block =
     (let root = block_root L block;
          proposer_index = unat (b_proposer_index block)
      in if proposer_index \<ge> VALIDATOR_REGISTRY_LIMIT
         then Inl (ErrFmt ''proposer validator index {} exceeds registry limit {}''
                     [proposer_index, VALIDATOR_REGISTRY_LIMIT])
         else
           let bools = (replicate (proposer_index + 1) False)[proposer_index := True] in
           and_then (bits_new (lib_bits L) VALIDATOR_REGISTRY_LIMIT bools) (\<lambda>aggregation_bits.
           let checkpoint = \<lparr>cp_root = root, cp_slot = b_slot block\<rparr> in
           Inr \<lparr>sb_message = \<lparr>bwa_block = block,
                  bwa_proposer_attestation = \<lparr>att_bits = aggregation_bits,
                    att_data = \<lparr>ad_slot = cp_slot checkpoint, ad_head = checkpoint,
                      ad_target = checkpoint, ad_source = checkpoint\<rparr>\<rparr>\<rparr>,
                sb_signature = \<lparr>bs_attestation_signatures = [], bs_proposer_signature = 0\<rparr>\<rparr>))"

definition preview_proposer_attestation_data ::
    "ssz_lib \<Rightarrow> fork_choice_store \<Rightarrow> block \<Rightarrow> state \<Rightarrow> attestation_data result" where
  "preview_proposer_attestation_data L st block post_state =
     (let root = block_root L block; slot = b_slot block in
      and_then (placeholder_signed_block L block) (\<lambda>preview_signed.
      and_then (import_block_internal L st preview_signed post_state False) (\<lambda>preview.
      let source = fc_latest_justified preview in
      and_then (attestation_target preview (cp_slot (fc_latest_finalized preview))) (\<lambda>target.
      let target = (case target of None \<Rightarrow> source | Some target \<Rightarrow> target);
          target = (if cp_slot target < cp_slot source then source else target);
          target = (if cp_slot target > slot then \<lparr>cp_root = root, cp_slot = slot\<rparr> else target);
          head = (case checkpoint_for_root preview (fc_head preview) of
              None \<Rightarrow> \<lparr>cp_root = root, cp_slot = slot\<rparr> | Some c \<Rightarrow> c)
      in Inr \<lparr>ad_slot = slot, ad_head = head, ad_target = target, ad_source = source\<rparr>))))"

end
