(* ===== verification/ProtoArray.thy ===== *)
theory ProtoArray
  imports ForkChoice
begin

text \<open>
  The node arena of the fork choice as a weighted tree. A node descends from another when
  its parent links lead there. The invariant says that parent and child links agree and
  lead to smaller slots, that the weight of a node is the number of validators whose latest
  vote lies in its subtree, and that the best child is the heaviest child, the smaller root
  winning a tie. Propagating a vote and attaching a subtree keep it, and both end.
\<close>

section \<open>Ancestry\<close>

definition parent_edges :: "proto_node list \<Rightarrow> (nat \<times> nat) set" where
  "parent_edges ns = {(i, p). i < length ns \<and> pn_parent (ns ! i) = Some p}"

definition descends :: "proto_node list \<Rightarrow> nat \<Rightarrow> nat \<Rightarrow> bool" where
  "descends ns i j \<longleftrightarrow> (i, j) \<in> (parent_edges ns)\<^sup>*"

definition children_set :: "proto_node list \<Rightarrow> nat \<Rightarrow> nat set" where
  "children_set ns p = {i. i < length ns \<and> pn_parent (ns ! i) = Some p}"

definition tree_inv :: "proto_node list \<Rightarrow> bool" where
  "tree_inv ns \<longleftrightarrow> distinct (map pn_root ns) \<and>
     (\<forall>i < length ns. \<forall>p. pn_parent (ns ! i) = Some p \<longrightarrow>
        p < length ns \<and> pn_slot (ns ! p) < pn_slot (ns ! i)) \<and>
     (\<forall>p < length ns. set (pn_children (ns ! p)) = children_set ns p)"

lemma tree_inv_parent:
  "tree_inv ns \<Longrightarrow> i < length ns \<Longrightarrow> pn_parent (ns ! i) = Some p \<Longrightarrow>
   p < length ns \<and> pn_slot (ns ! p) < pn_slot (ns ! i)"
  by (auto simp: tree_inv_def)

lemma tree_inv_root_inj:
  "tree_inv ns \<Longrightarrow> i < length ns \<Longrightarrow> j < length ns \<Longrightarrow> pn_root (ns ! i) = pn_root (ns ! j) \<Longrightarrow> i = j"
  by (auto simp: tree_inv_def distinct_conv_nth)

lemma descends_refl [simp]: "descends ns i i"
  by (simp add: descends_def)

lemma descends_trans: "descends ns i j \<Longrightarrow> descends ns j k \<Longrightarrow> descends ns i k"
  unfolding descends_def by (rule rtrancl_trans)

lemma descends_step:
  "i < length ns \<Longrightarrow> descends ns i j \<longleftrightarrow>
   i = j \<or> (\<exists>p. pn_parent (ns ! i) = Some p \<and> descends ns p j)"
  unfolding descends_def
  by (subst rtrancl_eq_or_trancl) (auto simp: parent_edges_def trancl_unfold_left)

lemma descends_no_parent: "pn_parent (ns ! i) = None \<Longrightarrow> descends ns i j \<longleftrightarrow> i = j"
  unfolding descends_def
  by (auto simp: parent_edges_def elim: converse_rtranclE)

lemma descends_slot:
  assumes "tree_inv ns" "descends ns i j"
  shows "i = j \<or> pn_slot (ns ! j) < pn_slot (ns ! i)"
  using assms(2) unfolding descends_def
proof (induction rule: rtrancl_induct)
  case (step j k)
  then have "pn_slot (ns ! k) < pn_slot (ns ! j)"
    using tree_inv_parent [OF assms(1)] by (auto simp: parent_edges_def)
  then show ?case using step.IH by (auto dest: less_trans)
qed simp

lemma descends_length:
  assumes "tree_inv ns" "descends ns i j" "i < length ns"
  shows "j < length ns"
  using assms(2,3) unfolding descends_def
  by (induction rule: rtrancl_induct)
    (auto simp: parent_edges_def dest: tree_inv_parent [OF assms(1)])

lemma descends_linear:
  assumes "descends ns k a" "descends ns k b"
  shows "descends ns a b \<or> descends ns b a"
proof -
  have "single_valued (parent_edges ns)"
    by (auto simp: single_valued_def parent_edges_def)
  then show ?thesis
    using single_valued_confluent [of "parent_edges ns" k a b] assms unfolding descends_def by blast
qed

lemma descends_antisym:
  "tree_inv ns \<Longrightarrow> descends ns i j \<Longrightarrow> descends ns j i \<Longrightarrow> i = j"
  using descends_slot [of ns i j] descends_slot [of ns j i] by auto

definition ancestors_of :: "proto_node list \<Rightarrow> nat \<Rightarrow> nat set" where
  "ancestors_of ns i = {j. descends ns i j}"

lemma ancestors_of_bound:
  assumes "tree_inv ns" "i < length ns"
  shows "ancestors_of ns i \<subseteq> {..<length ns}"
  using descends_length [OF assms(1) _ assms(2)] by (auto simp: ancestors_of_def)

lemma card_ancestors_bound:
  assumes "tree_inv ns" "i < length ns"
  shows "card (ancestors_of ns i) \<le> length ns"
  using card_mono [OF _ ancestors_of_bound [OF assms]] by simp

lemma card_ancestors_parent:
  assumes t: "tree_inv ns" and i: "i < length ns" and p: "pn_parent (ns ! i) = Some p"
  shows "card (ancestors_of ns p) < card (ancestors_of ns i)"
proof (rule psubset_card_mono)
  show "finite (ancestors_of ns i)"
    using ancestors_of_bound [OF t i] finite_subset by blast
  have "\<not> descends ns p i"
    using descends_slot [OF t, of p i] tree_inv_parent [OF t i p] by auto
  moreover have "ancestors_of ns p \<subseteq> ancestors_of ns i"
    using i p by (auto simp: ancestors_of_def descends_step [of i])
  ultimately show "ancestors_of ns p \<subset> ancestors_of ns i" by (auto simp: ancestors_of_def)
qed

section \<open>Shape\<close>

text \<open>Two arenas with the same links, roots and slots; weights and best children may differ.\<close>

definition same_shape :: "proto_node list \<Rightarrow> proto_node list \<Rightarrow> bool" where
  "same_shape ns ns' \<longleftrightarrow> length ns' = length ns \<and>
     (\<forall>i < length ns. pn_root (ns' ! i) = pn_root (ns ! i) \<and> pn_parent (ns' ! i) = pn_parent (ns ! i) \<and>
        pn_children (ns' ! i) = pn_children (ns ! i) \<and> pn_slot (ns' ! i) = pn_slot (ns ! i) \<and>
        pn_proposer_index (ns' ! i) = pn_proposer_index (ns ! i))"

lemma same_shape_refl [simp]: "same_shape ns ns"
  by (simp add: same_shape_def)

lemma same_shape_trans: "same_shape ns ns' \<Longrightarrow> same_shape ns' ns'' \<Longrightarrow> same_shape ns ns''"
  by (simp add: same_shape_def)

lemma same_shape_length: "same_shape ns ns' \<Longrightarrow> length ns' = length ns"
  by (simp add: same_shape_def)

lemma same_shape_edges: "same_shape ns ns' \<Longrightarrow> parent_edges ns' = parent_edges ns"
  by (auto simp: same_shape_def parent_edges_def)

lemma same_shape_descends: "same_shape ns ns' \<Longrightarrow> descends ns' = descends ns"
  by (simp add: descends_def fun_eq_iff same_shape_edges)

lemma same_shape_children: "same_shape ns ns' \<Longrightarrow> children_set ns' = children_set ns"
  by (auto simp: same_shape_def children_set_def fun_eq_iff)

lemma same_shape_roots: "same_shape ns ns' \<Longrightarrow> map pn_root ns' = map pn_root ns"
  by (auto simp: same_shape_def intro: nth_equalityI)

lemma same_shape_tree_inv: "same_shape ns ns' \<Longrightarrow> tree_inv ns \<Longrightarrow> tree_inv ns'"
  unfolding tree_inv_def
  by (simp add: same_shape_roots same_shape_children) (simp add: same_shape_def)

lemma same_shape_update:
  "i < length ns \<Longrightarrow> pn_root n = pn_root (ns ! i) \<Longrightarrow> pn_parent n = pn_parent (ns ! i) \<Longrightarrow>
   pn_children n = pn_children (ns ! i) \<Longrightarrow> pn_slot n = pn_slot (ns ! i) \<Longrightarrow>
   pn_proposer_index n = pn_proposer_index (ns ! i) \<Longrightarrow> same_shape ns (ns[i := n])"
  by (simp add: same_shape_def nth_list_update)

section \<open>Best children\<close>

definition better :: "proto_node list \<Rightarrow> nat \<Rightarrow> nat \<Rightarrow> bool" where
  "better ns c d \<longleftrightarrow> pn_weight (ns ! c) > pn_weight (ns ! d) \<or>
     (pn_weight (ns ! c) = pn_weight (ns ! d) \<and> pn_root (ns ! c) < pn_root (ns ! d))"

definition is_best :: "proto_node list \<Rightarrow> nat set \<Rightarrow> nat option \<Rightarrow> bool" where
  "is_best ns C b \<longleftrightarrow> (case b of None \<Rightarrow> C = {} | Some c \<Rightarrow> c \<in> C \<and> (\<forall>d \<in> C. d = c \<or> better ns c d))"

definition best_inv :: "proto_node list \<Rightarrow> bool" where
  "best_inv ns \<longleftrightarrow>
     (\<forall>p < length ns. is_best ns (children_set ns p) (pn_best_child (ns ! p)))"

lemma better_trans: "better ns a b \<Longrightarrow> better ns b c \<Longrightarrow> better ns a c"
  by (auto simp: better_def)

lemma better_total:
  "tree_inv ns \<Longrightarrow> a < length ns \<Longrightarrow> b < length ns \<Longrightarrow> a = b \<or> better ns a b \<or> better ns b a"
  using tree_inv_root_inj [of ns a b] by (auto simp: better_def not_less_iff_gr_or_eq)

lemma is_best_unique:
  assumes "is_best ns C b" "is_best ns C b'"
  shows "b = b'"
proof (cases b; cases b')
  fix c c'
  assume "b = Some c" "b' = Some c'"
  then have "c = c' \<or> better ns c c' \<and> better ns c' c" using assms by (auto simp: is_best_def)
  then show ?thesis using \<open>b = Some c\<close> \<open>b' = Some c'\<close> by (auto simp: better_def)
qed (use assms in \<open>auto simp: is_best_def\<close>)

lemma child_is_better_eq:
  "c < length ns \<Longrightarrow> d < length ns \<Longrightarrow> child_is_better ns c d = Inr (better ns c d)"
  by (simp add: child_is_better_def index_at_def better_def)

lemma best_child_loop_Some:
  assumes t: "tree_inv ns"
  shows "set cs \<subseteq> {..<length ns} \<Longrightarrow> b < length ns \<Longrightarrow>
    \<exists>c. best_child_loop ns cs (Some b) = Inr (Some c) \<and> is_best ns (insert b (set cs)) (Some c)"
proof (induction cs arbitrary: b)
  case (Cons d cs)
  let ?b' = "if better ns d b then d else b"
  have "set cs \<subseteq> {..<length ns}" "?b' < length ns" using Cons.prems by auto
  from Cons.IH [OF this] obtain c where c: "best_child_loop ns cs (Some ?b') = Inr (Some c)"
      "is_best ns (insert ?b' (set cs)) (Some c)" by blast
  have "x = c \<or> better ns c x" if "x \<in> {d, b}" for x
  proof -
    have "?b' = x \<or> better ns ?b' x"
      using that better_total [OF t, of d b] Cons.prems by auto
    moreover have "?b' = c \<or> better ns c ?b'" using c(2) by (auto simp: is_best_def)
    ultimately show ?thesis by (auto dest: better_trans)
  qed
  moreover have "c \<in> insert b (set (d # cs))" using c(2) by (auto simp: is_best_def split: if_splits)
  ultimately have "is_best ns (insert b (set (d # cs))) (Some c)"
    using c(2) by (auto simp: is_best_def)
  moreover have "best_child_loop ns (d # cs) (Some b) = Inr (Some c)"
    using Cons.prems c(1) by (auto simp: child_is_better_eq)
  ultimately show ?case by blast
qed (auto simp: is_best_def)

lemma best_child_loop_None:
  assumes "tree_inv ns" "set cs \<subseteq> {..<length ns}"
  shows "\<exists>b. best_child_loop ns cs None = Inr b \<and> is_best ns (set cs) b"
proof (cases cs)
  case (Cons d ds)
  then show ?thesis using best_child_loop_Some [OF assms(1), of ds d] assms(2) by auto
qed (simp add: is_best_def)

lemma recompute_best_child_spec:
  assumes t: "tree_inv ns" and p: "p < length ns"
  obtains b where "recompute_best_child ns p = Inr (ns[p := (ns ! p)\<lparr>pn_best_child := b\<rparr>])"
    and "is_best ns (children_set ns p) b"
proof -
  have c: "set (pn_children (ns ! p)) = children_set ns p" using t p by (simp add: tree_inv_def)
  then have "set (pn_children (ns ! p)) \<subseteq> {..<length ns}" by (auto simp: children_set_def)
  then obtain b where b: "best_child_loop ns (pn_children (ns ! p)) None = Inr b"
      "is_best ns (children_set ns p) b"
    using best_child_loop_None [OF t] c by metis
  then have "recompute_best_child ns p = Inr (ns[p := (ns ! p)\<lparr>pn_best_child := b\<rparr>])"
    using p by (simp add: recompute_best_child_def index_at_def)
  then show ?thesis using b(2) that by blast
qed

lemma is_best_cong:
  assumes "\<And>c. c \<in> C \<Longrightarrow> pn_weight (ns' ! c) = pn_weight (ns ! c) \<and> pn_root (ns' ! c) = pn_root (ns ! c)"
  shows "is_best ns' C b = is_best ns C b"
  using assms by (auto simp: is_best_def better_def split: option.splits)

text \<open>Best children at every node but one; recomputing that one restores the invariant.\<close>

lemma recompute_restores_best:
  assumes t: "tree_inv ns" and p: "p < length ns"
    and others: "\<And>q. q < length ns \<Longrightarrow> q \<noteq> p \<Longrightarrow>
      is_best ns (children_set ns q) (pn_best_child (ns ! q))"
  obtains b where "recompute_best_child ns p = Inr (ns[p := (ns ! p)\<lparr>pn_best_child := b\<rparr>])"
    and "best_inv (ns[p := (ns ! p)\<lparr>pn_best_child := b\<rparr>])"
proof -
  obtain b where b: "recompute_best_child ns p = Inr (ns[p := (ns ! p)\<lparr>pn_best_child := b\<rparr>])"
      "is_best ns (children_set ns p) b"
    using recompute_best_child_spec [OF t p] by blast
  let ?ns = "ns[p := (ns ! p)\<lparr>pn_best_child := b\<rparr>]"
  have "children_set ?ns = children_set ns"
    using p by (intro same_shape_children same_shape_update) simp_all
  moreover have "is_best ?ns C x = is_best ns C x" for C x
    using p by (intro is_best_cong) (simp add: nth_list_update)
  ultimately have "best_inv ?ns"
    using b(2) others p by (auto simp: best_inv_def nth_list_update)
  then show ?thesis using b(1) that by blast
qed

section \<open>Propagating a weight\<close>

lemma propagate_loop_spec:
  assumes "tree_inv ns" "best_inv ns" "i < length ns" "card (ancestors_of ns i) \<le> fuel"
  shows "\<exists>ns'. propagate_loop fuel ns (Some i) d = Inr ns' \<and> same_shape ns ns' \<and> best_inv ns' \<and>
    (\<forall>j < length ns. pn_weight (ns' ! j) = pn_weight (ns ! j) + (if descends ns i j then d else 0))"
  using assms
proof (induction fuel arbitrary: ns i)
  case 0
  have "i \<in> ancestors_of ns i" by (simp add: ancestors_of_def)
  moreover have "finite (ancestors_of ns i)"
    using ancestors_of_bound [OF "0.prems"(1,3)] finite_subset by blast
  ultimately show ?case using "0.prems"(4) by auto
next
  case (Suc fuel)
  let ?n = "(ns ! i)\<lparr>pn_weight := pn_weight (ns ! i) + d\<rparr>"
  let ?ns1 = "ns[i := ?n]"
  have sh1: "same_shape ns ?ns1" using Suc.prems by (intro same_shape_update) simp_all
  then have t1: "tree_inv ?ns1" using Suc.prems same_shape_tree_inv by blast
  have best1: "is_best ?ns1 (children_set ?ns1 q) (pn_best_child (?ns1 ! q))"
    if "q < length ns" "pn_parent (ns ! i) \<noteq> Some q" for q
  proof -
    have "is_best ?ns1 (children_set ns q) b = is_best ns (children_set ns q) b" for b
      using that Suc.prems(3) by (intro is_best_cong) (auto simp: children_set_def nth_list_update)
    then show ?thesis
      using that Suc.prems(2,3) same_shape_children [OF sh1]
      by (auto simp: best_inv_def nth_list_update)
  qed
  show ?case
  proof (cases "pn_parent (ns ! i)")
    case None
    then have "best_inv ?ns1" using best1 by (simp add: best_inv_def)
    moreover have "propagate_loop (Suc fuel) ns (Some i) d = Inr ?ns1"
      using Suc.prems None by (simp add: index_at_def)
    ultimately show ?thesis
      using sh1 None Suc.prems(3) by (auto simp: nth_list_update descends_no_parent)
  next
    case (Some p)
    then have p: "p < length ns" using tree_inv_parent Suc.prems by blast
    obtain b where b: "recompute_best_child ?ns1 p = Inr (?ns1[p := (?ns1 ! p)\<lparr>pn_best_child := b\<rparr>])"
        "best_inv (?ns1[p := (?ns1 ! p)\<lparr>pn_best_child := b\<rparr>])"
      using recompute_restores_best [OF t1, of p] best1 p Some by auto
    let ?ns2 = "?ns1[p := (?ns1 ! p)\<lparr>pn_best_child := b\<rparr>]"
    have "same_shape ?ns1 ?ns2" using p by (intro same_shape_update) simp_all
    then have sh2: "same_shape ns ?ns2" using sh1 same_shape_trans by blast
    then have "card (ancestors_of ?ns2 p) \<le> fuel"
      using card_ancestors_parent [OF Suc.prems(1,3) Some] Suc.prems(4)
      by (simp add: ancestors_of_def same_shape_descends)
    from Suc.IH [OF same_shape_tree_inv [OF sh2 Suc.prems(1)] b(2) _ this] p
    obtain ns' where ns': "propagate_loop fuel ?ns2 (Some p) d = Inr ns'" "same_shape ?ns2 ns'"
        "best_inv ns'" "\<And>j. j < length ns \<Longrightarrow> pn_weight (ns' ! j) =
          pn_weight (?ns2 ! j) + (if descends ns p j then d else 0)"
      by (auto simp: same_shape_descends [OF sh2])
    have "pn_weight (ns' ! j) = pn_weight (ns ! j) + (if descends ns i j then d else 0)"
      if "j < length ns" for j
    proof -
      have "\<not> descends ns p i"
        using descends_slot [OF Suc.prems(1), of p i] tree_inv_parent [OF Suc.prems(1,3) Some] by auto
      moreover have "descends ns i j \<longleftrightarrow> i = j \<or> descends ns p j"
        using Some Suc.prems(3) by (simp add: descends_step [of i])
      moreover have "pn_weight (?ns2 ! j) = pn_weight (ns ! j) + (if i = j then d else 0)"
        using that by (auto simp: nth_list_update)
      ultimately show ?thesis using ns'(4) [OF that] by auto
    qed
    moreover have "propagate_loop (Suc fuel) ns (Some i) d = Inr ns'"
      using Suc.prems(3) Some b(1) ns'(1) by (simp add: index_at_def)
    ultimately show ?thesis using ns'(2,3) same_shape_trans [OF sh2] by blast
  qed
qed

lemma propagate_weight_spec:
  assumes "tree_inv ns" "best_inv ns" "i < length ns"
  obtains ns' where "propagate_weight_from_index ns i d = Inr ns'" "same_shape ns ns'" "best_inv ns'"
    "\<And>j. j < length ns \<Longrightarrow>
      pn_weight (ns' ! j) = pn_weight (ns ! j) + (if descends ns i j then d else 0)"
proof -
  have "card (ancestors_of ns i) \<le> length ns" using assms by (intro card_ancestors_bound)
  from propagate_loop_spec [OF assms this, of d] show ?thesis
    using that unfolding propagate_weight_from_index_def by blast
qed

section \<open>Weights count votes\<close>

text \<open>The validators whose latest vote is for a block in the subtree of a node.\<close>

definition support :: "proto_node list \<Rightarrow> (nat \<rightharpoonup> bytes32) \<Rightarrow> nat \<Rightarrow> nat set" where
  "support ns V i = {v. \<exists>j < length ns. V v = Some (pn_root (ns ! j)) \<and> descends ns j i}"

definition arena_inv :: "proto_node list \<Rightarrow> (nat \<rightharpoonup> bytes32) \<Rightarrow> bool" where
  "arena_inv ns V \<longleftrightarrow> tree_inv ns \<and> best_inv ns \<and> finite (dom V) \<and>
     (\<forall>i < length ns. pn_weight (ns ! i) = int (card (support ns V i)))"

lemma support_subset_dom: "support ns V i \<subseteq> dom V"
  by (auto simp: support_def)

lemma finite_support: "finite (dom V) \<Longrightarrow> finite (support ns V i)"
  by (rule finite_subset [OF support_subset_dom])

lemma same_shape_support: "same_shape ns ns' \<Longrightarrow> support ns' V i = support ns V i"
  unfolding support_def by (simp add: same_shape_descends) (auto simp: same_shape_def)

lemma in_support_iff:
  assumes "tree_inv ns" "j < length ns" "V v = Some (pn_root (ns ! j))"
  shows "v \<in> support ns V i \<longleftrightarrow> descends ns j i"
proof -
  have "v \<in> support ns V i \<longleftrightarrow>
      (\<exists>k < length ns. pn_root (ns ! j) = pn_root (ns ! k) \<and> descends ns k i)"
    using assms(3) by (simp add: support_def)
  also have "\<dots> \<longleftrightarrow> descends ns j i"
    using tree_inv_root_inj [OF assms(1,2)] assms(2) by blast
  finally show ?thesis .
qed

lemma support_cast:
  assumes "tree_inv ns" "k < length ns"
  shows "support ns (V(v \<mapsto> pn_root (ns ! k))) i =
    (support ns V i - {v}) \<union> (if descends ns k i then {v} else {})"
proof (rule set_eqI)
  fix x
  show "x \<in> support ns (V(v \<mapsto> pn_root (ns ! k))) i \<longleftrightarrow>
      x \<in> (support ns V i - {v}) \<union> (if descends ns k i then {v} else {})"
  proof (cases "x = v")
    case True
    then show ?thesis using in_support_iff [OF assms, of "V(v \<mapsto> pn_root (ns ! k))" v i] by simp
  next
    case False
    then show ?thesis by (simp add: support_def)
  qed
qed

lemma card_support_cast:
  assumes "tree_inv ns" "k < length ns" "finite (dom V)"
  shows "int (card (support ns (V(v \<mapsto> pn_root (ns ! k))) i)) =
    int (card (support ns V i)) - of_bool (v \<in> support ns V i) + of_bool (descends ns k i)"
proof -
  have f: "finite (support ns V i)" using assms(3) by (rule finite_support)
  then have "int (card (support ns V i - {v})) = int (card (support ns V i)) - of_bool (v \<in> support ns V i)"
    using card_gt_0_iff [of "support ns V i"] by (auto simp: card_Diff_singleton of_nat_diff Suc_le_eq)
  then show ?thesis using f by (simp add: support_cast [OF assms(1,2)] insert_absorb)
qed

text \<open>Weights that agree with a count of votes, up to a correction.\<close>

lemma arena_inv_weight:
  "arena_inv ns V \<Longrightarrow> i < length ns \<Longrightarrow> pn_weight (ns ! i) = int (card (support ns V i))"
  by (simp add: arena_inv_def)

lemma first_vote_spec:
  assumes a: "arena_inv ns V" and v: "V v = None" and k: "k < length ns"
  obtains ns' where "propagate_weight_from_index ns k 1 = Inr ns'" "same_shape ns ns'"
    "arena_inv ns' (V(v \<mapsto> pn_root (ns ! k)))"
proof -
  have t: "tree_inv ns" and b: "best_inv ns" and f: "finite (dom V)" using a by (auto simp: arena_inv_def)
  obtain ns' where ns': "propagate_weight_from_index ns k 1 = Inr ns'" "same_shape ns ns'" "best_inv ns'"
      "\<And>j. j < length ns \<Longrightarrow>
        pn_weight (ns' ! j) = pn_weight (ns ! j) + (if descends ns k j then 1 else 0)"
    using propagate_weight_spec [OF t b k] by blast
  have "v \<notin> support ns V j" for j using v by (simp add: support_def)
  then have "pn_weight (ns' ! j) = int (card (support ns' (V(v \<mapsto> pn_root (ns ! k))) j))"
    if "j < length ns" for j
    using that ns'(4) arena_inv_weight [OF a]
    by (simp add: same_shape_support [OF ns'(2)] card_support_cast [OF t k f])
  then have "arena_inv ns' (V(v \<mapsto> pn_root (ns ! k)))"
    using ns'(2,3) f t by (simp add: arena_inv_def same_shape_tree_inv same_shape_length)
  then show ?thesis using ns'(1,2) that by blast
qed

lemma move_vote_spec:
  assumes a: "arena_inv ns V" and v: "V v = Some (pn_root (ns ! j))"
    and j: "j < length ns" and k: "k < length ns"
  obtains ns1 ns' where "propagate_weight_from_index ns j (- 1) = Inr ns1" "same_shape ns ns1"
    "propagate_weight_from_index ns1 k 1 = Inr ns'" "same_shape ns ns'"
    "arena_inv ns' (V(v \<mapsto> pn_root (ns ! k)))"
proof -
  have t: "tree_inv ns" and b: "best_inv ns" and f: "finite (dom V)" using a by (auto simp: arena_inv_def)
  obtain ns1 where ns1: "propagate_weight_from_index ns j (- 1) = Inr ns1" "same_shape ns ns1" "best_inv ns1"
      "\<And>i. i < length ns \<Longrightarrow>
        pn_weight (ns1 ! i) = pn_weight (ns ! i) + (if descends ns j i then - 1 else 0)"
    using propagate_weight_spec [OF t b j] by blast
  have t1: "tree_inv ns1" and l1: "length ns1 = length ns"
    using ns1(2) t same_shape_tree_inv same_shape_length by auto
  obtain ns' where ns': "propagate_weight_from_index ns1 k 1 = Inr ns'" "same_shape ns1 ns'" "best_inv ns'"
      "\<And>i. i < length ns1 \<Longrightarrow>
        pn_weight (ns' ! i) = pn_weight (ns1 ! i) + (if descends ns1 k i then 1 else 0)"
    using propagate_weight_spec [OF t1 ns1(3), of k] k l1 by auto
  have sh: "same_shape ns ns'" using ns1(2) ns'(2) same_shape_trans by blast
  have "pn_weight (ns' ! i) = int (card (support ns' (V(v \<mapsto> pn_root (ns ! k))) i))"
    if "i < length ns" for i
    using that ns'(4) [of i] ns1(4) [of i] l1 arena_inv_weight [OF a that] in_support_iff [of ns j V v i, OF t j v]
    by (simp add: same_shape_support [OF sh] card_support_cast [OF t k f] same_shape_descends [OF ns1(2)])
  then have "arena_inv ns' (V(v \<mapsto> pn_root (ns ! k)))"
    using ns'(3) sh f t by (simp add: arena_inv_def same_shape_tree_inv same_shape_length)
  then show ?thesis using ns1(1,2) ns'(1) sh that by blast
qed

text \<open>A weight is a number of voters, so an \<^verbatim>\<open>i64\<close> never overflows.\<close>

lemma weight_bounds:
  assumes "arena_inv ns V" "i < length ns"
  shows "0 \<le> pn_weight (ns ! i)" "pn_weight (ns ! i) \<le> int (card (dom V))"
  using assms card_mono [OF _ support_subset_dom, of V ns i] by (simp_all add: arena_inv_def)

section \<open>Attaching a subtree\<close>

lemma parent_edges_attach:
  assumes "c < length ns" "pn_parent (ns ! c) = None"
    and "length ns' = length ns"
    and "\<And>i. i < length ns \<Longrightarrow> pn_parent (ns' ! i) = (if i = c then Some p else pn_parent (ns ! i))"
  shows "parent_edges ns' = insert (c, p) (parent_edges ns)"
  using assms by (auto simp: parent_edges_def split: if_splits)

lemma descends_attach:
  assumes "parent_edges ns' = insert (c, p) (parent_edges ns)"
  shows "descends ns' i j \<longleftrightarrow> descends ns i j \<or> (descends ns i c \<and> descends ns p j)"
  unfolding descends_def assms by (auto simp: rtrancl_insert)

lemma support_disjoint:
  assumes t: "tree_inv ns" and c: "c < length ns" "pn_parent (ns ! c) = None"
    and lt: "pn_slot (ns ! p) < pn_slot (ns ! c)" and pj: "descends ns p j"
  shows "support ns V j \<inter> support ns V c = {}"
proof -
  have False if k: "descends ns k j" "descends ns k c" for k
  proof -
    have "descends ns j c \<or> descends ns c j" using descends_linear k by blast
    then have "descends ns p c"
      using pj descends_trans c(2) by (auto simp: descends_no_parent)
    then show False using descends_slot [OF t, of p c] lt by auto
  qed
  moreover have "\<exists>k. descends ns k j \<and> descends ns k c"
    if v: "v \<in> support ns V j" "v \<in> support ns V c" for v
  proof -
    obtain k where "k < length ns" "V v = Some (pn_root (ns ! k))" "descends ns k j"
      using v(1) by (auto simp: support_def)
    then show ?thesis using in_support_iff [OF t, of k V v c] v(2) by blast
  qed
  ultimately show ?thesis by blast
qed

definition attached :: "proto_node list \<Rightarrow> nat \<Rightarrow> nat \<Rightarrow> proto_node list \<Rightarrow> bool" where
  "attached ns p c ns' \<longleftrightarrow> length ns' = length ns \<and>
     (\<forall>i < length ns. pn_root (ns' ! i) = pn_root (ns ! i) \<and> pn_slot (ns' ! i) = pn_slot (ns ! i) \<and>
        pn_proposer_index (ns' ! i) = pn_proposer_index (ns ! i) \<and>
        pn_parent (ns' ! i) = (if i = c then Some p else pn_parent (ns ! i)))"

lemma attached_same_shape:
  "attached ns p c ns' \<Longrightarrow> same_shape ns' ns'' \<Longrightarrow> attached ns p c ns''"
  by (simp add: attached_def same_shape_def)

text \<open>The links after the two assignments of \<^verbatim>\<open>attach_child\<close>.\<close>

definition link :: "proto_node list \<Rightarrow> nat \<Rightarrow> nat \<Rightarrow> proto_node list" where
  "link ns p c = ns[c := (ns ! c)\<lparr>pn_parent := Some p\<rparr>,
     p := (ns ! p)\<lparr>pn_children := pn_children (ns ! p) @ [c]\<rparr>]"

lemma length_link [simp]: "length (link ns p c) = length ns"
  by (simp add: link_def)

lemma link_nth:
  assumes "c < length ns" "p < length ns" "p \<noteq> c" "i < length ns"
  shows "link ns p c ! i = (if i = p then (ns ! p)\<lparr>pn_children := pn_children (ns ! p) @ [c]\<rparr>
    else if i = c then (ns ! c)\<lparr>pn_parent := Some p\<rparr> else ns ! i)"
  using assms by (simp add: link_def nth_list_update)

lemma link_attached:
  assumes "c < length ns" "p < length ns" "p \<noteq> c" "pn_parent (ns ! c) = None"
  shows "attached ns p c (link ns p c)"
  using assms by (simp add: attached_def link_nth)

lemma link_tree_inv:
  assumes t: "tree_inv ns" and c: "c < length ns" "pn_parent (ns ! c) = None" and p: "p < length ns"
    and lt: "pn_slot (ns ! p) < pn_slot (ns ! c)"
  shows "tree_inv (link ns p c)"
proof -
  have pc: "p \<noteq> c" using lt by auto
  have l: "length (link ns p c) = length ns" by (simp add: link_def)
  note nth = link_nth [OF c(1) p pc]
  have roots: "map pn_root (link ns p c) = map pn_root ns"
    by (rule nth_equalityI) (simp_all add: l nth)
  have up: "q < length ns \<and> pn_slot (link ns p c ! q) < pn_slot (link ns p c ! i)"
    if "i < length ns" "pn_parent (link ns p c ! i) = Some q" for i q
    using that lt pc p nth tree_inv_parent [OF t, of i q] by (auto split: if_splits)
  have cs: "children_set (link ns p c) q = children_set ns q \<union> (if q = p then {c} else {})" for q
    using c nth l pc by (auto simp: children_set_def split: if_splits)
  have "set (pn_children (link ns p c ! q)) = set (pn_children (ns ! q)) \<union> (if q = p then {c} else {})"
    if "q < length ns" for q
    using that nth by auto
  then have kids: "set (pn_children (link ns p c ! q)) = children_set (link ns p c) q"
    if "q < length ns" for q
    using that t unfolding cs tree_inv_def by blast
  show ?thesis unfolding tree_inv_def roots l
  proof (intro conjI allI impI)
    show "distinct (map pn_root ns)" using t by (simp add: tree_inv_def)
  qed (use up kids in \<open>blast+\<close>)
qed

lemma link_best:
  assumes t: "tree_inv ns" and b: "best_inv ns" and c: "c < length ns" "pn_parent (ns ! c) = None"
    and p: "p < length ns" "p \<noteq> c" and q: "q < length ns" "q \<noteq> p"
  shows "is_best (link ns p c) (children_set (link ns p c) q) (pn_best_child (link ns p c ! q))"
proof -
  note nth = link_nth [OF c(1) p]
  have "children_set (link ns p c) q = children_set ns q"
    using nth q c p length_link by (auto simp: children_set_def split: if_splits)
  moreover have "is_best (link ns p c) (children_set ns q) x = is_best ns (children_set ns q) x" for x
    by (rule is_best_cong) (auto simp: children_set_def nth)
  ultimately show ?thesis using b q nth by (simp add: best_inv_def)
qed

lemma support_attach:
  assumes at: "attached ns p c ns'" and c: "c < length ns" "pn_parent (ns ! c) = None"
  shows "support ns' V j = support ns V j \<union> (if descends ns p j then support ns V c else {})"
proof -
  have "parent_edges ns' = insert (c, p) (parent_edges ns)"
    using at c by (intro parent_edges_attach) (simp_all add: attached_def)
  from descends_attach [OF this] show ?thesis
    using at by (auto simp: support_def attached_def)
qed

lemma attach_child_spec:
  assumes a: "arena_inv ns V" and c: "c < length ns" "pn_parent (ns ! c) = None"
    and p: "p < length ns" and lt: "pn_slot (ns ! p) < pn_slot (ns ! c)"
  obtains ns' where "attach_child ns p c = Inr ns'" "attached ns p c ns'" "arena_inv ns' V"
proof -
  have t: "tree_inv ns" and b: "best_inv ns" and f: "finite (dom V)" using a by (auto simp: arena_inv_def)
  have pc: "p \<noteq> c" using lt by auto
  let ?l = "link ns p c" let ?w = "pn_weight (ns ! c)"
  have tl: "tree_inv ?l" using link_tree_inv [OF t c p lt] .
  have ll: "length ?l = length ns" by (simp add: link_def)
  obtain x where x: "recompute_best_child ?l p = Inr (?l[p := (?l ! p)\<lparr>pn_best_child := x\<rparr>])"
      "best_inv (?l[p := (?l ! p)\<lparr>pn_best_child := x\<rparr>])"
    using recompute_restores_best [OF tl, of p] link_best [OF t b c p pc] p ll by auto
  let ?r = "?l[p := (?l ! p)\<lparr>pn_best_child := x\<rparr>]"
  have sh: "same_shape ?l ?r" using p ll by (intro same_shape_update) simp_all
  have tr: "tree_inv ?r" and lr: "length ?r = length ns" using sh tl same_shape_tree_inv ll by auto
  have at: "attached ns p c ?r" using link_attached [OF c(1) p pc c(2)] sh attached_same_shape by blast
  have wr: "pn_weight (?r ! j) = pn_weight (ns ! j)" if "j < length ns" for j
    using that p by (simp add: nth_list_update ll link_nth [OF c(1) p pc])
  have "parent_edges ?r = insert (c, p) (parent_edges ns)"
    using at c by (intro parent_edges_attach) (simp_all add: attached_def)
  then have dp: "descends ?r p j \<longleftrightarrow> descends ns p j" for j
    using descends_slot [OF t, of p c] lt pc by (auto simp: descends_attach)
  obtain ns' where ns': "(if ?w \<noteq> 0 then propagate_weight_from_index ?r p ?w else Inr ?r) = Inr ns'"
      "same_shape ?r ns'" "best_inv ns'"
      "\<And>j. j < length ns \<Longrightarrow> pn_weight (ns' ! j) = pn_weight (ns ! j) + (if descends ns p j then ?w else 0)"
  proof (cases "?w = 0")
    case True
    then show ?thesis using that [of ?r] x(2) wr by simp
  next
    case False
    obtain ns' where "propagate_weight_from_index ?r p ?w = Inr ns'" "same_shape ?r ns'" "best_inv ns'"
        "\<And>j. j < length ?r \<Longrightarrow> pn_weight (ns' ! j) = pn_weight (?r ! j) + (if descends ?r p j then ?w else 0)"
      using propagate_weight_spec [OF tr x(2), of p ?w] p lr by auto
    then show ?thesis using that [of ns'] False wr dp lr by simp
  qed
  have at': "attached ns p c ns'" using attached_same_shape [OF at ns'(2)] .
  have "int (card (support ns' V j)) = pn_weight (ns' ! j)" if j: "j < length ns" for j
  proof (cases "descends ns p j")
    case True
    have "card (support ns' V j) = card (support ns V j) + card (support ns V c)"
      using True support_disjoint [OF t c lt True] finite_support [OF f]
      by (simp add: support_attach [OF at' c] card_Un_disjoint)
    then show ?thesis using True ns'(4) [OF j] arena_inv_weight [OF a] j c by simp
  next
    case False
    then show ?thesis using ns'(4) [OF j] arena_inv_weight [OF a j] by (simp add: support_attach [OF at' c])
  qed
  then have "arena_inv ns' V"
    using ns'(2,3) f tr lr by (simp add: arena_inv_def same_shape_tree_inv same_shape_length)
  moreover have "attach_child ns p c = Inr ns'"
  proof -
    have "c \<notin> set (pn_children (ns ! p))" using t p c by (auto simp: tree_inv_def children_set_def)
    then have "attach_child ns p c = and_then (recompute_best_child ?l p) (\<lambda>nodes.
        and_then (index_at nodes c) (\<lambda>child. let child_weight = pn_weight child in
          if child_weight \<noteq> 0 then propagate_weight_from_index nodes p child_weight else Inr nodes))"
      using c p pc by (simp add: attach_child_def index_at_def link_def Let_def)
    also have "\<dots> = Inr ns'"
      using ns'(1) c x(1) wr [OF c(1)] lr by (simp add: index_at_def Let_def split: if_splits)
    finally show ?thesis .
  qed
  ultimately show ?thesis using at' that by blast
qed

end
