(* ===== verification/ForkChoiceInv.thy ===== *)
theory ForkChoiceInv
  imports ProtoArray
begin

text \<open>
  The invariant of the fork-choice store: the four hash maps describe the same set of
  blocks, the arena holds one node per block with the links of the parent map, votes are
  for known blocks, and head and safe target are known blocks. The theory shows that
  inserting a block and casting votes keep it.
\<close>

section \<open>The invariant\<close>

definition known :: "fork_choice_store \<Rightarrow> bytes32 \<Rightarrow> bool" where
  "known st r \<longleftrightarrow> hm_contains (fc_blocks st) r"

definition children_of :: "fork_choice_store \<Rightarrow> bytes32 \<Rightarrow> bytes32 set" where
  "children_of st p = (case hm_get (fc_children st) p of None \<Rightarrow> {} | Some rs \<Rightarrow> set rs)"

definition maps_inv :: "fork_choice_store \<Rightarrow> bool" where
  "maps_inv st \<longleftrightarrow> hm_wf (fc_blocks st) \<and> hm_wf (fc_parents st) \<and>
     hm_wf (fc_latest_votes st) \<and> hm_wf (fc_latest_new_votes st) \<and>
     (\<forall>r. hm_contains (fc_states st) r = known st r) \<and>
     (\<forall>r. hm_contains (fc_parents st) r = known st r) \<and> \<not> known st zero_root \<and>
     (\<forall>p r. r \<in> children_of st p \<longrightarrow> hm_get (fc_parents st) r = Some p) \<and>
     (\<forall>p r. hm_get (fc_parents st) r = Some p \<longrightarrow> p \<noteq> zero_root \<longrightarrow> r \<in> children_of st p)"

definition nodes_inv :: "fork_choice_store \<Rightarrow> bool" where
  "nodes_inv st \<longleftrightarrow>
     (\<forall>r i. hm_get (fc_node_indices st) r = Some i \<longleftrightarrow>
        i < length (fc_nodes st) \<and> pn_root (fc_nodes st ! i) = r) \<and>
     (\<forall>r. hm_contains (fc_node_indices st) r = known st r) \<and>
     (\<forall>i < length (fc_nodes st). \<forall>sb. hm_get (fc_blocks st) (pn_root (fc_nodes st ! i)) = Some sb \<longrightarrow>
        pn_slot (fc_nodes st ! i) = b_slot (block_of sb) \<and>
        pn_proposer_index (fc_nodes st ! i) = b_proposer_index (block_of sb)) \<and>
     (\<forall>i < length (fc_nodes st). \<forall>p. hm_get (fc_parents st) (pn_root (fc_nodes st ! i)) = Some p \<longrightarrow>
        pn_parent (fc_nodes st ! i) = hm_get (fc_node_indices st) p)"

definition fc_votes_inv :: "fork_choice_store \<Rightarrow> bool" where
  "fc_votes_inv st \<longleftrightarrow> arena_inv (fc_nodes st) (hm_get (fc_latest_votes st)) \<and>
     (\<forall>v r. hm_get (fc_latest_votes st) v = Some r \<longrightarrow> known st r) \<and>
     (\<forall>v r. hm_get (fc_latest_new_votes st) v = Some r \<longrightarrow> known st r)"

definition head_inv :: "fork_choice_store \<Rightarrow> bool" where
  "head_inv st \<longleftrightarrow> known st (fc_safe_target st) \<and>
     (\<exists>sb. hm_get (fc_blocks st) (fc_head st) = Some sb \<and> fc_head_slot st = b_slot (block_of sb))"

definition tree_part :: "fork_choice_store \<Rightarrow> bool" where
  "tree_part st \<longleftrightarrow> maps_inv st \<and> nodes_inv st \<and> fc_votes_inv st"

definition fc_inv :: "fork_choice_store \<Rightarrow> bool" where
  "fc_inv st \<longleftrightarrow> tree_part st \<and> head_inv st"

lemma child_parent: "maps_inv st \<Longrightarrow> r \<in> children_of st p \<Longrightarrow> hm_get (fc_parents st) r = Some p"
  unfolding maps_inv_def by blast

lemma parent_child:
  "maps_inv st \<Longrightarrow> hm_get (fc_parents st) r = Some p \<Longrightarrow> p \<noteq> zero_root \<Longrightarrow> r \<in> children_of st p"
  unfolding maps_inv_def by blast

lemma parents_known: "maps_inv st \<Longrightarrow> hm_get (fc_parents st) r \<noteq> None \<longleftrightarrow> known st r"
  unfolding maps_inv_def hm_contains_def by blast

lemma states_known: "maps_inv st \<Longrightarrow> hm_get (fc_states st) r \<noteq> None \<longleftrightarrow> known st r"
  unfolding maps_inv_def hm_contains_def by blast

lemma zero_unknown: "maps_inv st \<Longrightarrow> \<not> known st zero_root"
  unfolding maps_inv_def by blast

lemma index_iff:
  "nodes_inv st \<Longrightarrow> hm_get (fc_node_indices st) r = Some i \<longleftrightarrow>
   i < length (fc_nodes st) \<and> pn_root (fc_nodes st ! i) = r"
  unfolding nodes_inv_def by blast

lemma index_known: "nodes_inv st \<Longrightarrow> hm_get (fc_node_indices st) r \<noteq> None \<longleftrightarrow> known st r"
  unfolding nodes_inv_def hm_contains_def by blast

lemma node_block:
  "nodes_inv st \<Longrightarrow> i < length (fc_nodes st) \<Longrightarrow>
   hm_get (fc_blocks st) (pn_root (fc_nodes st ! i)) = Some sb \<Longrightarrow>
   pn_slot (fc_nodes st ! i) = b_slot (block_of sb) \<and>
   pn_proposer_index (fc_nodes st ! i) = b_proposer_index (block_of sb)"
  unfolding nodes_inv_def by blast

lemma node_parent:
  "nodes_inv st \<Longrightarrow> i < length (fc_nodes st) \<Longrightarrow>
   hm_get (fc_parents st) (pn_root (fc_nodes st ! i)) = Some p \<Longrightarrow>
   pn_parent (fc_nodes st ! i) = hm_get (fc_node_indices st) p"
  unfolding nodes_inv_def by blast

lemma known_index:
  assumes "nodes_inv st" "known st r"
  obtains i where "hm_get (fc_node_indices st) r = Some i" "i < length (fc_nodes st)"
    "pn_root (fc_nodes st ! i) = r"
proof -
  obtain i where "hm_get (fc_node_indices st) r = Some i"
    using index_known [OF assms(1), of r] assms(2) by auto
  then show ?thesis using index_iff [OF assms(1)] that by blast
qed

lemma node_known: "nodes_inv st \<Longrightarrow> i < length (fc_nodes st) \<Longrightarrow> known st (pn_root (fc_nodes st ! i))"
  using index_known index_iff by (metis option.distinct(1))

lemma unknown_index: "nodes_inv st \<Longrightarrow> \<not> known st r \<Longrightarrow> hm_get (fc_node_indices st) r = None"
  using index_known by blast

section \<open>Appending a node\<close>

lemma new_node_sel [simp]:
  "pn_root (new_node r p s x) = r" "pn_parent (new_node r p s x) = p"
  "pn_children (new_node r p s x) = []" "pn_slot (new_node r p s x) = s"
  "pn_proposer_index (new_node r p s x) = x" "pn_weight (new_node r p s x) = 0"
  "pn_best_child (new_node r p s x) = None"
  by (simp_all add: new_node_def)

lemma children_set_append:
  assumes "tree_inv ns" "p \<le> length ns"
  shows "children_set (ns @ [new_node root None slot pix]) p = children_set ns p"
  using assms tree_inv_parent [OF assms(1)]
  by (auto simp: children_set_def nth_append split: if_splits)

lemma children_set_fresh: "tree_inv ns \<Longrightarrow> children_set ns (length ns) = {}"
  using tree_inv_parent by (fastforce simp: children_set_def)

lemma tree_inv_append:
  assumes t: "tree_inv ns" and r: "root \<notin> pn_root ` set ns"
  shows "tree_inv (ns @ [new_node root None slot pix])"
proof -
  let ?ns = "ns @ [new_node root None slot pix]"
  have "distinct (map pn_root ?ns)" using t r by (auto simp: tree_inv_def)
  moreover have "p < length ?ns \<and> pn_slot (?ns ! p) < pn_slot (?ns ! i)"
    if "i < length ?ns" "pn_parent (?ns ! i) = Some p" for i p
    using that tree_inv_parent [OF t, of i p]
    by (auto simp: nth_append split: if_splits)
  moreover have "set (pn_children (?ns ! p)) = children_set ?ns p" if p: "p < length ?ns" for p
  proof (cases "p = length ns")
    case True
    then show ?thesis using children_set_fresh [OF t] children_set_append [OF t, of p]
      by simp
  next
    case False
    then show ?thesis using p t children_set_append [OF t, of p] by (simp add: nth_append tree_inv_def)
  qed
  ultimately show ?thesis unfolding tree_inv_def by blast
qed

lemma descends_append:
  assumes "tree_inv ns"
  shows "descends (ns @ [new_node root None slot pix]) i j = descends ns i j"
proof -
  have "parent_edges (ns @ [new_node root None slot pix]) = parent_edges ns"
    by (auto simp: parent_edges_def nth_append split: if_splits)
  then show ?thesis by (simp add: descends_def)
qed

lemma arena_inv_append:
  assumes a: "arena_inv ns V" and r: "root \<notin> pn_root ` set ns" and V: "root \<notin> ran V"
  shows "arena_inv (ns @ [new_node root None slot pix]) V"
proof -
  let ?ns = "ns @ [new_node root None slot pix]"
  have t: "tree_inv ns" and b: "best_inv ns" and f: "finite (dom V)" using a by (auto simp: arena_inv_def)
  have sup: "support ?ns V i = support ns V i" for i
  proof -
    have "support ?ns V i = {v. \<exists>j < Suc (length ns). V v = Some (pn_root (?ns ! j)) \<and> descends ns j i}"
      by (simp add: support_def descends_append [OF t])
    also have "\<dots> = {v. \<exists>j < length ns. V v = Some (pn_root (?ns ! j)) \<and> descends ns j i}"
      using V by (auto simp: less_Suc_eq ran_def)
    also have "\<dots> = support ns V i" by (auto simp: support_def nth_append)
    finally show ?thesis .
  qed
  have fresh: "support ns V (length ns) = {}"
    using descends_length [OF t] by (auto simp: support_def)
  have "best_inv ?ns"
    unfolding best_inv_def
  proof (intro allI impI)
    fix p assume p: "p < length ?ns"
    show "is_best ?ns (children_set ?ns p) (pn_best_child (?ns ! p))"
    proof (cases "p = length ns")
      case True
      then show ?thesis using children_set_fresh [OF t] children_set_append [OF t, of p]
        by (simp add: is_best_def)
    next
      case False
      then have "p < length ns" using p by simp
      moreover have "is_best ?ns (children_set ns p) x = is_best ns (children_set ns p) x" for x
        by (rule is_best_cong) (simp add: children_set_def nth_append)
      ultimately show ?thesis using b children_set_append [OF t, of p]
        by (simp add: best_inv_def nth_append)
    qed
  qed
  moreover have "pn_weight (?ns ! i) = int (card (support ?ns V i))" if "i < length ?ns" for i
    using that arena_inv_weight [OF a, of i] fresh
    by (auto simp: sup nth_append less_Suc_eq)
  ultimately show ?thesis using tree_inv_append [OF t r] f by (simp add: arena_inv_def)
qed

section \<open>Attaching the known children\<close>

text \<open>The links that the loop over the known children leaves behind.\<close>

definition relinked ::
    "proto_node list \<Rightarrow> nat \<Rightarrow> bytes32 set \<Rightarrow> proto_node list \<Rightarrow> bool" where
  "relinked ns p R ns' \<longleftrightarrow> length ns' = length ns \<and>
     (\<forall>i < length ns. pn_root (ns' ! i) = pn_root (ns ! i) \<and> pn_slot (ns' ! i) = pn_slot (ns ! i) \<and>
        pn_proposer_index (ns' ! i) = pn_proposer_index (ns ! i) \<and>
        pn_parent (ns' ! i) = (if pn_root (ns ! i) \<in> R \<and> pn_parent (ns ! i) = None
          then Some p else pn_parent (ns ! i)))"

lemma relinked_cong:
  assumes "\<And>i. i < length ns \<Longrightarrow> pn_parent (ns ! i) = None \<Longrightarrow>
    pn_root (ns ! i) \<in> R \<longleftrightarrow> pn_root (ns ! i) \<in> R'"
  shows "relinked ns p R ns' = relinked ns p R' ns'"
  using assms unfolding relinked_def by (intro conj_cong refl all_cong) auto

lemma attach_children_loop_spec:
  assumes "arena_inv ns V" "p < length ns"
    and ix: "\<And>r i. hm_get ixs r = Some i \<longleftrightarrow> i < length ns \<and> pn_root (ns ! i) = r"
    and later: "\<And>i. i < length ns \<Longrightarrow> pn_root (ns ! i) \<in> set cs - {proot} \<Longrightarrow>
      pn_slot (ns ! p) < pn_slot (ns ! i)"
  shows "\<exists>ns'. attach_children_loop ixs ns proot p cs = Inr ns' \<and> arena_inv ns' V \<and>
    relinked ns p (set cs - {proot}) ns'"
  using assms
proof (induction cs arbitrary: ns)
  case Nil
  then show ?case by (simp add: relinked_def)
next
  case (Cons c cs)
  have skip: "\<exists>ns'. attach_children_loop ixs ns proot p cs = Inr ns' \<and> arena_inv ns' V \<and>
      relinked ns p (set cs - {proot}) ns'"
    using Cons.prems by (intro Cons.IH) auto
  show ?case
  proof (cases "c = proot \<or> hm_get ixs c = None")
    case True
    then have "c \<noteq> proot \<Longrightarrow> i < length ns \<Longrightarrow> pn_root (ns ! i) \<noteq> c" for i
      using Cons.prems(3) [of c i] by auto
    then have "relinked ns p (set (c # cs) - {proot}) ns' = relinked ns p (set cs - {proot}) ns'" for ns'
      by (intro relinked_cong) auto
    then show ?thesis using skip True by auto
  next
    case False
    then obtain i where i: "hm_get ixs c = Some i" "i < length ns" "pn_root (ns ! i) = c"
      using Cons.prems(3) by auto
    then have inj: "\<And>j. j < length ns \<Longrightarrow> pn_root (ns ! j) = c \<longleftrightarrow> j = i"
      using Cons.prems(1) tree_inv_root_inj by (fastforce simp: arena_inv_def)
    show ?thesis
    proof (cases "pn_parent (ns ! i)")
      case (Some q)
      then have "attach_child ns p i = Inr ns" using i by (auto simp: attach_child_def index_at_def)
      moreover have "relinked ns p (set (c # cs) - {proot}) ns' = relinked ns p (set cs - {proot}) ns'"
        for ns'
        using inj Some by (intro relinked_cong) auto
      ultimately show ?thesis using skip False i by auto
    next
      case None
      have "pn_slot (ns ! p) < pn_slot (ns ! i)" using Cons.prems(4) i False by auto
      then obtain ns1 where ns1: "attach_child ns p i = Inr ns1" "attached ns p i ns1" "arena_inv ns1 V"
        using attach_child_spec [OF Cons.prems(1) i(2) None Cons.prems(2)] by blast
      then have l1: "length ns1 = length ns" by (simp add: attached_def)
      have "\<exists>ns'. attach_children_loop ixs ns1 proot p cs = Inr ns' \<and> arena_inv ns' V \<and>
          relinked ns1 p (set cs - {proot}) ns'"
        using Cons.prems(2-) ns1(2,3) l1 by (intro Cons.IH) (auto simp: attached_def)
      moreover have "relinked ns p (set (c # cs) - {proot}) ns' = relinked ns1 p (set cs - {proot}) ns'"
        for ns'
        using ns1(2) inj i None False unfolding relinked_def attached_def by auto
      ultimately show ?thesis using False i ns1(1) by auto
    qed
  qed
qed

section \<open>Inserting a block\<close>

text \<open>
  What the callers guarantee of a block: its root is not zero and not its own parent, it is
  later than its parent and earlier than its children in the store, and a block that is
  already known is imported again unchanged. The state transition checks the slots, and the
  rest holds unless two inputs of the hash function collide or the finalized block, which
  pruning cut off from its parent, is imported a second time. \<^verbatim>\<open>on_block\<close> itself does not
  check any of this.
\<close>

definition importable :: "ssz_lib \<Rightarrow> fork_choice_store \<Rightarrow> signed_block \<Rightarrow> bool" where
  "importable L st sb \<longleftrightarrow> (let b = block_of sb; root = block_root L b in
     root \<noteq> zero_root \<and> b_parent_root b \<noteq> root \<and>
     (\<forall>psb. hm_get (fc_blocks st) (b_parent_root b) = Some psb \<longrightarrow> b_slot (block_of psb) < b_slot b) \<and>
     (\<forall>r csb. hm_get (fc_blocks st) r = Some csb \<longrightarrow> hm_get (fc_parents st) r = Some root \<longrightarrow>
        b_slot b < b_slot (block_of csb)) \<and>
     (\<forall>old. hm_get (fc_blocks st) root = Some old \<longrightarrow>
        block_of old = b \<and> hm_get (fc_parents st) root = Some (b_parent_root b)))"

definition with_block ::
    "fork_choice_store \<Rightarrow> bytes32 \<Rightarrow> signed_block \<Rightarrow> state \<Rightarrow> fork_choice_store" where
  "with_block st root sb s =
     st\<lparr>fc_blocks := hm_insert root sb (fc_blocks st),
        fc_states := hm_insert root s (fc_states st),
        fc_parents := hm_insert root (b_parent_root (block_of sb)) (fc_parents st),
        fc_children := push_child (b_parent_root (block_of sb)) root (fc_children st)\<rparr>"

lemma with_block_sel [simp]:
  "fc_nodes (with_block st root sb s) = fc_nodes st"
  "fc_node_indices (with_block st root sb s) = fc_node_indices st"
  "fc_latest_votes (with_block st root sb s) = fc_latest_votes st"
  "fc_latest_new_votes (with_block st root sb s) = fc_latest_new_votes st"
  "fc_blocks (with_block st root sb s) = hm_insert root sb (fc_blocks st)"
  "fc_states (with_block st root sb s) = hm_insert root s (fc_states st)"
  "fc_parents (with_block st root sb s) = hm_insert root (b_parent_root (block_of sb)) (fc_parents st)"
  "fc_children (with_block st root sb s) = push_child (b_parent_root (block_of sb)) root (fc_children st)"
  by (simp_all add: with_block_def)

lemma known_with_block: "known (with_block st root sb s) r \<longleftrightarrow> r = root \<or> known st r"
  by (simp add: known_def hm_contains_def)

lemma children_of_with_block:
  "children_of (with_block st root sb s) p =
   children_of st p \<union> (if p = b_parent_root (block_of sb) then {root} else {})"
  by (auto simp: children_of_def push_child_def split: option.splits)

lemma with_block_maps_inv:
  assumes m: "maps_inv st" and z: "root \<noteq> zero_root"
    and same: "known st root \<Longrightarrow> hm_get (fc_parents st) root = Some (b_parent_root (block_of sb))"
  shows "maps_inv (with_block st root sb s)"
proof -
  let ?st = "with_block st root sb s" and ?P = "b_parent_root (block_of sb)"
  have own: "p = ?P" if "root \<in> children_of st p" for p
  proof -
    have "hm_get (fc_parents st) root = Some p" using child_parent [OF m that] .
    then show ?thesis using same parents_known [OF m, of root] by simp
  qed
  have down: "hm_get (fc_parents ?st) r = Some p" if "r \<in> children_of ?st p" for p r
    using that own child_parent [OF m, of r p] by (auto simp: children_of_with_block split: if_splits)
  have up: "r \<in> children_of ?st p" if "hm_get (fc_parents ?st) r = Some p" "p \<noteq> zero_root" for p r
    using that parent_child [OF m, of r p] by (auto simp: children_of_with_block split: if_splits)
  have wf: "hm_wf (fc_blocks ?st) \<and> hm_wf (fc_parents ?st) \<and> hm_wf (fc_latest_votes ?st) \<and>
      hm_wf (fc_latest_new_votes ?st)"
    using m by (simp add: maps_inv_def)
  have dom: "hm_contains (fc_states ?st) r = known ?st r" "hm_contains (fc_parents ?st) r = known ?st r" for r
    using parents_known [OF m, of r] states_known [OF m, of r]
    by (simp_all add: known_with_block hm_contains_def)
  have "\<not> known ?st zero_root" using z zero_unknown [OF m] by (simp add: known_with_block)
  then show ?thesis unfolding maps_inv_def using wf dom down up by blast
qed

lemma insert_parent_step:
  assumes a: "arena_inv (ns @ [new_node root None slot pix]) V"
    and P: "P \<noteq> root" and ix: "\<And>p. hm_get ixs P = Some p \<Longrightarrow> p < length ns \<and> pn_slot (ns ! p) < slot"
  obtains ns2 where
    "(case hm_get (hm_insert root (length ns) ixs) P of None \<Rightarrow> Inr (ns @ [new_node root None slot pix])
      | Some p \<Rightarrow> attach_child (ns @ [new_node root None slot pix]) p (length ns)) = Inr ns2"
    "arena_inv ns2 V" "length ns2 = Suc (length ns)"
    "\<And>i. i < length ns2 \<Longrightarrow> pn_root (ns2 ! i) = pn_root ((ns @ [new_node root None slot pix]) ! i) \<and>
      pn_slot (ns2 ! i) = pn_slot ((ns @ [new_node root None slot pix]) ! i) \<and>
      pn_proposer_index (ns2 ! i) = pn_proposer_index ((ns @ [new_node root None slot pix]) ! i) \<and>
      pn_parent (ns2 ! i) = (if i = length ns then hm_get ixs P else pn_parent (ns ! i))"
proof (cases "hm_get ixs P")
  case None
  show ?thesis
    by (rule that [of "ns @ [new_node root None slot pix]"]) (use None P a in \<open>auto simp: nth_append\<close>)
next
  case (Some p)
  let ?ns = "ns @ [new_node root None slot pix]"
  have p: "p < length ns" "pn_slot (ns ! p) < slot" using ix [OF Some] by auto
  then have c: "length ns < length ?ns" "pn_parent (?ns ! length ns) = None" "p < length ?ns"
      "pn_slot (?ns ! p) < pn_slot (?ns ! length ns)"
    by (simp_all add: nth_append)
  from attach_child_spec [OF a c] obtain ns2
    where ns2: "attach_child ?ns p (length ns) = Inr ns2" "attached ?ns p (length ns) ns2" "arena_inv ns2 V"
    by blast
  show ?thesis
    by (rule that [OF _ ns2(3)]) (use Some P ns2(1,2) in \<open>auto simp: attached_def nth_append\<close>)
qed

lemma attach_known_children_spec:
  assumes a: "arena_inv ns V" and p: "p < length ns"
    and ix: "\<And>r i. hm_get ixs r = Some i \<longleftrightarrow> i < length ns \<and> pn_root (ns ! i) = r"
    and later: "\<And>i. i < length ns \<Longrightarrow>
      pn_root (ns ! i) \<in> (case hm_get ch root of None \<Rightarrow> {} | Some rs \<Rightarrow> set rs) - {root} \<Longrightarrow>
      pn_slot (ns ! p) < pn_slot (ns ! i)"
  obtains ns' where "attach_known_children ch ixs ns root p = Inr ns'" "arena_inv ns' V"
    "relinked ns p ((case hm_get ch root of None \<Rightarrow> {} | Some rs \<Rightarrow> set rs) - {root}) ns'"
proof (cases "hm_get ch root")
  case None
  show ?thesis by (rule that [of ns]) (use None a in \<open>auto simp: attach_known_children_def relinked_def\<close>)
next
  case (Some rs)
  have "\<exists>ns'. attach_children_loop ixs ns root p rs = Inr ns' \<and> arena_inv ns' V \<and>
      relinked ns p (set rs - {root}) ns'"
    using Some later by (intro attach_children_loop_spec [OF a p ix]) simp_all
  then obtain ns' where ns': "attach_children_loop ixs ns root p rs = Inr ns'" "arena_inv ns' V"
      "relinked ns p (set rs - {root}) ns'" by blast
  show ?thesis by (rule that [OF _ ns'(2)]) (use ns' Some in \<open>simp_all add: attach_known_children_def\<close>)
qed

lemma importableD:
  assumes "importable L st sb" and "root = block_root L (block_of sb)"
  shows "root \<noteq> zero_root" "b_parent_root (block_of sb) \<noteq> root"
    "hm_get (fc_blocks st) (b_parent_root (block_of sb)) = Some psb \<Longrightarrow>
      b_slot (block_of psb) < b_slot (block_of sb)"
    "hm_get (fc_blocks st) r = Some csb \<Longrightarrow> hm_get (fc_parents st) r = Some root \<Longrightarrow>
      b_slot (block_of sb) < b_slot (block_of csb)"
    "hm_get (fc_blocks st) root = Some old \<Longrightarrow> block_of old = block_of sb"
    "hm_get (fc_blocks st) root = Some old \<Longrightarrow>
      hm_get (fc_parents st) root = Some (b_parent_root (block_of sb))"
  using assms unfolding importable_def Let_def by simp_all

text \<open>The arena after the insertion of a block whose root is not known yet.\<close>

definition inserted :: "fork_choice_store \<Rightarrow> bytes32 \<Rightarrow> block \<Rightarrow> proto_node list \<Rightarrow> bool" where
  "inserted st root b ns \<longleftrightarrow> length ns = Suc (length (fc_nodes st)) \<and>
     (\<forall>i < length ns.
        pn_root (ns ! i) = (if i = length (fc_nodes st) then root else pn_root (fc_nodes st ! i)) \<and>
        pn_slot (ns ! i) = (if i = length (fc_nodes st) then b_slot b else pn_slot (fc_nodes st ! i)) \<and>
        pn_proposer_index (ns ! i) = (if i = length (fc_nodes st) then b_proposer_index b
          else pn_proposer_index (fc_nodes st ! i)) \<and>
        pn_parent (ns ! i) = (if i = length (fc_nodes st)
          then hm_get (fc_node_indices st) (b_parent_root b)
          else if pn_root (fc_nodes st ! i) \<in> children_of st root \<and> pn_parent (fc_nodes st ! i) = None
          then Some (length (fc_nodes st)) else pn_parent (fc_nodes st ! i)))"

lemma insert_fresh_nodes:
  assumes tp: "tree_part st" and im: "importable L st sb" and root: "root = block_root L (block_of sb)"
    and fresh: "\<not> known st root"
  obtains ns where
    "insert_proto_node (with_block st root sb s) root (b_parent_root (block_of sb))
       (b_slot (block_of sb)) (b_proposer_index (block_of sb)) =
     Inr (with_block st root sb s\<lparr>fc_nodes := ns,
       fc_node_indices := hm_insert root (length (fc_nodes st)) (fc_node_indices st)\<rparr>)"
    "arena_inv ns (hm_get (fc_latest_votes st))" "inserted st root (block_of sb) ns"
proof -
  note imp = importableD [OF im root]
  have m: "maps_inv st" and n: "nodes_inv st" and v: "fc_votes_inv st"
    using tp by (auto simp: tree_part_def)
  let ?ns = "fc_nodes st" and ?n = "length (fc_nodes st)" and ?P = "b_parent_root (block_of sb)"
  let ?V = "hm_get (fc_latest_votes st)"
  let ?ixs = "hm_insert root ?n (fc_node_indices st)"
  let ?ns1 = "?ns @ [new_node root None (b_slot (block_of sb)) (b_proposer_index (block_of sb))]"
  have old: "pn_root (?ns ! i) \<noteq> root" if "i < ?n" for i using node_known [OF n that] fresh by auto
  have a1: "arena_inv ?ns1 ?V"
  proof (rule arena_inv_append)
    show "arena_inv ?ns ?V" using v by (simp add: fc_votes_inv_def)
    show "root \<notin> pn_root ` set ?ns" using old by (metis imageE in_set_conv_nth)
    show "root \<notin> ran ?V" using v fresh by (auto simp: fc_votes_inv_def ran_def)
  qed
  have parent: "p < ?n \<and> pn_slot (?ns ! p) < b_slot (block_of sb)"
    if p: "hm_get (fc_node_indices st) ?P = Some p" for p
  proof -
    have i: "p < ?n" "pn_root (?ns ! p) = ?P" using index_iff [OF n] p by auto
    then obtain psb where "hm_get (fc_blocks st) ?P = Some psb"
      using node_known [OF n i(1)] by (auto simp: known_def hm_contains_def)
    then show ?thesis using node_block [OF n i(1), of psb] imp(3) i by simp
  qed
  from insert_parent_step [OF a1 imp(2) parent] obtain ns2 where
    ns2: "(case hm_get ?ixs ?P of None \<Rightarrow> Inr ?ns1 | Some p \<Rightarrow> attach_child ?ns1 p ?n) = Inr ns2"
      "arena_inv ns2 ?V" "length ns2 = Suc ?n"
      "\<And>i. i < length ns2 \<Longrightarrow> pn_root (ns2 ! i) = pn_root (?ns1 ! i) \<and> pn_slot (ns2 ! i) = pn_slot (?ns1 ! i) \<and>
        pn_proposer_index (ns2 ! i) = pn_proposer_index (?ns1 ! i) \<and>
        pn_parent (ns2 ! i) = (if i = ?n then hm_get (fc_node_indices st) ?P else pn_parent (?ns ! i))"
    by blast
  have ix: "hm_get ?ixs r = Some i \<longleftrightarrow> i < length ns2 \<and> pn_root (ns2 ! i) = r" for r i
    using ns2(3) ns2(4) [of i] index_iff [OF n, of r i] old [of i] unknown_index [OF n fresh]
    by (auto simp: nth_append less_Suc_eq)
  have ch: "(case hm_get (push_child ?P root (fc_children st)) root of None \<Rightarrow> {} | Some rs \<Rightarrow> set rs)
      = children_of st root"
    using imp(2) by (simp add: push_child_def children_of_def)
  have later: "pn_slot (ns2 ! ?n) < pn_slot (ns2 ! i)"
    if i: "i < length ns2" "pn_root (ns2 ! i) \<in> children_of st root - {root}" for i
  proof -
    have lt: "i < ?n" using i ns2(3) ns2(4) [OF i(1)] by (auto simp: nth_append less_Suc_eq split: if_splits)
    then have "hm_get (fc_parents st) (pn_root (?ns ! i)) = Some root"
      using i ns2(4) [OF i(1)] child_parent [OF m] by (auto simp: nth_append)
    moreover obtain csb where "hm_get (fc_blocks st) (pn_root (?ns ! i)) = Some csb"
      using node_known [OF n lt] by (auto simp: known_def hm_contains_def)
    ultimately have "b_slot (block_of sb) < pn_slot (?ns ! i)"
      using imp(4) node_block [OF n lt] by auto
    then show ?thesis using ns2(3) ns2(4) [OF i(1)] ns2(4) [of ?n] lt by (simp add: nth_append)
  qed
  have nn: "?n < length ns2" using ns2(3) by simp
  from attach_known_children_spec [OF ns2(2) nn ix, of "push_child ?P root (fc_children st)" root,
      unfolded ch, OF later]
  obtain ns3 where ns3: "attach_known_children (push_child ?P root (fc_children st)) ?ixs ns2 root ?n = Inr ns3"
      "arena_inv ns3 ?V" "relinked ns2 ?n (children_of st root - {root}) ns3" by blast
  show ?thesis
  proof (rule that [OF _ ns3(2)])
    have "\<not> hm_contains (fc_node_indices st) root" using unknown_index [OF n fresh] by (simp add: hm_contains_def)
    then show "insert_proto_node (with_block st root sb s) root ?P (b_slot (block_of sb))
        (b_proposer_index (block_of sb)) =
      Inr (with_block st root sb s\<lparr>fc_nodes := ns3, fc_node_indices := ?ixs\<rparr>)"
      using ns2(1) ns3(1) by (simp add: insert_proto_node_def Let_def del: hm_get_insert)
  qed (use ns2(3,4) ns3(3) old in \<open>auto simp: inserted_def relinked_def nth_append less_Suc_eq\<close>)
qed

lemma known_update_nodes [simp]: "known (st\<lparr>fc_nodes := ns\<rparr>) = known st"
  "known (st\<lparr>fc_node_indices := ixs\<rparr>) = known st"
  "known (st\<lparr>fc_latest_votes := V\<rparr>) = known st" "known (st\<lparr>fc_latest_new_votes := V\<rparr>) = known st"
  by (simp_all add: known_def fun_eq_iff)

lemma children_of_update_nodes [simp]: "children_of (st\<lparr>fc_nodes := ns\<rparr>) = children_of st"
  "children_of (st\<lparr>fc_node_indices := ixs\<rparr>) = children_of st"
  "children_of (st\<lparr>fc_latest_votes := V\<rparr>) = children_of st"
  "children_of (st\<lparr>fc_latest_new_votes := V\<rparr>) = children_of st"
  by (simp_all add: children_of_def fun_eq_iff)

lemma maps_inv_update_nodes [simp]:
  "maps_inv (st\<lparr>fc_nodes := ns\<rparr>) = maps_inv st" "maps_inv (st\<lparr>fc_node_indices := ixs\<rparr>) = maps_inv st"
  by (simp_all add: maps_inv_def)

lemma insert_fresh_nodes_inv:
  assumes m: "maps_inv st" and n: "nodes_inv st" and im: "importable L st sb"
    and root: "root = block_root L (block_of sb)" and fresh: "\<not> known st root"
    and ins: "inserted st root (block_of sb) ns"
  shows "nodes_inv (with_block st root sb s\<lparr>fc_nodes := ns,
    fc_node_indices := hm_insert root (length (fc_nodes st)) (fc_node_indices st)\<rparr>)" (is "nodes_inv ?st")
proof -
  let ?n = "length (fc_nodes st)" and ?ixs = "hm_insert root (length (fc_nodes st)) (fc_node_indices st)"
  note imp = importableD [OF im root]
  note len = ins [unfolded inserted_def, THEN conjunct1]
  note ns = ins [unfolded inserted_def, THEN conjunct2, rule_format]
  have old: "pn_root (fc_nodes st ! i) \<noteq> root" if "i < ?n" for i using node_known [OF n that] fresh by auto
  have ix: "hm_get ?ixs r = Some i \<longleftrightarrow> i < length ns \<and> pn_root (ns ! i) = r" for r i
    using len ns [of i] index_iff [OF n, of r i] old [of i] unknown_index [OF n fresh]
    by (auto simp: less_Suc_eq)
  have dom: "hm_contains ?ixs r = known ?st r" for r
    using index_known [OF n, of r] by (auto simp: hm_contains_def known_with_block)
  have blk: "pn_slot (ns ! i) = b_slot (block_of x) \<and> pn_proposer_index (ns ! i) = b_proposer_index (block_of x)"
    if "i < length ns" "hm_get (hm_insert root sb (fc_blocks st)) (pn_root (ns ! i)) = Some x" for i x
    using that len ns [of i] old [of i] node_block [OF n, of i x] by (auto simp: less_Suc_eq split: if_splits)
  have par: "pn_parent (ns ! i) = hm_get ?ixs p"
    if i: "i < length ns" and p: "hm_get (fc_parents (with_block st root sb s)) (pn_root (ns ! i)) = Some p" for i p
  proof (cases "i = ?n")
    case True
    then show ?thesis using ns [OF i] p imp(2) by auto
  next
    case False
    then have lt: "i < ?n" using i len by simp
    then have p': "hm_get (fc_parents st) (pn_root (fc_nodes st ! i)) = Some p"
      using ns [OF i] p old by (auto split: if_splits)
    have par: "pn_parent (fc_nodes st ! i) = hm_get (fc_node_indices st) p"
      using node_parent [OF n lt p'] .
    show ?thesis
    proof (cases "p = root")
      case True
      then show ?thesis
        using ns [OF i] False par parent_child [OF m p'] imp(1) unknown_index [OF n fresh] by simp
    next
      case neq: False
      then have "pn_root (fc_nodes st ! i) \<notin> children_of st root" using child_parent [OF m] p' by force
      then show ?thesis using ns [OF i] False par neq by simp
    qed
  qed
  show ?thesis unfolding nodes_inv_def using ix dom blk par by simp
qed

lemma reinsert_nodes_inv:
  assumes n: "nodes_inv st" and k: "known st root"
    and par: "hm_get (fc_parents st) root = Some (b_parent_root (block_of sb))"
    and same: "\<And>old. hm_get (fc_blocks st) root = Some old \<Longrightarrow> block_of old = block_of sb"
  shows "nodes_inv (with_block st root sb s)"
proof -
  obtain old where old: "hm_get (fc_blocks st) root = Some old"
    using k by (auto simp: known_def hm_contains_def)
  have p: "hm_get (hm_insert root (b_parent_root (block_of sb)) (fc_parents st)) = hm_get (fc_parents st)"
    using par by (simp add: fun_eq_iff)
  have blk: "pn_slot (fc_nodes st ! i) = b_slot (block_of x) \<and>
      pn_proposer_index (fc_nodes st ! i) = b_proposer_index (block_of x)"
    if "i < length (fc_nodes st)"
      "hm_get (hm_insert root sb (fc_blocks st)) (pn_root (fc_nodes st ! i)) = Some x" for i x
    using that node_block [OF n, of i x] node_block [OF n, of i old] same [OF old] old
    by (auto split: if_splits)
  have kn: "known (with_block st root sb s) = known st"
    using k by (auto simp: fun_eq_iff known_with_block)
  show ?thesis unfolding nodes_inv_def with_block_sel p kn
  proof (intro conjI)
    show "\<forall>r. hm_contains (fc_node_indices st) r = known st r" using n by (simp add: nodes_inv_def)
  qed (use index_iff [OF n] blk node_parent [OF n] in blast)+
qed

lemma insert_block_spec:
  assumes tp: "tree_part st" and im: "importable L st sb" and root: "root = block_root L (block_of sb)"
  obtains ns ixs where
    "insert_proto_node (with_block st root sb s) root (b_parent_root (block_of sb))
       (b_slot (block_of sb)) (b_proposer_index (block_of sb)) =
     Inr (with_block st root sb s\<lparr>fc_nodes := ns, fc_node_indices := ixs\<rparr>)"
    "tree_part (with_block st root sb s\<lparr>fc_nodes := ns, fc_node_indices := ixs\<rparr>)"
proof -
  note imp = importableD [OF im root]
  have m: "maps_inv st" and n: "nodes_inv st" and v: "fc_votes_inv st"
    using tp by (auto simp: tree_part_def)
  have same: "hm_get (fc_parents st) root = Some (b_parent_root (block_of sb))" if "known st root"
    using that imp(6) by (auto simp: known_def hm_contains_def)
  have m': "maps_inv (with_block st root sb s)"
    using with_block_maps_inv [OF m imp(1) same] .
  have votes: "fc_votes_inv (with_block st root sb s\<lparr>fc_nodes := ns, fc_node_indices := ixs\<rparr>)"
    if "arena_inv ns (hm_get (fc_latest_votes st))" for ns ixs
    using that v by (auto simp: fc_votes_inv_def known_with_block)
  show ?thesis
  proof (cases "known st root")
    case True
    have n': "nodes_inv (with_block st root sb s)"
      using reinsert_nodes_inv [OF n True same [OF True]] imp(5) by blast
    have "insert_proto_node (with_block st root sb s) root (b_parent_root (block_of sb))
         (b_slot (block_of sb)) (b_proposer_index (block_of sb)) = Inr (with_block st root sb s)"
      using True n by (simp add: insert_proto_node_def nodes_inv_def)
    moreover have "tree_part (with_block st root sb s)"
      using m' n' v by (auto simp: tree_part_def fc_votes_inv_def known_with_block)
    ultimately show ?thesis
      by (intro that [where ns = "fc_nodes st" and ixs = "fc_node_indices st"]) (simp_all add: with_block_def)
  next
    case False
    show ?thesis
    proof (rule insert_fresh_nodes [OF tp im root False, of s])
      fix ns
      assume ins: "insert_proto_node (with_block st root sb s) root (b_parent_root (block_of sb))
           (b_slot (block_of sb)) (b_proposer_index (block_of sb)) =
         Inr (with_block st root sb s\<lparr>fc_nodes := ns,
           fc_node_indices := hm_insert root (length (fc_nodes st)) (fc_node_indices st)\<rparr>)"
        and a: "arena_inv ns (hm_get (fc_latest_votes st))"
        and shape: "inserted st root (block_of sb) ns"
      have "nodes_inv (with_block st root sb s\<lparr>fc_nodes := ns,
          fc_node_indices := hm_insert root (length (fc_nodes st)) (fc_node_indices st)\<rparr>)"
        by (rule insert_fresh_nodes_inv [OF m n im root False shape])
      then show ?thesis using a m' votes by (intro that [OF ins]) (simp add: tree_part_def)
    qed
  qed
qed

section \<open>Casting votes\<close>

text \<open>Voting changes nothing but votes, weights and best children.\<close>

definition votes_only :: "fork_choice_store \<Rightarrow> fork_choice_store \<Rightarrow> bool" where
  "votes_only st st' \<longleftrightarrow>
     st' = st\<lparr>fc_nodes := fc_nodes st', fc_latest_votes := fc_latest_votes st',
              fc_latest_new_votes := fc_latest_new_votes st'\<rparr> \<and>
     same_shape (fc_nodes st) (fc_nodes st')"

lemma votes_only_refl [simp]: "votes_only st st"
  by (simp add: votes_only_def)

lemma votes_only_trans: "votes_only st st' \<Longrightarrow> votes_only st' st'' \<Longrightarrow> votes_only st st''"
  unfolding votes_only_def
  by (cases st; cases st'; cases st'') (auto intro: same_shape_trans)

lemma votes_only_sel:
  assumes "votes_only st st'"
  shows "fc_blocks st' = fc_blocks st" "fc_states st' = fc_states st" "fc_parents st' = fc_parents st"
    "fc_children st' = fc_children st" "fc_node_indices st' = fc_node_indices st"
    "fc_head st' = fc_head st" "fc_safe_target st' = fc_safe_target st"
    "fc_head_slot st' = fc_head_slot st" "fc_latest_justified st' = fc_latest_justified st"
    "fc_previous_justified st' = fc_previous_justified st"
    "fc_latest_finalized st' = fc_latest_finalized st" "fc_reorgs_total st' = fc_reorgs_total st"
    "fc_validator_count st' = fc_validator_count st"
  using assms unfolding votes_only_def by (cases st; cases st'; simp)+

lemma votes_only_known: "votes_only st st' \<Longrightarrow> known st' = known st"
  by (simp add: known_def fun_eq_iff votes_only_sel)

lemma votes_only_head_inv: "votes_only st st' \<Longrightarrow> head_inv st' = head_inv st"
  by (simp add: head_inv_def votes_only_sel votes_only_known)

lemma votes_only_nodes_inv:
  assumes "votes_only st st'" "nodes_inv st"
  shows "nodes_inv st'"
proof -
  have sh: "length (fc_nodes st') = length (fc_nodes st)"
      "\<And>i. i < length (fc_nodes st) \<Longrightarrow> pn_root (fc_nodes st' ! i) = pn_root (fc_nodes st ! i) \<and>
        pn_parent (fc_nodes st' ! i) = pn_parent (fc_nodes st ! i) \<and>
        pn_slot (fc_nodes st' ! i) = pn_slot (fc_nodes st ! i) \<and>
        pn_proposer_index (fc_nodes st' ! i) = pn_proposer_index (fc_nodes st ! i)"
    using assms(1) by (auto simp: votes_only_def same_shape_def)
  note sel = votes_only_sel [OF assms(1)] votes_only_known [OF assms(1)]
  show ?thesis unfolding nodes_inv_def sel sh(1)
  proof (intro conjI)
    show "\<forall>r. hm_contains (fc_node_indices st) r = known st r" using assms(2) by (simp add: nodes_inv_def)
    show "\<forall>r i. (hm_get (fc_node_indices st) r = Some i) =
        (i < length (fc_nodes st) \<and> pn_root (fc_nodes st' ! i) = r)"
      using index_iff [OF assms(2)] sh(2) by auto
  qed (use node_block [OF assms(2)] node_parent [OF assms(2)] sh(2) in auto)
qed

lemma votes_only_maps_inv:
  assumes "votes_only st st'" "maps_inv st" "hm_wf (fc_latest_votes st')" "hm_wf (fc_latest_new_votes st')"
  shows "maps_inv st'"
  using assms(2-) unfolding maps_inv_def votes_only_known [OF assms(1)] children_of_def
    votes_only_sel [OF assms(1)] by blast

lemma hm_wf_dom_finite: "finite (dom (hm_get m))"
  by (rule finite_dom_map_of)

lemma apply_vote_delta_known:
  assumes "nodes_inv st" "known st r" "propagate_weight_from_index (fc_nodes st) i d = Inr ns"
    "hm_get (fc_node_indices st) r = Some i"
  shows "apply_vote_delta st r d = Inr (st\<lparr>fc_nodes := ns\<rparr>)"
  using assms by (simp add: apply_vote_delta_def)

lemma vote_update_tree_part:
  assumes tp: "tree_part st" and k: "known st root" and sh: "same_shape (fc_nodes st) ns"
    and a: "arena_inv ns ((hm_get (fc_latest_votes st))(v \<mapsto> root))"
  defines "st' \<equiv> st\<lparr>fc_latest_votes := hm_insert v root (fc_latest_votes st), fc_nodes := ns\<rparr>"
  shows "tree_part st' \<and> votes_only st st'"
proof -
  have m: "maps_inv st" and n: "nodes_inv st" and vi: "fc_votes_inv st"
    using tp by (auto simp: tree_part_def)
  have vo: "votes_only st st'" using sh by (simp add: votes_only_def st'_def)
  have "hm_wf (fc_latest_votes st')" "hm_wf (fc_latest_new_votes st')"
    using m by (auto simp: maps_inv_def st'_def)
  then have "maps_inv st'" by (rule votes_only_maps_inv [OF vo m])
  moreover have "fc_votes_inv st'" using a vi k by (auto simp: fc_votes_inv_def st'_def)
  ultimately show ?thesis using votes_only_nodes_inv [OF vo n] vo by (simp add: tree_part_def)
qed

lemma set_latest_vote_spec:
  assumes tp: "tree_part st" and k: "known st root"
  obtains ns where
    "set_latest_vote st v root =
       Inr (st\<lparr>fc_latest_votes := hm_insert v root (fc_latest_votes st), fc_nodes := ns\<rparr>)"
    "tree_part (st\<lparr>fc_latest_votes := hm_insert v root (fc_latest_votes st), fc_nodes := ns\<rparr>)"
    "votes_only st (st\<lparr>fc_latest_votes := hm_insert v root (fc_latest_votes st), fc_nodes := ns\<rparr>)"
proof -
  have n: "nodes_inv st" and vi: "fc_votes_inv st" using tp by (auto simp: tree_part_def)
  let ?V = "hm_get (fc_latest_votes st)" and ?LV = "hm_insert v root (fc_latest_votes st)"
  have a: "arena_inv (fc_nodes st) ?V" using vi by (simp add: fc_votes_inv_def)
  obtain i where i: "hm_get (fc_node_indices st) root = Some i" "i < length (fc_nodes st)"
      "pn_root (fc_nodes st ! i) = root"
    using known_index [OF n k] by blast
  have "\<exists>ns. set_latest_vote st v root = Inr (st\<lparr>fc_latest_votes := ?LV, fc_nodes := ns\<rparr>) \<and>
      same_shape (fc_nodes st) ns \<and> arena_inv ns (?V(v \<mapsto> root))"
  proof (cases "?V v")
    case None
    obtain ns where "propagate_weight_from_index (fc_nodes st) i 1 = Inr ns"
        "same_shape (fc_nodes st) ns" "arena_inv ns (?V(v \<mapsto> root))"
      using first_vote_spec [OF a None i(2)] i(3) by blast
    then show ?thesis using None i(1) by (auto simp: set_latest_vote_def apply_vote_delta_def)
  next
    case (Some old)
    then have "known st old" using vi by (auto simp: fc_votes_inv_def)
    then obtain j where j: "hm_get (fc_node_indices st) old = Some j" "j < length (fc_nodes st)"
        "pn_root (fc_nodes st ! j) = old"
      using known_index [OF n] by blast
    show ?thesis
    proof (cases "old = root")
      case True
      then have "?V(v \<mapsto> root) = ?V" using Some by auto
      then show ?thesis using True Some a
        by (intro exI [of _ "fc_nodes st"]) (simp add: set_latest_vote_def)
    next
      case False
      obtain ns1 ns where "propagate_weight_from_index (fc_nodes st) j (- 1) = Inr ns1"
          "propagate_weight_from_index ns1 i 1 = Inr ns" "same_shape (fc_nodes st) ns"
          "arena_inv ns (?V(v \<mapsto> root))"
        using move_vote_spec [OF a, of v j i] Some i(2,3) j(2,3) by blast
      then show ?thesis using Some False i(1) j(1)
        by (auto simp: set_latest_vote_def apply_vote_delta_def)
    qed
  qed
  then show ?thesis using vote_update_tree_part [OF tp k] that by blast
qed

lemma pending_vote_spec:
  fixes v :: nat
  assumes tp: "tree_part st" and k: "known st root"
  defines "st' \<equiv> st\<lparr>fc_latest_new_votes := hm_insert v root (fc_latest_new_votes st)\<rparr>"
  shows "tree_part st' \<and> votes_only st st'"
proof -
  have m: "maps_inv st" and n: "nodes_inv st" and vi: "fc_votes_inv st"
    using tp by (auto simp: tree_part_def)
  have vo: "votes_only st st'" by (simp add: votes_only_def st'_def)
  have "hm_wf (fc_latest_votes st')" "hm_wf (fc_latest_new_votes st')"
    using m by (auto simp: maps_inv_def st'_def)
  then have "maps_inv st'" by (rule votes_only_maps_inv [OF vo m])
  moreover have "fc_votes_inv st'" using vi k by (auto simp: fc_votes_inv_def st'_def)
  ultimately show ?thesis using votes_only_nodes_inv [OF vo n] vo by (simp add: tree_part_def)
qed

text \<open>Every operation that only votes succeeds and keeps the invariant.\<close>

definition votes_ok :: "fork_choice_store \<Rightarrow> fork_choice_store result \<Rightarrow> bool" where
  "votes_ok st r \<longleftrightarrow> (\<exists>st'. r = Inr st' \<and> tree_part st' \<and> votes_only st st')"

lemma votes_ok_refl: "tree_part st \<Longrightarrow> votes_ok st (Inr st)"
  by (simp add: votes_ok_def)

lemma votes_ok_step:
  assumes "votes_only st st'" "votes_ok st' r"
  shows "votes_ok st r"
  using assms votes_only_trans unfolding votes_ok_def by blast

lemma votes_ok_and_then:
  assumes "votes_ok st r"
    and "\<And>st'. r = Inr st' \<Longrightarrow> tree_part st' \<Longrightarrow> votes_only st st' \<Longrightarrow> votes_ok st' (f st')"
  shows "votes_ok st (and_then r f)"
  using assms votes_ok_step unfolding votes_ok_def by force

lemma vote_loop_ok:
  assumes "tree_part st" "known st root"
  shows "votes_ok st (vote_loop st disp root vs)"
  using assms
proof (induction st disp root vs rule: vote_loop.induct)
  case (1 st d root)
  then show ?case by (simp add: votes_ok_refl)
next
  case (2 st root v vs)
  from set_latest_vote_spec [OF 2(2,3), of v] have "votes_ok st (set_latest_vote st v root)"
    by (metis votes_ok_def)
  then show ?case using 2 votes_only_known by (auto intro!: votes_ok_and_then)
next
  case (3 st root v vs)
  then show ?case using pending_vote_spec [OF 3(2,3), of v] by (auto intro: votes_ok_step)
qed

lemma apply_attestation_votes_ok:
  assumes "tree_part st"
  obtains b st' where "apply_attestation_votes st att disp = Inr (b, st')" "tree_part st'"
    "votes_only st st'" "b = known st (cp_root (ad_head (att_data att)))"
proof (cases "known st (cp_root (ad_head (att_data att)))")
  case True
  then show ?thesis
    using vote_loop_ok [OF assms True, of disp "bitlist_indices (att_bits att)"] that
    by (auto simp: apply_attestation_votes_def resolve_vote_root_def known_def votes_ok_def)
next
  case False
  then show ?thesis
    using assms that by (simp add: apply_attestation_votes_def resolve_vote_root_def known_def)
qed

lemma apply_all_votes_ok: "tree_part st \<Longrightarrow> votes_ok st (apply_all_votes st disp atts)"
proof (induction atts arbitrary: st)
  case (Cons att atts)
  obtain b st' where "apply_attestation_votes st att disp = Inr (b, st')" "tree_part st'" "votes_only st st'"
    using apply_attestation_votes_ok [OF Cons.prems] by blast
  then show ?case using Cons.IH votes_ok_step by auto
qed (simp add: votes_ok_refl)

lemma promote_votes_ok:
  assumes "tree_part st" "\<forall>(v, r) \<in> set pending. known st r"
  shows "votes_ok st (promote_votes st pending)"
  using assms
proof (induction st pending rule: promote_votes.induct)
  case (2 st v r pending)
  from set_latest_vote_spec [OF 2(2), of r v] have "votes_ok st (set_latest_vote st v r)"
    using 2(3) by (metis votes_ok_def case_prodD list.set_intros(1))
  then show ?case using 2 votes_only_known by (auto intro!: votes_ok_and_then)
qed (simp add: votes_ok_refl)

end
