(* ===== verification/ForkChoiceHead.thy ===== *)
theory ForkChoiceHead
  imports ForkChoiceInv
begin

text \<open>
  Head and safe target. The specification reads the hash maps only: blocks with their
  parents form a tree, a block weighs the validators whose latest vote is for one of its
  descendants, and \<open>ghost\<close> walks from a block to a leaf, always to the heaviest child.
  The theory shows that \<^verbatim>\<open>find_head\<close>, which follows the cached best children of the arena,
  takes exactly this walk, and that the walks along parents end and answer ancestry.
\<close>

section \<open>The block tree\<close>

definition tree_edges :: "fork_choice_store \<Rightarrow> (bytes32 \<times> bytes32) set" where
  "tree_edges st = {(r, p). known st r \<and> known st p \<and> hm_get (fc_parents st) r = Some p}"

definition child_roots :: "fork_choice_store \<Rightarrow> bytes32 \<Rightarrow> bytes32 set" where
  "child_roots st r = {c. (c, r) \<in> tree_edges st}"

definition vote_weight :: "fork_choice_store \<Rightarrow> bytes32 \<Rightarrow> nat" where
  "vote_weight st r =
     card {v. \<exists>x. hm_get (fc_latest_votes st) v = Some x \<and> (x, r) \<in> (tree_edges st)\<^sup>*}"

definition heavier :: "fork_choice_store \<Rightarrow> bytes32 \<Rightarrow> bytes32 \<Rightarrow> bool" where
  "heavier st c d \<longleftrightarrow> vote_weight st c > vote_weight st d \<or>
     (vote_weight st c = vote_weight st d \<and> c < d)"

inductive ghost :: "fork_choice_store \<Rightarrow> bytes32 \<Rightarrow> bytes32 \<Rightarrow> bool" for st where
  leaf: "child_roots st r = {} \<Longrightarrow> ghost st r r"
| step: "c \<in> child_roots st r \<Longrightarrow> (\<And>d. d \<in> child_roots st r \<Longrightarrow> d = c \<or> heavier st c d) \<Longrightarrow>
    ghost st c h \<Longrightarrow> ghost st r h"

inductive_cases ghostE: "ghost st r h"

lemma ghost_deterministic: "ghost st r h \<Longrightarrow> ghost st r h' \<Longrightarrow> h = h'"
proof (induction arbitrary: h' rule: ghost.induct)
  case (leaf r)
  then show ?case by (auto elim: ghostE)
next
  case (step c r h)
  from step.prems show ?case
  proof (rule ghostE)
    fix c' assume c': "c' \<in> child_roots st r" "ghost st c' h'"
      and best: "\<And>d. d \<in> child_roots st r \<Longrightarrow> d = c' \<or> heavier st c' d"
    have "c = c' \<or> heavier st c c' \<and> heavier st c' c"
      using step.hyps(1,2) c'(1) best by metis
    then have "c = c'" by (auto simp: heavier_def)
    then show "h = h'" using step.IH c'(2) by simp
  qed (use step.hyps(1) in auto)
qed

lemma ghost_descends: "ghost st r h \<Longrightarrow> (h, r) \<in> (tree_edges st)\<^sup>*"
  by (induction rule: ghost.induct) (auto simp: child_roots_def intro: rtrancl_into_rtrancl)

lemma ghost_leaf: "ghost st r h \<Longrightarrow> child_roots st h = {}"
  by (induction rule: ghost.induct) auto

lemma tree_edges_single_valued: "single_valued (tree_edges st)"
  by (auto simp: single_valued_def tree_edges_def)

section \<open>The arena represents the block tree\<close>

lemma tree_part_simps:
  assumes "tree_part st"
  shows "maps_inv st" "nodes_inv st" "arena_inv (fc_nodes st) (hm_get (fc_latest_votes st))"
    "tree_inv (fc_nodes st)" "best_inv (fc_nodes st)"
  using assms by (auto simp: tree_part_def fc_votes_inv_def arena_inv_def)

lemma edge_iff:
  assumes tp: "tree_part st" and i: "i < length (fc_nodes st)"
  shows "(pn_root (fc_nodes st ! i), p) \<in> tree_edges st \<longleftrightarrow>
    (\<exists>j < length (fc_nodes st). p = pn_root (fc_nodes st ! j) \<and> pn_parent (fc_nodes st ! i) = Some j)"
proof -
  note m = tree_part_simps(1) [OF tp] and n = tree_part_simps(2) [OF tp]
  have k: "known st (pn_root (fc_nodes st ! i))" using node_known [OF n i] .
  then obtain q where q: "hm_get (fc_parents st) (pn_root (fc_nodes st ! i)) = Some q"
    using parents_known [OF m] by (metis option.collapse)
  have par: "pn_parent (fc_nodes st ! i) = hm_get (fc_node_indices st) q" using node_parent [OF n i q] .
  have "(pn_root (fc_nodes st ! i), p) \<in> tree_edges st \<longleftrightarrow> known st p \<and> p = q"
    using k q by (auto simp: tree_edges_def)
  also have "\<dots> \<longleftrightarrow> (\<exists>j. hm_get (fc_node_indices st) q = Some j \<and> p = q)"
    using index_known [OF n, of q] by auto
  also have "\<dots> \<longleftrightarrow> (\<exists>j < length (fc_nodes st). p = pn_root (fc_nodes st ! j) \<and>
      pn_parent (fc_nodes st ! i) = Some j)"
    using par index_iff [OF n, of q] by auto
  finally show ?thesis .
qed

lemma edges_star_iff:
  assumes tp: "tree_part st" and i: "i < length (fc_nodes st)" and j: "j < length (fc_nodes st)"
  shows "(pn_root (fc_nodes st ! i), pn_root (fc_nodes st ! j)) \<in> (tree_edges st)\<^sup>* \<longleftrightarrow>
    descends (fc_nodes st) i j"
proof
  note t = tree_part_simps(4) [OF tp]
  assume "descends (fc_nodes st) i j"
  then show "(pn_root (fc_nodes st ! i), pn_root (fc_nodes st ! j)) \<in> (tree_edges st)\<^sup>*"
    unfolding descends_def
  proof (induction rule: rtrancl_induct)
    case (step k l)
    then have k: "k < length (fc_nodes st)" "pn_parent (fc_nodes st ! k) = Some l"
      by (auto simp: parent_edges_def)
    then have "(pn_root (fc_nodes st ! k), pn_root (fc_nodes st ! l)) \<in> tree_edges st"
      using edge_iff [OF tp k(1)] tree_inv_parent [OF t k] by blast
    then show ?case using step.IH by (rule rtrancl_into_rtrancl [rotated])
  qed simp
next
  note t = tree_part_simps(4) [OF tp]
  have "\<exists>k < length (fc_nodes st). r = pn_root (fc_nodes st ! k) \<and> descends (fc_nodes st) i k"
    if "(pn_root (fc_nodes st ! i), r) \<in> (tree_edges st)\<^sup>*" for r
    using that
  proof (induction rule: rtrancl_induct)
    case (step r p)
    then obtain k where k: "k < length (fc_nodes st)" "r = pn_root (fc_nodes st ! k)"
        "descends (fc_nodes st) i k" by blast
    then obtain l where l: "l < length (fc_nodes st)" "p = pn_root (fc_nodes st ! l)"
        "pn_parent (fc_nodes st ! k) = Some l"
      using edge_iff [OF tp k(1)] step.hyps(2) by blast
    have "descends (fc_nodes st) k l" using k(1) l(3) by (simp add: descends_step)
    then show ?case using l(1,2) k(3) descends_trans by blast
  qed (use i in auto)
  moreover assume "(pn_root (fc_nodes st ! i), pn_root (fc_nodes st ! j)) \<in> (tree_edges st)\<^sup>*"
  ultimately show "descends (fc_nodes st) i j"
    using tree_inv_root_inj [OF t j] by metis
qed

lemma child_roots_eq:
  assumes tp: "tree_part st" and i: "i < length (fc_nodes st)"
  shows "child_roots st (pn_root (fc_nodes st ! i)) =
    (\<lambda>c. pn_root (fc_nodes st ! c)) ` children_set (fc_nodes st) i"
proof (rule set_eqI)
  fix r
  note n = tree_part_simps(2) [OF tp] and t = tree_part_simps(4) [OF tp]
  have "r \<in> child_roots st (pn_root (fc_nodes st ! i)) \<longleftrightarrow>
      (\<exists>c < length (fc_nodes st). r = pn_root (fc_nodes st ! c) \<and>
        (pn_root (fc_nodes st ! c), pn_root (fc_nodes st ! i)) \<in> tree_edges st)"
  proof
    assume r: "r \<in> child_roots st (pn_root (fc_nodes st ! i))"
    then have "known st r" by (auto simp: child_roots_def tree_edges_def)
    then show "\<exists>c < length (fc_nodes st). r = pn_root (fc_nodes st ! c) \<and>
        (pn_root (fc_nodes st ! c), pn_root (fc_nodes st ! i)) \<in> tree_edges st"
      using known_index [OF n] r by (metis child_roots_def mem_Collect_eq)
  qed (auto simp: child_roots_def)
  also have "\<dots> \<longleftrightarrow> (\<exists>c < length (fc_nodes st). r = pn_root (fc_nodes st ! c) \<and>
      pn_parent (fc_nodes st ! c) = Some i)"
    using edge_iff [OF tp] tree_inv_root_inj [OF t i] i by metis
  finally show "r \<in> child_roots st (pn_root (fc_nodes st ! i)) \<longleftrightarrow>
      r \<in> (\<lambda>c. pn_root (fc_nodes st ! c)) ` children_set (fc_nodes st) i"
    by (auto simp: children_set_def)
qed

lemma vote_weight_eq:
  assumes tp: "tree_part st" and i: "i < length (fc_nodes st)"
  shows "int (vote_weight st (pn_root (fc_nodes st ! i))) = pn_weight (fc_nodes st ! i)"
proof -
  note n = tree_part_simps(2) [OF tp]
  have votes: "\<And>v x. hm_get (fc_latest_votes st) v = Some x \<Longrightarrow> known st x"
    using tp by (auto simp: tree_part_def fc_votes_inv_def)
  have "{v. \<exists>x. hm_get (fc_latest_votes st) v = Some x \<and>
      (x, pn_root (fc_nodes st ! i)) \<in> (tree_edges st)\<^sup>*} =
      support (fc_nodes st) (hm_get (fc_latest_votes st)) i"
    unfolding support_def using votes known_index [OF n] edges_star_iff [OF tp _ i] by blast
  then show ?thesis using arena_inv_weight [OF tree_part_simps(3) [OF tp] i] by (simp add: vote_weight_def)
qed

lemma heavier_iff_better:
  assumes tp: "tree_part st" and c: "c < length (fc_nodes st)" and d: "d < length (fc_nodes st)"
  shows "heavier st (pn_root (fc_nodes st ! c)) (pn_root (fc_nodes st ! d)) \<longleftrightarrow>
    better (fc_nodes st) c d"
  unfolding heavier_def better_def
  using vote_weight_eq [OF tp c] vote_weight_eq [OF tp d] by linarith

section \<open>Finding the head\<close>

definition descendants_of :: "proto_node list \<Rightarrow> nat \<Rightarrow> nat set" where
  "descendants_of ns i = {k. k < length ns \<and> descends ns k i}"

lemma card_descendants_child:
  assumes t: "tree_inv ns" and c: "c < length ns" "pn_parent (ns ! c) = Some i"
  shows "card (descendants_of ns c) < card (descendants_of ns i)"
proof (rule psubset_card_mono)
  show "finite (descendants_of ns i)" by (simp add: descendants_of_def)
  have "descends ns c i" using c by (simp add: descends_step)
  moreover have "\<not> descends ns i c"
    using descends_slot [OF t, of i c] tree_inv_parent [OF t c] by auto
  ultimately show "descendants_of ns c \<subset> descendants_of ns i"
    using tree_inv_parent [OF t c] descends_trans by (auto simp: descendants_of_def)
qed

lemma best_leaf_ghost:
  assumes tp: "tree_part st"
  shows "i < length (fc_nodes st) \<Longrightarrow> card (descendants_of (fc_nodes st) i) \<le> fuel \<Longrightarrow>
    \<exists>j < length (fc_nodes st). best_leaf fuel (fc_nodes st) i = Inr j \<and>
      ghost st (pn_root (fc_nodes st ! i)) (pn_root (fc_nodes st ! j))"
proof (induction fuel arbitrary: i)
  case 0
  have "i \<in> descendants_of (fc_nodes st) i" using 0 by (simp add: descendants_of_def)
  moreover have "finite (descendants_of (fc_nodes st) i)" by (simp add: descendants_of_def)
  ultimately show ?case using 0 by auto
next
  case (Suc fuel)
  note t = tree_part_simps(4) [OF tp]
  have best: "is_best (fc_nodes st) (children_set (fc_nodes st) i) (pn_best_child (fc_nodes st ! i))"
    using tree_part_simps(5) [OF tp] Suc.prems(1) by (simp add: best_inv_def)
  show ?case
  proof (cases "pn_best_child (fc_nodes st ! i)")
    case None
    then have "child_roots st (pn_root (fc_nodes st ! i)) = {}"
      using best by (simp add: child_roots_eq [OF tp Suc.prems(1)] is_best_def)
    then show ?thesis using Suc.prems(1) None by (auto simp: index_at_def intro: ghost.leaf)
  next
    case (Some c)
    then have c: "c < length (fc_nodes st)" "pn_parent (fc_nodes st ! c) = Some i"
      using best by (auto simp: is_best_def children_set_def)
    then have "card (descendants_of (fc_nodes st) c) \<le> fuel"
      using card_descendants_child [OF t c] Suc.prems(2) by simp
    from Suc.IH [OF c(1) this] obtain j where j: "j < length (fc_nodes st)"
        "best_leaf fuel (fc_nodes st) c = Inr j"
        "ghost st (pn_root (fc_nodes st ! c)) (pn_root (fc_nodes st ! j))" by blast
    have "ghost st (pn_root (fc_nodes st ! i)) (pn_root (fc_nodes st ! j))"
    proof (rule ghost.step [OF _ _ j(3)])
      show "pn_root (fc_nodes st ! c) \<in> child_roots st (pn_root (fc_nodes st ! i))"
        using c by (auto simp: child_roots_eq [OF tp Suc.prems(1)] children_set_def)
      show "d = pn_root (fc_nodes st ! c) \<or> heavier st (pn_root (fc_nodes st ! c)) d"
        if "d \<in> child_roots st (pn_root (fc_nodes st ! i))" for d
        using that best Some c(1)
        by (auto simp: child_roots_eq [OF tp Suc.prems(1)] is_best_def children_set_def
            heavier_iff_better [OF tp])
    qed
    then show ?thesis using Suc.prems(1) Some j(1,2) by (auto simp: index_at_def)
  qed
qed

lemma find_head_spec:
  assumes tp: "tree_part st"
  obtains h where "find_head st = Inr h"
    "if known st (cp_root (fc_latest_justified st))
     then ghost st (cp_root (fc_latest_justified st)) h \<and> known st h else h = fc_head st"
proof (cases "known st (cp_root (fc_latest_justified st))")
  case True
  note n = tree_part_simps(2) [OF tp]
  obtain i where i: "hm_get (fc_node_indices st) (cp_root (fc_latest_justified st)) = Some i"
      "i < length (fc_nodes st)" "pn_root (fc_nodes st ! i) = cp_root (fc_latest_justified st)"
    using known_index [OF n True] by blast
  have sub: "descendants_of (fc_nodes st) i \<subseteq> {..<length (fc_nodes st)}" by (auto simp: descendants_of_def)
  have "card (descendants_of (fc_nodes st) i) \<le> length (fc_nodes st)"
    using card_mono [OF finite_lessThan sub] by simp
  from best_leaf_ghost [OF tp i(2) this] obtain j where "j < length (fc_nodes st)"
      "best_leaf (length (fc_nodes st)) (fc_nodes st) i = Inr j"
      "ghost st (cp_root (fc_latest_justified st)) (pn_root (fc_nodes st ! j))" using i(3) by auto
  then show ?thesis
    using True i(1) node_known [OF n] that [of "pn_root (fc_nodes st ! j)"]
    by (simp add: find_head_def index_at_def)
next
  case False
  then show ?thesis
    using unknown_index [OF tree_part_simps(2) [OF tp]] that [of "fc_head st"] by (simp add: find_head_def)
qed

section \<open>Walks along the parents\<close>

definition depth :: "fork_choice_store \<Rightarrow> bytes32 \<Rightarrow> nat" where
  "depth st r = card {a. (r, a) \<in> (tree_edges st)\<^sup>*}"

lemma ancestor_roots_eq:
  assumes tp: "tree_part st" and i: "i < length (fc_nodes st)"
  shows "{a. (pn_root (fc_nodes st ! i), a) \<in> (tree_edges st)\<^sup>*} =
    (\<lambda>j. pn_root (fc_nodes st ! j)) ` ancestors_of (fc_nodes st) i"
proof -
  note n = tree_part_simps(2) [OF tp] and t = tree_part_simps(4) [OF tp]
  have "\<exists>j. a = pn_root (fc_nodes st ! j) \<and> descends (fc_nodes st) i j"
    if a: "(pn_root (fc_nodes st ! i), a) \<in> (tree_edges st)\<^sup>*" for a
  proof -
    have "known st a" using a node_known [OF n i] by (cases rule: rtranclE) (auto simp: tree_edges_def)
    then obtain j where "j < length (fc_nodes st)" "pn_root (fc_nodes st ! j) = a"
      using known_index [OF n] by metis
    then show ?thesis using a edges_star_iff [OF tp i] by blast
  qed
  then show ?thesis
    using edges_star_iff [OF tp i] descends_length [OF t _ i] by (auto simp: ancestors_of_def)
qed

lemma finite_ancestor_roots:
  assumes "tree_part st" "known st r"
  shows "finite {a. (r, a) \<in> (tree_edges st)\<^sup>*}"
proof -
  obtain i where i: "i < length (fc_nodes st)" "pn_root (fc_nodes st ! i) = r"
    using known_index [OF tree_part_simps(2) [OF assms(1)] assms(2)] by blast
  then show ?thesis
    using ancestor_roots_eq [OF assms(1) i(1)]
      finite_subset [OF ancestors_of_bound [OF tree_part_simps(4) [OF assms(1)] i(1)]] by simp
qed

lemma edges_acyclic:
  assumes "tree_part st" "(r, p) \<in> tree_edges st"
  shows "(p, r) \<notin> (tree_edges st)\<^sup>*"
proof
  assume cyc: "(p, r) \<in> (tree_edges st)\<^sup>*"
  note n = tree_part_simps(2) [OF assms(1)] and t = tree_part_simps(4) [OF assms(1)]
  have "known st r" using assms(2) by (simp add: tree_edges_def)
  then obtain i where i: "i < length (fc_nodes st)" "pn_root (fc_nodes st ! i) = r"
    using known_index [OF n] by metis
  then obtain j where j: "j < length (fc_nodes st)" "p = pn_root (fc_nodes st ! j)"
      "pn_parent (fc_nodes st ! i) = Some j"
    using edge_iff [OF assms(1) i(1)] assms(2) by blast
  then have "descends (fc_nodes st) j i" using edges_star_iff [OF assms(1) j(1) i(1)] cyc i(2) by simp
  then show False using descends_slot [OF t, of j i] tree_inv_parent [OF t i(1) j(3)] by auto
qed

lemma depth_parent:
  assumes tp: "tree_part st" and e: "(r, p) \<in> tree_edges st"
  shows "depth st p < depth st r"
  unfolding depth_def
proof (rule psubset_card_mono)
  show "finite {a. (r, a) \<in> (tree_edges st)\<^sup>*}"
    using e by (intro finite_ancestor_roots [OF tp]) (simp add: tree_edges_def)
  show "{a. (p, a) \<in> (tree_edges st)\<^sup>*} \<subset> {a. (r, a) \<in> (tree_edges st)\<^sup>*}"
    using edges_acyclic [OF tp e] converse_rtrancl_into_rtrancl [OF e] by auto
qed

lemma parents_length:
  assumes tp: "tree_part st"
  shows "length (fc_parents st) = length (fc_nodes st)"
proof -
  note m = tree_part_simps(1) [OF tp] and n = tree_part_simps(2) [OF tp] and t = tree_part_simps(4) [OF tp]
  have "set (map fst (fc_parents st)) = {r. known st r}"
    using m by (auto simp: maps_inv_def hm_contains_iff)
  also have "\<dots> = set (map pn_root (fc_nodes st))"
  proof
    show "{r. known st r} \<subseteq> set (map pn_root (fc_nodes st))"
    proof
      fix r assume "r \<in> {r. known st r}"
      then obtain i where "i < length (fc_nodes st)" "pn_root (fc_nodes st ! i) = r"
        using known_index [OF n, of r] by blast
      then show "r \<in> set (map pn_root (fc_nodes st))" using nth_mem by fastforce
    qed
    show "set (map pn_root (fc_nodes st)) \<subseteq> {r. known st r}"
    proof
      fix r assume "r \<in> set (map pn_root (fc_nodes st))"
      then obtain i where "i < length (fc_nodes st)" "r = pn_root (fc_nodes st ! i)"
        unfolding set_map using in_set_conv_nth by (metis imageE)
      then show "r \<in> {r. known st r}" using node_known [OF n] by simp
    qed
  qed
  finally show ?thesis
    using m t distinct_card [of "map fst (fc_parents st)"] distinct_card [of "map pn_root (fc_nodes st)"]
    by (simp add: maps_inv_def hm_wf_def tree_inv_def)
qed

lemma depth_bound:
  assumes tp: "tree_part st" and k: "known st r"
  shows "depth st r \<le> length (fc_parents st)"
proof -
  note n = tree_part_simps(2) [OF tp] and t = tree_part_simps(4) [OF tp]
  obtain i where i: "i < length (fc_nodes st)" "pn_root (fc_nodes st ! i) = r"
    using known_index [OF n k] by blast
  have sub: "ancestors_of (fc_nodes st) i \<subseteq> {..<length (fc_nodes st)}" using ancestors_of_bound [OF t i(1)] .
  have "depth st r \<le> card (ancestors_of (fc_nodes st) i)"
    using ancestor_roots_eq [OF tp i(1)] card_image_le [OF finite_subset [OF sub finite_lessThan]] i(2)
    by (simp add: depth_def)
  also have "\<dots> \<le> length (fc_nodes st)" using card_mono [OF finite_lessThan sub] by simp
  finally show ?thesis by (simp add: parents_length [OF tp])
qed

lemma depth_pos: "tree_part st \<Longrightarrow> known st r \<Longrightarrow> 0 < depth st r"
  using finite_ancestor_roots by (auto simp: depth_def card_gt_0_iff)

text \<open>The parent of a known block is known, and then one step of the walk, or it is not and
  the walk ends there.\<close>

lemma parent_cases:
  assumes tp: "tree_part st" and k: "known st r"
  obtains p where "hm_get (fc_parents st) r = Some p" "(r, p) \<in> tree_edges st" "p \<noteq> zero_root"
    "\<And>a. (r, a) \<in> (tree_edges st)\<^sup>* \<longleftrightarrow> a = r \<or> (p, a) \<in> (tree_edges st)\<^sup>*"
  | p where "hm_get (fc_parents st) r = Some p" "\<not> known st p" "hm_get (fc_parents st) p = None"
    "\<And>a. (r, a) \<in> (tree_edges st)\<^sup>* \<longleftrightarrow> a = r"
proof -
  note m = tree_part_simps(1) [OF tp]
  obtain p where p: "hm_get (fc_parents st) r = Some p" using k parents_known [OF m] by blast
  show ?thesis
  proof (cases "known st p")
    case True
    then have e: "(r, p) \<in> tree_edges st" using p k by (simp add: tree_edges_def)
    have "(r, a) \<in> (tree_edges st)\<^sup>* \<longleftrightarrow> a = r \<or> (p, a) \<in> (tree_edges st)\<^sup>*" for a
      using e p by (auto simp: tree_edges_def elim: converse_rtranclE intro: converse_rtrancl_into_rtrancl)
    then show ?thesis using that(1) [OF p e] True zero_unknown [OF m] by metis
  next
    case False
    have "(r, a) \<in> (tree_edges st)\<^sup>* \<longleftrightarrow> a = r" for a
      using p False by (auto simp: tree_edges_def elim: converse_rtranclE)
    then show ?thesis using that(2) [OF p False] False parents_known [OF m, of p] by blast
  qed
qed

lemma is_descendant_loop_spec:
  assumes tp: "tree_part st" and anc: "known st ancestor"
  shows "known st r \<Longrightarrow> depth st r \<le> fuel \<Longrightarrow> r \<noteq> ancestor \<Longrightarrow>
    is_descendant_loop fuel (fc_parents st) r ancestor = Inr ((r, ancestor) \<in> (tree_edges st)\<^sup>*)"
proof (induction fuel arbitrary: r)
  case 0
  then show ?case using depth_pos [OF tp, of r] by simp
next
  case (Suc fuel)
  show ?case
  proof (cases rule: parent_cases [OF tp Suc.prems(1)])
    case (1 p)
    have "depth st p \<le> fuel" using depth_parent [OF tp 1(2)] Suc.prems(2) by simp
    moreover have "known st p" using 1(2) by (simp add: tree_edges_def)
    ultimately show ?thesis using Suc.IH [of p] 1 Suc.prems(3) anc
      by (subst is_descendant_loop.simps) auto
  next
    case (2 p)
    then show ?thesis using Suc.prems(3) anc
      by (subst is_descendant_loop.simps) (auto simp: is_descendant_loop.simps [of fuel])
  qed
qed

lemma is_descendant_spec:
  assumes "tree_part st" "known st r" "known st ancestor"
  shows "is_descendant st r ancestor = Inr ((r, ancestor) \<in> (tree_edges st)\<^sup>*)"
  using is_descendant_loop_spec [OF assms(1,3,2) depth_bound [OF assms(1,2)]]
  by (auto simp: is_descendant_def)

lemma is_reorg_loop_spec:
  assumes tp: "tree_part st" and anc: "known st old_head"
  shows "known st r \<Longrightarrow> depth st r \<le> fuel \<Longrightarrow>
    is_reorg_loop fuel (fc_parents st) old_head r = Inr ((r, old_head) \<notin> (tree_edges st)\<^sup>*)"
proof (induction fuel arbitrary: r)
  case 0
  then show ?case using depth_pos [OF tp, of r] by simp
next
  case (Suc fuel)
  show ?case
  proof (cases rule: parent_cases [OF tp Suc.prems(1)])
    case (1 p)
    have "depth st p \<le> fuel" using depth_parent [OF tp 1(2)] Suc.prems(2) by simp
    moreover have "known st p" using 1(2) by (simp add: tree_edges_def)
    ultimately show ?thesis using Suc.IH [of p] 1 by (subst is_reorg_loop.simps) auto
  next
    case (2 p)
    then show ?thesis using anc
      by (subst is_reorg_loop.simps) (auto simp: is_reorg_loop.simps [of fuel])
  qed
qed

lemma head_change_is_reorg_spec:
  assumes "tree_part st" "known st old_head" "known st new_head"
  shows "head_change_is_reorg st old_head new_head = Inr ((new_head, old_head) \<notin> (tree_edges st)\<^sup>*)"
  using is_reorg_loop_spec [OF assms(1-3) depth_bound [OF assms(1,3)]]
  by (auto simp: head_change_is_reorg_def)

lemma normalize_loop_spec:
  assumes tp: "tree_part st" and k: "known st root"
  shows "known st r \<Longrightarrow> depth st r \<le> fuel \<Longrightarrow>
    normalize_loop fuel (fc_parents st) fin root r =
      Inr (if (r, root) \<in> (tree_edges st)\<^sup>* then Some fin else None)"
proof (induction fuel arbitrary: r)
  case 0
  then show ?case using depth_pos [OF tp, of r] by simp
next
  case (Suc fuel)
  show ?case
  proof (cases rule: parent_cases [OF tp Suc.prems(1)])
    case (1 p)
    have "depth st p \<le> fuel" using depth_parent [OF tp 1(2)] Suc.prems(2) by simp
    moreover have "known st p" using 1(2) by (simp add: tree_edges_def)
    ultimately show ?thesis using Suc.IH [of p] 1 by (subst normalize_loop.simps) auto
  next
    case (2 p)
    then show ?thesis using k
      by (subst normalize_loop.simps) (auto simp: normalize_loop.simps [of fuel])
  qed
qed

lemma justifiable_loop_total:
  assumes tp: "tree_part st"
  shows "known st r \<Longrightarrow> depth st r \<le> fuel \<Longrightarrow>
    \<exists>t. justifiable_loop fuel st finalized_slot r = Inr t \<and>
      (\<forall>x. t = Some x \<longrightarrow> (r, x) \<in> (tree_edges st)\<^sup>*)"
proof (induction fuel arbitrary: r)
  case 0
  then show ?case using depth_pos [OF tp, of r] by simp
next
  case (Suc fuel)
  obtain sb where sb: "hm_get (fc_blocks st) r = Some sb"
    using Suc.prems(1) by (auto simp: known_def hm_contains_def)
  show ?case
  proof (cases rule: parent_cases [OF tp Suc.prems(1)])
    case (1 p)
    have "depth st p \<le> fuel" using depth_parent [OF tp 1(2)] Suc.prems(2) by simp
    moreover have "known st p" using 1(2) by (simp add: tree_edges_def)
    ultimately show ?thesis using Suc.IH [of p] 1 sb
      by (subst justifiable_loop.simps) (auto split: sum.splits bool.splits)
  next
    case (2 p)
    have "justifiable_loop fuel st finalized_slot p = Inr None"
      using 2(2) by (subst justifiable_loop.simps) (simp add: known_def hm_contains_def)
    then show ?thesis using 2 sb by (subst justifiable_loop.simps) (auto split: sum.splits bool.splits)
  qed
qed

section \<open>Fields outside the tree\<close>

lemma frame_head [simp]:
  "known (st\<lparr>fc_head := x\<rparr>) = known st" "tree_part (st\<lparr>fc_head := x\<rparr>) = tree_part st"
  "tree_edges (st\<lparr>fc_head := x\<rparr>) = tree_edges st"
  "vote_weight (st\<lparr>fc_head := x\<rparr>) = vote_weight st"
  by (simp_all add: known_def tree_edges_def vote_weight_def tree_part_def maps_inv_def nodes_inv_def
      fc_votes_inv_def children_of_def fun_eq_iff)

lemma frame_safe_target [simp]:
  "known (st\<lparr>fc_safe_target := x\<rparr>) = known st" "tree_part (st\<lparr>fc_safe_target := x\<rparr>) = tree_part st"
  "tree_edges (st\<lparr>fc_safe_target := x\<rparr>) = tree_edges st"
  "vote_weight (st\<lparr>fc_safe_target := x\<rparr>) = vote_weight st"
  by (simp_all add: known_def tree_edges_def vote_weight_def tree_part_def maps_inv_def nodes_inv_def
      fc_votes_inv_def children_of_def fun_eq_iff)

lemma frame_head_slot [simp]:
  "known (st\<lparr>fc_head_slot := x\<rparr>) = known st" "tree_part (st\<lparr>fc_head_slot := x\<rparr>) = tree_part st"
  "tree_edges (st\<lparr>fc_head_slot := x\<rparr>) = tree_edges st"
  "vote_weight (st\<lparr>fc_head_slot := x\<rparr>) = vote_weight st"
  by (simp_all add: known_def tree_edges_def vote_weight_def tree_part_def maps_inv_def nodes_inv_def
      fc_votes_inv_def children_of_def fun_eq_iff)

lemma frame_latest_justified [simp]:
  "known (st\<lparr>fc_latest_justified := x\<rparr>) = known st" "tree_part (st\<lparr>fc_latest_justified := x\<rparr>) = tree_part st"
  "tree_edges (st\<lparr>fc_latest_justified := x\<rparr>) = tree_edges st"
  "vote_weight (st\<lparr>fc_latest_justified := x\<rparr>) = vote_weight st"
  by (simp_all add: known_def tree_edges_def vote_weight_def tree_part_def maps_inv_def nodes_inv_def
      fc_votes_inv_def children_of_def fun_eq_iff)

lemma frame_previous_justified [simp]:
  "known (st\<lparr>fc_previous_justified := x\<rparr>) = known st" "tree_part (st\<lparr>fc_previous_justified := x\<rparr>) = tree_part st"
  "tree_edges (st\<lparr>fc_previous_justified := x\<rparr>) = tree_edges st"
  "vote_weight (st\<lparr>fc_previous_justified := x\<rparr>) = vote_weight st"
  by (simp_all add: known_def tree_edges_def vote_weight_def tree_part_def maps_inv_def nodes_inv_def
      fc_votes_inv_def children_of_def fun_eq_iff)

lemma frame_latest_finalized [simp]:
  "known (st\<lparr>fc_latest_finalized := x\<rparr>) = known st" "tree_part (st\<lparr>fc_latest_finalized := x\<rparr>) = tree_part st"
  "tree_edges (st\<lparr>fc_latest_finalized := x\<rparr>) = tree_edges st"
  "vote_weight (st\<lparr>fc_latest_finalized := x\<rparr>) = vote_weight st"
  by (simp_all add: known_def tree_edges_def vote_weight_def tree_part_def maps_inv_def nodes_inv_def
      fc_votes_inv_def children_of_def fun_eq_iff)

lemma frame_reorgs_total [simp]:
  "known (st\<lparr>fc_reorgs_total := x\<rparr>) = known st" "tree_part (st\<lparr>fc_reorgs_total := x\<rparr>) = tree_part st"
  "tree_edges (st\<lparr>fc_reorgs_total := x\<rparr>) = tree_edges st"
  "vote_weight (st\<lparr>fc_reorgs_total := x\<rparr>) = vote_weight st"
  by (simp_all add: known_def tree_edges_def vote_weight_def tree_part_def maps_inv_def nodes_inv_def
      fc_votes_inv_def children_of_def fun_eq_iff)

section \<open>The safe target\<close>

definition slot_of :: "fork_choice_store \<Rightarrow> bytes32 \<Rightarrow> u64" where
  "slot_of st r = (case hm_get (fc_blocks st) r of None \<Rightarrow> 0 | Some sb \<Rightarrow> b_slot (block_of sb))"

text \<open>A block that two thirds of the validators support, at or below the anchor.\<close>

definition safe_candidate :: "fork_choice_store \<Rightarrow> bytes32 \<Rightarrow> bytes32 \<Rightarrow> bool" where
  "safe_candidate st anchor r \<longleftrightarrow> known st r \<and> (r, anchor) \<in> (tree_edges st)\<^sup>* \<and>
     2 * fc_validator_count st \<le> 3 * vote_weight st r"

definition preferred :: "fork_choice_store \<Rightarrow> bytes32 \<Rightarrow> bytes32 \<Rightarrow> bool" where
  "preferred st r q \<longleftrightarrow> slot_of st r > slot_of st q \<or> (slot_of st r = slot_of st q \<and> r < q)"

definition most_preferred :: "fork_choice_store \<Rightarrow> bytes32 set \<Rightarrow> bytes32 \<Rightarrow> bool" where
  "most_preferred st C b \<longleftrightarrow> b \<in> C \<and> (\<forall>x \<in> C. x = b \<or> preferred st b x)"

lemma preferred_trans: "preferred st a b \<Longrightarrow> preferred st b c \<Longrightarrow> preferred st a c"
  by (auto simp: preferred_def)

lemma preferred_total: "a = b \<or> preferred st a b \<or> preferred st b a"
  by (auto simp: preferred_def not_less_iff_gr_or_eq)

lemma most_preferred_unique: "most_preferred st C a \<Longrightarrow> most_preferred st C b \<Longrightarrow> a = b"
  unfolding most_preferred_def preferred_def by (metis less_asym less_irrefl)

lemma subtree_weight_eq:
  assumes tp: "tree_part st" and k: "known st r"
  shows "subtree_weight st r = vote_weight st r"
proof -
  obtain i where "hm_get (fc_node_indices st) r = Some i" "i < length (fc_nodes st)"
      "pn_root (fc_nodes st ! i) = r"
    using known_index [OF tree_part_simps(2) [OF tp] k] by blast
  then show ?thesis using vote_weight_eq [OF tp, of i] by (simp add: subtree_weight_def)
qed

lemma safe_target_loop_spec:
  assumes tp: "tree_part st" and a: "known st anchor"
  shows "\<forall>(r, sb) \<in> set xs. hm_get (fc_blocks st) r = Some sb \<Longrightarrow>
    \<exists>b. safe_target_loop st anchor xs best (slot_of st best) = Inr b \<and>
      most_preferred st (insert best {r \<in> fst ` set xs. safe_candidate st anchor r}) b"
proof (induction xs arbitrary: best)
  case Nil
  then show ?case by (simp add: most_preferred_def)
next
  case (Cons x xs)
  obtain r sb where x: "x = (r, sb)" by (cases x)
  then have blk: "hm_get (fc_blocks st) r = Some sb" and k: "known st r"
    using Cons.prems by (auto simp: known_def hm_contains_def)
  let ?C = "{r \<in> fst ` set xs. safe_candidate st anchor r}"
  let ?best = "if safe_candidate st anchor r \<and> preferred st r best then r else best"
  have "\<forall>(r, sb) \<in> set xs. hm_get (fc_blocks st) r = Some sb" using Cons.prems by simp
  from Cons.IH [OF this, of ?best] obtain b
    where b: "safe_target_loop st anchor xs ?best (slot_of st ?best) = Inr b"
      "most_preferred st (insert ?best ?C) b" by blast
  have slot: "slot_of st r = b_slot (block_of sb)" using blk by (simp add: slot_of_def)
  have "safe_target_loop st anchor (x # xs) best (slot_of st best) = Inr b"
    using b(1) slot unfolding x
    by (auto simp: is_descendant_spec [OF tp k a] subtree_weight_eq [OF tp k] safe_candidate_def k
        preferred_def Let_def split: if_splits)
  moreover have "most_preferred st (insert best {r \<in> fst ` set (x # xs). safe_candidate st anchor r}) b"
  proof -
    have "y = b \<or> preferred st b y" if "y = best \<or> (y = r \<and> safe_candidate st anchor r)" for y
    proof -
      obtain z where z: "z = ?best" by blast
      have "y = z \<or> preferred st z y" using that preferred_total [of r best st] z by auto
      moreover have "z = b \<or> preferred st b z" using b(2) z by (auto simp: most_preferred_def)
      ultimately show ?thesis using preferred_trans [of st b z y] by blast
    qed
    then show ?thesis using b(2) x by (auto simp: most_preferred_def split: if_splits)
  qed
  ultimately show ?case by blast
qed

definition is_safe_target :: "fork_choice_store \<Rightarrow> bytes32 \<Rightarrow> bool" where
  "is_safe_target st b \<longleftrightarrow>
     (if fc_validator_count st = 0 then b = fc_head st
      else most_preferred st (insert (safe_anchor st) {r. safe_candidate st (safe_anchor st) r}) b)"

lemma safe_anchor_known: "known st (fc_head st) \<Longrightarrow> known st (safe_anchor st)"
  by (simp add: safe_anchor_def known_def Let_def)

lemma refresh_safe_target_spec:
  assumes tp: "tree_part st" and h: "known st (fc_head st)"
  obtains b where "refresh_safe_target st = Inr (st\<lparr>fc_safe_target := b\<rparr>)" "is_safe_target st b" "known st b"
proof (cases "fc_validator_count st = 0")
  case True
  then show ?thesis using h that [of "fc_head st"] by (simp add: refresh_safe_target_def is_safe_target_def)
next
  case False
  note a = safe_anchor_known [OF h]
  then have slot: "(case hm_get (fc_blocks st) (safe_anchor st) of None \<Rightarrow> fc_head_slot st
      | Some sb \<Rightarrow> b_slot (block_of sb)) = slot_of st (safe_anchor st)"
    by (auto simp: slot_of_def known_def hm_contains_def)
  have "\<forall>(r, sb) \<in> set (fc_blocks st). hm_get (fc_blocks st) r = Some sb"
    using tree_part_simps(1) [OF tp] by (auto simp: maps_inv_def hm_wf_def)
  from safe_target_loop_spec [OF tp a this, of "safe_anchor st"] obtain b where b:
    "safe_target_loop st (safe_anchor st) (fc_blocks st) (safe_anchor st) (slot_of st (safe_anchor st)) = Inr b"
    "most_preferred st (insert (safe_anchor st)
       {r \<in> fst ` set (fc_blocks st). safe_candidate st (safe_anchor st) r}) b" by blast
  have "{r \<in> fst ` set (fc_blocks st). safe_candidate st (safe_anchor st) r} =
      {r. safe_candidate st (safe_anchor st) r}"
    by (auto simp: safe_candidate_def known_def hm_contains_iff)
  then have "is_safe_target st b" using b(2) False by (simp add: is_safe_target_def)
  moreover have "known st b" using b(2) a by (auto simp: most_preferred_def safe_candidate_def)
  ultimately show ?thesis using b(1) False slot
    by (intro that) (simp_all add: refresh_safe_target_def Let_def)
qed

end
