(* ===== verification/Prune.thy ===== *)
theory Prune
  imports ForkChoiceHead
begin

text \<open>
  Pruning below the finalized block. The theory shows that \<^verbatim>\<open>prune_finalized_history\<close> keeps
  exactly the descendants of the finalized block, rebuilds maps and arena that satisfy the
  invariant again, moves votes for its ancestors to it and drops the votes for abandoned
  branches.
\<close>

section \<open>The kept roots\<close>

definition descendant_roots :: "fork_choice_store \<Rightarrow> bytes32 \<Rightarrow> bytes32 set" where
  "descendant_roots st F = {r. known st r \<and> (r, F) \<in> (tree_edges st)\<^sup>*}"

lemma child_edge:
  assumes "tree_part st" "known st r" "c \<in> children_of st r"
  shows "(c, r) \<in> tree_edges st"
  using child_parent [OF tree_part_simps(1) [OF assms(1)] assms(3)]
    parents_known [OF tree_part_simps(1) [OF assms(1)], of c] assms(2)
  by (simp add: tree_edges_def)

lemma edge_child:
  assumes "tree_part st" "(c, r) \<in> tree_edges st"
  shows "c \<in> children_of st r"
  using assms parent_child [OF tree_part_simps(1) [OF assms(1)], of c r]
    zero_unknown [OF tree_part_simps(1) [OF assms(1)]] by (auto simp: tree_edges_def)

lemma descendant_child:
  assumes "tree_part st" "r \<in> descendant_roots st F" "c \<in> children_of st r"
  shows "c \<in> descendant_roots st F"
proof -
  have "(c, r) \<in> tree_edges st" using child_edge assms by (auto simp: descendant_roots_def)
  then show ?thesis
    using assms(2) by (auto simp: descendant_roots_def tree_edges_def
        intro: converse_rtrancl_into_rtrancl [of c r])
qed

lemma set_filter_children:
  assumes "tree_part st" "hm_get (fc_children st) r = Some cs"
  shows "set (filter (hm_contains (fc_blocks st)) cs) = children_of st r"
proof -
  have "children_of st r = set cs" using assms(2) by (simp add: children_of_def)
  moreover have "hm_contains (fc_blocks st) c" if "c \<in> children_of st r" for c
    using child_parent [OF tree_part_simps(1) [OF assms(1)] that]
      parents_known [OF tree_part_simps(1) [OF assms(1)], of c] by (simp add: known_def)
  ultimately show ?thesis by auto
qed

lemma kept_loop_spec:
  assumes tp: "tree_part st"
  shows "set kept \<union> set stack \<subseteq> descendant_roots st F \<Longrightarrow>
    (\<And>k. k \<in> set kept \<Longrightarrow> children_of st k \<subseteq> set kept \<union> set stack) \<Longrightarrow>
    (let K = set (kept_loop (fc_blocks st) (fc_children st) kept stack) in
     set kept \<union> set stack \<subseteq> K \<and> K \<subseteq> descendant_roots st F \<and> (\<forall>k \<in> K. children_of st k \<subseteq> K))"
proof (induction "fc_blocks st" "fc_children st" kept stack rule: kept_loop.induct)
  case (1 kept)
  then show ?case by (simp add: Let_def)
next
  case (2 kept root stack)
  show ?case
  proof (cases "root \<in> set kept")
    case True
    then have "insert root (set kept \<union> set stack) = set kept \<union> set stack" by blast
    then show ?thesis using 2(1) [OF True] "2.prems" True by (simp add: Let_def)
  next
    case False
    show ?thesis
    proof (cases "hm_get (fc_children st) root")
      case None
      then have "children_of st root = {}" by (simp add: children_of_def)
      then show ?thesis using 2(2) [OF False None] "2.prems" False None
        by (simp add: Let_def) blast
    next
      case (Some cs)
      have cs: "set (filter (hm_contains (fc_blocks st)) cs) = children_of st root"
        using set_filter_children [OF tp Some] .
      have "children_of st root \<subseteq> descendant_roots st F"
        using descendant_child [OF tp] "2.prems"(1) by auto
      then show ?thesis using 2(3) [OF False Some] "2.prems" False Some
        unfolding kept_loop.simps set_append set_rev cs by (simp add: cs Let_def) blast
    qed
  qed
qed

lemma kept_roots_eq:
  assumes tp: "tree_part st" and F: "known st F"
  shows "set (kept_loop (fc_blocks st) (fc_children st) [] [F]) = descendant_roots st F"
proof -
  let ?K = "set (kept_loop (fc_blocks st) (fc_children st) [] [F])"
  have K: "F \<in> ?K" "?K \<subseteq> descendant_roots st F" "\<And>k. k \<in> ?K \<Longrightarrow> children_of st k \<subseteq> ?K"
    using kept_loop_spec [OF tp, of "[]" "[F]" F] F by (auto simp: Let_def descendant_roots_def)
  have "r \<in> ?K" if "(r, F) \<in> (tree_edges st)\<^sup>*" for r
    using that
  proof (induction rule: converse_rtrancl_induct)
    case (step r p)
    then show ?case using K(3) edge_child [OF tp] by blast
  qed (rule K(1))
  then show ?thesis using K(2) by (auto simp: descendant_roots_def)
qed

section \<open>Rebuilding the arena\<close>

abbreviation rb_dom :: "rebuilt \<Rightarrow> bytes32 set" where
  "rb_dom rb \<equiv> dom (hm_get (rb_node_indices rb))"

definition rb_children_of :: "rebuilt \<Rightarrow> bytes32 \<Rightarrow> bytes32 set" where
  "rb_children_of rb p = (case hm_get (rb_children rb) p of None \<Rightarrow> {} | Some rs \<Rightarrow> set rs)"

definition rb_nodes_ok :: "fork_choice_store \<Rightarrow> bytes32 \<Rightarrow> rebuilt \<Rightarrow> bool" where
  "rb_nodes_ok st F rb \<longleftrightarrow> tree_inv (rb_nodes rb) \<and>
     (\<forall>i < length (rb_nodes rb). pn_weight (rb_nodes rb ! i) = 0) \<and>
     (\<forall>r i. hm_get (rb_node_indices rb) r = Some i \<longleftrightarrow>
        i < length (rb_nodes rb) \<and> pn_root (rb_nodes rb ! i) = r) \<and>
     (\<forall>i < length (rb_nodes rb). \<forall>sb. hm_get (fc_blocks st) (pn_root (rb_nodes rb ! i)) = Some sb \<longrightarrow>
        pn_slot (rb_nodes rb ! i) = b_slot (block_of sb) \<and>
        pn_proposer_index (rb_nodes rb ! i) = b_proposer_index (block_of sb)) \<and>
     (\<forall>i < length (rb_nodes rb). if pn_root (rb_nodes rb ! i) = F then pn_parent (rb_nodes rb ! i) = None
        else \<exists>p < length (rb_nodes rb). pn_parent (rb_nodes rb ! i) = Some p \<and>
          hm_get (fc_parents st) (pn_root (rb_nodes rb ! i)) = Some (pn_root (rb_nodes rb ! p)))"

definition rb_maps_ok :: "fork_choice_store \<Rightarrow> bytes32 \<Rightarrow> rebuilt \<Rightarrow> bool" where
  "rb_maps_ok st F rb \<longleftrightarrow> rb_dom rb \<subseteq> descendant_roots st F \<and>
     hm_wf (rb_blocks rb) \<and> hm_wf (rb_parents rb) \<and>
     hm_get (rb_blocks rb) = hm_get (fc_blocks st) |` rb_dom rb \<and>
     hm_get (rb_states rb) = hm_get (fc_states st) |` rb_dom rb \<and>
     hm_get (rb_parents rb) = ((hm_get (fc_parents st))(F \<mapsto> zero_root)) |` rb_dom rb \<and>
     (\<forall>p. rb_children_of rb p = {r \<in> rb_dom rb - {F}. hm_get (fc_parents st) r = Some p})"

definition stack_ok ::
    "fork_choice_store \<Rightarrow> bytes32 \<Rightarrow> rebuilt \<Rightarrow> (bytes32 \<times> nat option) list \<Rightarrow> bool" where
  "stack_ok st F rb stack \<longleftrightarrow>
     (\<forall>(r, pi) \<in> set stack. r \<in> descendant_roots st F \<and>
        (case pi of None \<Rightarrow> r = F
         | Some p \<Rightarrow> r \<noteq> F \<and> p < length (rb_nodes rb) \<and>
             hm_get (fc_parents st) r = Some (pn_root (rb_nodes rb ! p))))"

lemma rebuild_add_None:
  "rebuild_add rb r None sb s = Inr (rb
     \<lparr>rb_node_indices := hm_insert r (length (rb_nodes rb)) (rb_node_indices rb),
      rb_blocks := hm_insert r sb (rb_blocks rb), rb_states := hm_insert r s (rb_states rb),
      rb_nodes := rb_nodes rb @ [new_node r None (b_slot (block_of sb)) (b_proposer_index (block_of sb))],
      rb_parents := hm_insert r zero_root (rb_parents rb)\<rparr>)"
  by (simp add: rebuild_add_def Let_def)

lemma rebuild_add_Some:
  assumes "p < length (rb_nodes rb)"
  shows "rebuild_add rb r (Some p) sb s = Inr (rb
     \<lparr>rb_node_indices := hm_insert r (length (rb_nodes rb)) (rb_node_indices rb),
      rb_blocks := hm_insert r sb (rb_blocks rb), rb_states := hm_insert r s (rb_states rb),
      rb_nodes := link (rb_nodes rb @ [new_node r None (b_slot (block_of sb))
        (b_proposer_index (block_of sb))]) p (length (rb_nodes rb)),
      rb_parents := hm_insert r (pn_root (rb_nodes rb ! p)) (rb_parents rb),
      rb_children := push_child (pn_root (rb_nodes rb ! p)) r (rb_children rb)\<rparr>)"
  using assms
  by (simp add: rebuild_add_def Let_def index_at_def link_def nth_append list_update_append new_node_def)

lemma edge_slot:
  assumes tp: "tree_part st" and e: "(r, p) \<in> tree_edges st"
    and r: "hm_get (fc_blocks st) r = Some sb" and p: "hm_get (fc_blocks st) p = Some psb"
  shows "b_slot (block_of psb) < b_slot (block_of sb)"
proof -
  note n = tree_part_simps(2) [OF tp] and t = tree_part_simps(4) [OF tp]
  have "known st r" using e by (simp add: tree_edges_def)
  then obtain i where i: "i < length (fc_nodes st)" "pn_root (fc_nodes st ! i) = r"
    using known_index [OF n] by metis
  then obtain j where j: "j < length (fc_nodes st)" "p = pn_root (fc_nodes st ! j)"
      "pn_parent (fc_nodes st ! i) = Some j"
    using edge_iff [OF tp i(1)] e by blast
  show ?thesis
    using tree_inv_parent [OF t i(1) j(3)] node_block [OF n i(1), of sb] node_block [OF n j(1), of psb] i j r p
    by simp
qed

text \<open>The arena after one block was added, with its parent link or as the root.\<close>

definition extended ::
    "proto_node list \<Rightarrow> bytes32 \<Rightarrow> nat option \<Rightarrow> block \<Rightarrow> proto_node list \<Rightarrow> bool" where
  "extended ns r pi b ns' \<longleftrightarrow> tree_inv ns' \<and> length ns' = Suc (length ns) \<and>
     (\<forall>i < length ns. pn_root (ns' ! i) = pn_root (ns ! i) \<and> pn_slot (ns' ! i) = pn_slot (ns ! i) \<and>
        pn_proposer_index (ns' ! i) = pn_proposer_index (ns ! i) \<and>
        pn_weight (ns' ! i) = pn_weight (ns ! i) \<and> pn_parent (ns' ! i) = pn_parent (ns ! i)) \<and>
     pn_root (ns' ! length ns) = r \<and> pn_slot (ns' ! length ns) = b_slot b \<and>
     pn_proposer_index (ns' ! length ns) = b_proposer_index b \<and>
     pn_weight (ns' ! length ns) = 0 \<and> pn_parent (ns' ! length ns) = pi"

lemma extended_append:
  assumes "tree_inv ns" "r \<notin> pn_root ` set ns"
  shows "extended ns r None b (ns @ [new_node r None (b_slot b) (b_proposer_index b)])"
  using tree_inv_append [OF assms] by (simp add: extended_def nth_append)

lemma extended_link:
  assumes t: "tree_inv ns" and r: "r \<notin> pn_root ` set ns" and p: "p < length ns"
    and lt: "pn_slot (ns ! p) < b_slot b"
  shows "extended ns r (Some p) b
    (link (ns @ [new_node r None (b_slot b) (b_proposer_index b)]) p (length ns))"
proof -
  let ?ns = "ns @ [new_node r None (b_slot b) (b_proposer_index b)]"
  have c: "length ns < length ?ns" "pn_parent (?ns ! length ns) = None" "p < length ?ns"
      "pn_slot (?ns ! p) < pn_slot (?ns ! length ns)"
    using p lt by (simp_all add: nth_append)
  have "tree_inv (link ?ns p (length ns))" using link_tree_inv [OF tree_inv_append [OF t r] c] .
  then show ?thesis
    using p link_nth [OF c(1,3)] by (auto simp: extended_def nth_append)
qed

lemma rb_nodes_ok_extend:
  assumes ok: "rb_nodes_ok st F rb" and ext: "extended (rb_nodes rb) r pi (block_of sb) ns'"
    and sb: "hm_get (fc_blocks st) r = Some sb" and fresh: "r \<notin> rb_dom rb"
    and pi: "case pi of None \<Rightarrow> r = F | Some p \<Rightarrow> r \<noteq> F \<and> p < length (rb_nodes rb) \<and>
      hm_get (fc_parents st) r = Some (pn_root (rb_nodes rb ! p))"
    and rb': "rb_nodes rb' = ns'"
      "rb_node_indices rb' = hm_insert r (length (rb_nodes rb)) (rb_node_indices rb)"
  shows "rb_nodes_ok st F rb'"
proof -
  let ?ns = "rb_nodes rb" let ?n = "length (rb_nodes rb)"
  have ix: "\<And>r i. hm_get (rb_node_indices rb) r = Some i \<longleftrightarrow> i < ?n \<and> pn_root (?ns ! i) = r"
    using ok by (auto simp: rb_nodes_ok_def)
  have old: "pn_root (?ns ! i) \<noteq> r" if "i < ?n" for i
    using fresh ix [of r i] that by auto
  have e: "length ns' = Suc ?n" "\<And>i. i < ?n \<Longrightarrow> pn_root (ns' ! i) = pn_root (?ns ! i) \<and>
        pn_slot (ns' ! i) = pn_slot (?ns ! i) \<and> pn_proposer_index (ns' ! i) = pn_proposer_index (?ns ! i) \<and>
        pn_weight (ns' ! i) = pn_weight (?ns ! i) \<and> pn_parent (ns' ! i) = pn_parent (?ns ! i)"
      "pn_root (ns' ! ?n) = r" "pn_slot (ns' ! ?n) = b_slot (block_of sb)"
      "pn_proposer_index (ns' ! ?n) = b_proposer_index (block_of sb)"
      "pn_weight (ns' ! ?n) = 0" "pn_parent (ns' ! ?n) = pi" "tree_inv ns'"
    using ext by (auto simp: extended_def)
  have okp: "if pn_root (?ns ! i) = F then pn_parent (?ns ! i) = None
      else \<exists>p < ?n. pn_parent (?ns ! i) = Some p \<and>
        hm_get (fc_parents st) (pn_root (?ns ! i)) = Some (pn_root (?ns ! p))" if "i < ?n" for i
    using ok that unfolding rb_nodes_ok_def by blast
  have split: "P i" if "i < length ns'" "\<And>i. i < ?n \<Longrightarrow> P i" "P ?n" for P i
    using that e(1) by (cases "i = ?n") auto
  show ?thesis unfolding rb_nodes_ok_def rb'
  proof (intro conjI allI impI)
    fix q i
    show "(hm_get (hm_insert r ?n (rb_node_indices rb)) q = Some i) = (i < length ns' \<and> pn_root (ns' ! i) = q)"
      using e(1-3) ix [of q i] old [of i] by (auto simp: less_Suc_eq)
  next
    fix i assume "i < length ns'"
    then show "pn_weight (ns' ! i) = 0"
      by (rule split) (use ok e(2,6) in \<open>auto simp: rb_nodes_ok_def\<close>)
  next
    fix i x assume i: "i < length ns'" and x: "hm_get (fc_blocks st) (pn_root (ns' ! i)) = Some x"
    have "hm_get (fc_blocks st) (pn_root (ns' ! i)) = Some x \<longrightarrow> pn_slot (ns' ! i) = b_slot (block_of x) \<and>
        pn_proposer_index (ns' ! i) = b_proposer_index (block_of x)"
      by (rule split [OF i]) (use ok e(2-5) sb in \<open>auto simp: rb_nodes_ok_def\<close>)
    then show "pn_slot (ns' ! i) = b_slot (block_of x)" "pn_proposer_index (ns' ! i) = b_proposer_index (block_of x)"
      using x by auto
  next
    fix i assume i: "i < length ns'"
    show "if pn_root (ns' ! i) = F then pn_parent (ns' ! i) = None
        else \<exists>p < length ns'. pn_parent (ns' ! i) = Some p \<and>
          hm_get (fc_parents st) (pn_root (ns' ! i)) = Some (pn_root (ns' ! p))"
    proof (rule split [OF i])
      fix i assume "i < ?n"
      then show "if pn_root (ns' ! i) = F then pn_parent (ns' ! i) = None
          else \<exists>p < length ns'. pn_parent (ns' ! i) = Some p \<and>
            hm_get (fc_parents st) (pn_root (ns' ! i)) = Some (pn_root (ns' ! p))"
        using okp [of i] e(1,2) by (auto simp: less_Suc_eq split: if_splits)
    next
      show "if pn_root (ns' ! ?n) = F then pn_parent (ns' ! ?n) = None
          else \<exists>p < length ns'. pn_parent (ns' ! ?n) = Some p \<and>
            hm_get (fc_parents st) (pn_root (ns' ! ?n)) = Some (pn_root (ns' ! p))"
        using pi e(1,2,3,7) by (auto split: option.splits)
    qed
  qed (rule e(8))
qed

lemma rb_maps_ok_extend:
  assumes ok: "rb_maps_ok st F rb" and r: "r \<in> descendant_roots st F" "r \<notin> rb_dom rb"
    and sb: "hm_get (fc_blocks st) r = Some sb" and s: "hm_get (fc_states st) r = Some s"
    and par: "if r = F then P = zero_root else hm_get (fc_parents st) r = Some P"
    and rb': "rb_node_indices rb' = hm_insert r i (rb_node_indices rb)"
      "rb_blocks rb' = hm_insert r sb (rb_blocks rb)" "rb_states rb' = hm_insert r s (rb_states rb)"
      "rb_parents rb' = hm_insert r P (rb_parents rb)"
      "rb_children rb' = (if r = F then rb_children rb else push_child P r (rb_children rb))"
  shows "rb_maps_ok st F rb'"
proof -
  have d: "rb_dom rb' = insert r (rb_dom rb)" by (simp add: rb'(1))
  have sub: "rb_dom rb' \<subseteq> descendant_roots st F" using ok r unfolding d by (simp add: rb_maps_ok_def)
  have wf: "hm_wf (rb_blocks rb')" "hm_wf (rb_parents rb')"
    using ok unfolding rb' by (simp_all add: rb_maps_ok_def)
  have "hm_get (rb_blocks rb') = hm_get (fc_blocks st) |` rb_dom rb'"
      "hm_get (rb_states rb') = hm_get (fc_states st) |` rb_dom rb'"
      "hm_get (rb_parents rb') = ((hm_get (fc_parents st))(F \<mapsto> zero_root)) |` rb_dom rb'"
    using ok sb s par unfolding d rb'
    by (auto simp: rb_maps_ok_def restrict_map_def fun_eq_iff split: if_splits)
  moreover have "rb_children_of rb' p = {x \<in> rb_dom rb' - {F}. hm_get (fc_parents st) x = Some p}" for p
  proof (cases "r = F")
    case True
    then show ?thesis using ok unfolding d by (auto simp: rb_maps_ok_def rb_children_of_def rb'(5))
  next
    case False
    then have "rb_children_of rb' p = rb_children_of rb p \<union> (if p = P then {r} else {})"
      by (auto simp: rb_children_of_def rb'(5) push_child_def split: option.splits)
    then show ?thesis using ok par False unfolding d by (auto simp: rb_maps_ok_def)
  qed
  ultimately show ?thesis using sub wf by (simp add: rb_maps_ok_def)
qed

text \<open>One block from the top of the stack.\<close>

lemma rebuild_add_spec:
  assumes tp: "tree_part st" and nok: "rb_nodes_ok st F rb" and mok: "rb_maps_ok st F rb"
    and r: "r \<in> descendant_roots st F" "r \<notin> rb_dom rb"
    and sb: "hm_get (fc_blocks st) r = Some sb" and s: "hm_get (fc_states st) r = Some s"
    and pi: "case pi of None \<Rightarrow> r = F | Some p \<Rightarrow> r \<noteq> F \<and> p < length (rb_nodes rb) \<and>
      hm_get (fc_parents st) r = Some (pn_root (rb_nodes rb ! p))"
  obtains rb' where "rebuild_add rb r pi sb s = Inr rb'" "rb_nodes_ok st F rb'" "rb_maps_ok st F rb'"
    "extended (rb_nodes rb) r pi (block_of sb) (rb_nodes rb')" "rb_dom rb' = insert r (rb_dom rb)"
proof -
  have t: "tree_inv (rb_nodes rb)" using nok by (simp add: rb_nodes_ok_def)
  have ix: "hm_get (rb_node_indices rb) q = Some i \<longleftrightarrow> i < length (rb_nodes rb) \<and> pn_root (rb_nodes rb ! i) = q"
    for q i using nok by (auto simp: rb_nodes_ok_def)
  have fresh: "r \<notin> pn_root ` set (rb_nodes rb)"
  proof
    assume "r \<in> pn_root ` set (rb_nodes rb)"
    then obtain i where "i < length (rb_nodes rb)" "pn_root (rb_nodes rb ! i) = r"
      by (metis imageE in_set_conv_nth)
    then have "hm_get (rb_node_indices rb) r = Some i" using ix by simp
    then show False using r(2) by blast
  qed
  show ?thesis
  proof (cases pi)
    case None
    let ?rb = "rb\<lparr>rb_node_indices := hm_insert r (length (rb_nodes rb)) (rb_node_indices rb),
      rb_blocks := hm_insert r sb (rb_blocks rb), rb_states := hm_insert r s (rb_states rb),
      rb_nodes := rb_nodes rb @ [new_node r None (b_slot (block_of sb)) (b_proposer_index (block_of sb))],
      rb_parents := hm_insert r zero_root (rb_parents rb)\<rparr>"
    have ext: "extended (rb_nodes rb) r pi (block_of sb) (rb_nodes ?rb)"
      using extended_append [OF t fresh] None by simp
    show ?thesis
    proof (rule that [of ?rb])
      show "rb_nodes_ok st F ?rb" by (rule rb_nodes_ok_extend [OF nok ext sb r(2) pi]) simp_all
      show "rb_maps_ok st F ?rb"
        by (rule rb_maps_ok_extend [OF mok r sb s, where P = zero_root]) (use pi None in simp_all)
    qed (use None ext in \<open>simp_all add: rebuild_add_None\<close>)
  next
    case (Some p)
    then have p: "r \<noteq> F" "p < length (rb_nodes rb)" "hm_get (fc_parents st) r = Some (pn_root (rb_nodes rb ! p))"
      using pi by auto
    have "pn_root (rb_nodes rb ! p) \<in> rb_dom rb" using ix p(2) by blast
    then have kp: "known st (pn_root (rb_nodes rb ! p))"
      using mok by (auto simp: rb_maps_ok_def descendant_roots_def)
    then obtain psb where psb: "hm_get (fc_blocks st) (pn_root (rb_nodes rb ! p)) = Some psb"
      by (auto simp: known_def hm_contains_def)
    have "(r, pn_root (rb_nodes rb ! p)) \<in> tree_edges st"
      using r(1) kp p(3) by (simp add: tree_edges_def descendant_roots_def)
    then have "pn_slot (rb_nodes rb ! p) < b_slot (block_of sb)"
      using edge_slot [OF tp _ sb psb] nok p(2) psb by (auto simp: rb_nodes_ok_def)
    note ext = extended_link [OF t fresh p(2) this]
    let ?rb = "rb\<lparr>rb_node_indices := hm_insert r (length (rb_nodes rb)) (rb_node_indices rb),
      rb_blocks := hm_insert r sb (rb_blocks rb), rb_states := hm_insert r s (rb_states rb),
      rb_nodes := link (rb_nodes rb @ [new_node r None (b_slot (block_of sb))
        (b_proposer_index (block_of sb))]) p (length (rb_nodes rb)),
      rb_parents := hm_insert r (pn_root (rb_nodes rb ! p)) (rb_parents rb),
      rb_children := push_child (pn_root (rb_nodes rb ! p)) r (rb_children rb)\<rparr>"
    show ?thesis
    proof (rule that [of ?rb])
      show ext': "extended (rb_nodes rb) r pi (block_of sb) (rb_nodes ?rb)" using ext Some by simp
      show "rb_nodes_ok st F ?rb" by (rule rb_nodes_ok_extend [OF nok ext' sb r(2) pi]) simp_all
      show "rb_maps_ok st F ?rb"
        by (rule rb_maps_ok_extend [OF mok r sb s, where P = "pn_root (rb_nodes rb ! p)"])
          (use p in simp_all)
    qed (use Some p(2) in \<open>simp_all add: rebuild_add_Some\<close>)
  qed
qed

lemma stack_ok_extended:
  assumes "stack_ok st F rb stack" "extended (rb_nodes rb) r pi b (rb_nodes rb')"
  shows "stack_ok st F rb' stack"
  using assms by (fastforce simp: stack_ok_def extended_def split: option.splits)

definition stack_closed :: "fork_choice_store \<Rightarrow> rebuilt \<Rightarrow> (bytes32 \<times> nat option) list \<Rightarrow> bool" where
  "stack_closed st rb stack \<longleftrightarrow> (\<forall>r \<in> rb_dom rb. children_of st r \<subseteq> rb_dom rb \<union> fst ` set stack)"

lemma filter_kept_children:
  assumes "tree_part st" "r \<in> descendant_roots st F" "set K = descendant_roots st F"
    "hm_get (fc_children st) r = Some cs"
  shows "set (filter (\<lambda>c. c \<in> set K) cs) = children_of st r"
  using assms descendant_child [OF assms(1,2)] by (auto simp: children_of_def)

lemma child_not_finalized:
  assumes "tree_part st" "r \<in> descendant_roots st F" "c \<in> children_of st r"
  shows "c \<noteq> F"
  using edges_acyclic [OF assms(1) child_edge [OF assms(1) _ assms(3)]] assms(2)
  by (auto simp: descendant_roots_def)

lemma build_loop_spec:
  assumes tp: "tree_part st"
  shows "set K = descendant_roots st F \<Longrightarrow> rb_nodes_ok st F rb \<Longrightarrow> rb_maps_ok st F rb \<Longrightarrow>
    stack_ok st F rb stack \<Longrightarrow> stack_closed st rb stack \<Longrightarrow>
    \<exists>rb'. build_loop (fc_blocks st) (fc_states st) (fc_children st) K rb stack = Inr rb' \<and>
      rb_nodes_ok st F rb' \<and> rb_maps_ok st F rb' \<and> stack_closed st rb' [] \<and>
      rb_dom rb \<union> fst ` set stack \<subseteq> rb_dom rb'"
proof (induction "fc_blocks st" "fc_states st" "fc_children st" K rb stack rule: build_loop.induct)
  case (1 K rb)
  then show ?case by simp
next
  case (2 K rb r pi stack)
  note K = "2.prems"(1) and nok = "2.prems"(2) and mok = "2.prems"(3)
  have r: "r \<in> descendant_roots st F" and rest: "stack_ok st F rb stack"
    and pi: "case pi of None \<Rightarrow> r = F | Some p \<Rightarrow> r \<noteq> F \<and> p < length (rb_nodes rb) \<and>
      hm_get (fc_parents st) r = Some (pn_root (rb_nodes rb ! p))"
    using "2.prems"(4) by (auto simp: stack_ok_def)
  show ?case
  proof (cases "r \<in> rb_dom rb")
    case True
    then have c: "hm_contains (rb_node_indices rb) r" by (auto simp: hm_contains_def)
    have "stack_closed st rb stack" using "2.prems"(5) True by (auto simp: stack_closed_def)
    from 2(1) [OF c K nok mok rest this] show ?thesis using c True by (simp add: insert_absorb)
  next
    case False
    then have c: "\<not> hm_contains (rb_node_indices rb) r" by (auto simp: hm_contains_def)
    have kr: "known st r" using r by (simp add: descendant_roots_def)
    then obtain sb where sb: "hm_get (fc_blocks st) r = Some sb" by (auto simp: known_def hm_contains_def)
    obtain s where s: "hm_get (fc_states st) r = Some s"
      using states_known [OF tree_part_simps(1) [OF tp], of r] kr by auto
    obtain rb1 where rb1: "rebuild_add rb r pi sb s = Inr rb1" "rb_nodes_ok st F rb1" "rb_maps_ok st F rb1"
        "extended (rb_nodes rb) r pi (block_of sb) (rb_nodes rb1)" "rb_dom rb1 = insert r (rb_dom rb)"
      using rebuild_add_spec [OF tp nok mok r False sb s pi] by blast
    define nw where "nw = (case hm_get (fc_children st) r of None \<Rightarrow> [] | Some cs \<Rightarrow>
      map (\<lambda>c. (c, Some (length (rb_nodes rb)))) (filter (\<lambda>c. c \<in> set K) cs))"
    have new: "fst ` set nw = children_of st r"
      using filter_kept_children [OF tp r K]
      by (force simp: nw_def children_of_def image_image split: option.splits)
    have sok: "stack_ok st F rb1 (nw @ stack)"
    proof -
      have "\<forall>(c, pi) \<in> set nw. c \<in> children_of st r \<and> pi = Some (length (rb_nodes rb))"
        by (auto simp: nw_def children_of_def split: option.splits)
      moreover have "pn_root (rb_nodes rb1 ! length (rb_nodes rb)) = r"
          "length (rb_nodes rb) < length (rb_nodes rb1)"
        using rb1(4) by (simp_all add: extended_def)
      moreover have "c \<in> children_of st r \<Longrightarrow> c \<in> descendant_roots st F \<and> c \<noteq> F \<and>
          hm_get (fc_parents st) c = Some r" for c
        using descendant_child [OF tp r] child_not_finalized [OF tp r]
          child_parent [OF tree_part_simps(1) [OF tp]] by blast
      ultimately have "stack_ok st F rb1 nw" by (auto simp: stack_ok_def)
      then show ?thesis using stack_ok_extended [OF rest rb1(4)] unfolding stack_ok_def set_append by blast
    qed
    have closed: "stack_closed st rb1 (nw @ stack)"
      using "2.prems"(5) new by (auto simp: stack_closed_def rb1(5))
    have step: "build_loop (fc_blocks st) (fc_states st) (fc_children st) K rb ((r, pi) # stack) =
        build_loop (fc_blocks st) (fc_states st) (fc_children st) K rb1 (nw @ stack)"
      using c sb s rb1(1) by (simp add: nw_def split: option.splits)
    have "\<exists>rb'. build_loop (fc_blocks st) (fc_states st) (fc_children st) K rb1 (nw @ stack) = Inr rb' \<and>
        rb_nodes_ok st F rb' \<and> rb_maps_ok st F rb' \<and> stack_closed st rb' [] \<and>
        rb_dom rb1 \<union> fst ` set (nw @ stack) \<subseteq> rb_dom rb'"
    proof (cases "hm_get (fc_children st) r")
      case None
      then show ?thesis using 2(4) [OF c sb s rb1(1) None K rb1(2,3)] sok closed by (simp add: nw_def)
    next
      case (Some cs)
      then show ?thesis using 2(5) [OF c sb s rb1(1) Some K rb1(2,3)] sok closed by (simp add: nw_def)
    qed
    moreover have "rb_dom rb \<union> fst ` set ((r, pi) # stack) \<subseteq> rb_dom rb1 \<union> fst ` set (nw @ stack)"
      unfolding rb1(5) by auto
    ultimately show ?thesis unfolding step by (meson order_trans)
  qed
qed

lemma rebuild_spec:
  assumes tp: "tree_part st" and F: "known st F" and K: "set K = descendant_roots st F"
  obtains rb where
    "build_loop (fc_blocks st) (fc_states st) (fc_children st) K empty_rebuilt [(F, None)] = Inr rb"
    "rb_nodes_ok st F rb" "rb_maps_ok st F rb" "rb_dom rb = descendant_roots st F"
proof -
  have FD: "F \<in> descendant_roots st F" using F by (simp add: descendant_roots_def)
  have "rb_nodes_ok st F empty_rebuilt"
    by (simp add: rb_nodes_ok_def empty_rebuilt_def tree_inv_def)
  moreover have "rb_maps_ok st F empty_rebuilt"
    by (simp add: rb_maps_ok_def empty_rebuilt_def rb_children_of_def fun_eq_iff)
  moreover have "stack_ok st F empty_rebuilt [(F, None)]" using FD by (simp add: stack_ok_def)
  moreover have "stack_closed st empty_rebuilt [(F, None)]" by (simp add: stack_closed_def empty_rebuilt_def)
  ultimately obtain rb where rb:
      "build_loop (fc_blocks st) (fc_states st) (fc_children st) K empty_rebuilt [(F, None)] = Inr rb"
      "rb_nodes_ok st F rb" "rb_maps_ok st F rb" "stack_closed st rb []" "F \<in> rb_dom rb"
    using build_loop_spec [OF tp K, of empty_rebuilt "[(F, None)]"] by auto
  have "r \<in> rb_dom rb" if "(r, F) \<in> (tree_edges st)\<^sup>*" for r
    using that
  proof (induction rule: converse_rtrancl_induct)
    case (step r p)
    then show ?case using rb(4) edge_child [OF tp step.hyps(1)] unfolding stack_closed_def by auto
  qed (rule rb(5))
  then have "rb_dom rb = descendant_roots st F"
    using rb(3) by (auto simp: descendant_roots_def rb_maps_ok_def)
  then show ?thesis using rb that by blast
qed

lemma recompute_all_spec:
  assumes "tree_inv ns" "k \<le> length ns"
    and "\<And>q. k \<le> q \<Longrightarrow> q < length ns \<Longrightarrow> is_best ns (children_set ns q) (pn_best_child (ns ! q))"
  shows "\<exists>ns'. recompute_all ns k = Inr ns' \<and> same_shape ns ns' \<and> best_inv ns' \<and>
    (\<forall>i < length ns. pn_weight (ns' ! i) = pn_weight (ns ! i))"
  using assms
proof (induction k arbitrary: ns)
  case 0
  then show ?case by (auto simp: best_inv_def)
next
  case (Suc k)
  have k: "k < length ns" using Suc.prems(2) by simp
  obtain b where b: "recompute_best_child ns k = Inr (ns[k := (ns ! k)\<lparr>pn_best_child := b\<rparr>])"
      "is_best ns (children_set ns k) b"
    using recompute_best_child_spec [OF Suc.prems(1) k] by blast
  let ?ns = "ns[k := (ns ! k)\<lparr>pn_best_child := b\<rparr>]"
  have sh: "same_shape ns ?ns" using k by (intro same_shape_update) simp_all
  have w: "pn_weight (?ns ! i) = pn_weight (ns ! i) \<and> pn_root (?ns ! i) = pn_root (ns ! i)" for i
    using k by (simp add: nth_list_update)
  have "is_best ?ns (children_set ?ns q) (pn_best_child (?ns ! q))" if "k \<le> q" "q < length ?ns" for q
    unfolding same_shape_children [OF sh] is_best_cong [of "children_set ns q" ?ns ns, OF w]
    using that b(2) Suc.prems(3) [of q] by (cases "q = k") simp_all
  from Suc.IH [OF same_shape_tree_inv [OF sh Suc.prems(1)] _ this] k
  obtain ns' where "recompute_all ?ns k = Inr ns'" "same_shape ?ns ns'" "best_inv ns'"
      "\<forall>i < length ns. pn_weight (ns' ! i) = pn_weight (?ns ! i)" by auto
  then show ?case using b(1) same_shape_trans [OF sh] w by auto
qed

section \<open>Votes\<close>

text \<open>Where a vote goes: it stays on a kept block, moves up to the finalized block from one of
  its ancestors, and is dropped otherwise.\<close>

definition pruned_vote :: "fork_choice_store \<Rightarrow> bytes32 \<Rightarrow> bytes32 \<Rightarrow> bytes32 option" where
  "pruned_vote st F r =
     (if r \<in> descendant_roots st F then Some r
      else if (F, r) \<in> (tree_edges st)\<^sup>* then Some F else None)"

lemma normalize_pruned_vote_root_spec:
  assumes "tree_part st" "known st F" "known st r" "set K = descendant_roots st F"
  shows "normalize_pruned_vote_root r F K (fc_parents st) = Inr (pruned_vote st F r)"
  using normalize_loop_spec [OF assms(1,3,2) depth_bound [OF assms(1,2)], of F] assms(4)
  by (simp add: normalize_pruned_vote_root_def pruned_vote_def)

lemma normalize_votes_spec:
  assumes tp: "tree_part st" and F: "known st F" and K: "set K = descendant_roots st F"
  shows "hm_wf votes \<Longrightarrow> (\<And>v r. (v, r) \<in> set votes \<Longrightarrow> known st r) \<Longrightarrow>
    \<exists>vs. normalize_votes F K (fc_parents st) votes = Inr vs \<and> hm_wf vs \<and> fst ` set vs \<subseteq> fst ` set votes \<and>
      (\<forall>v. hm_get vs v = Option.bind (hm_get votes v) (pruned_vote st F))"
proof (induction votes)
  case (Cons x votes)
  obtain v r where x: "x = (v, r)" by (cases x)
  have "hm_wf votes" and v0: "v \<notin> fst ` set votes" using Cons.prems(1) x by (auto simp: hm_wf_def)
  obtain vs where vs: "normalize_votes F K (fc_parents st) votes = Inr vs" "hm_wf vs"
      "fst ` set vs \<subseteq> fst ` set votes" "\<And>v. hm_get vs v = Option.bind (hm_get votes v) (pruned_vote st F)"
    using Cons.IH [OF \<open>hm_wf votes\<close>] Cons.prems(2) by (metis list.set_intros(2))
  have v: "v \<notin> fst ` set vs" using vs(3) v0 by blast
  have none: "hm_get votes v = None" using v0 by (simp add: map_of_eq_None_iff)
  have n: "normalize_pruned_vote_root r F K (fc_parents st) = Inr (pruned_vote st F r)"
    using Cons.prems(2) [of v r] x by (intro normalize_pruned_vote_root_spec [OF tp F _ K]) simp
  show ?case
  proof (cases "pruned_vote st F r")
    case None
    then show ?thesis using vs n x none by (intro exI [of _ vs]) auto
  next
    case (Some r')
    then show ?thesis using vs n x v
      by (intro exI [of _ "(v, r') # vs"]) (auto simp: hm_wf_def)
  qed
qed (simp add: hm_wf_def)

lemma apply_votes_spec:
  assumes "nodes_inv st" "arena_inv (fc_nodes st) V" "hm_wf vs" "\<And>v r. (v, r) \<in> set vs \<Longrightarrow> known st r"
    "dom V \<inter> fst ` set vs = {}"
  shows "\<exists>ns. apply_votes st (map snd vs) = Inr (st\<lparr>fc_nodes := ns\<rparr>) \<and>
    same_shape (fc_nodes st) ns \<and> arena_inv ns (V ++ hm_get vs)"
  using assms
proof (induction vs arbitrary: st V)
  case Nil
  then show ?case by (intro exI [of _ "fc_nodes st"]) simp
next
  case (Cons x vs)
  obtain v r where x: "x = (v, r)" by (cases x)
  have wf: "hm_wf vs" "v \<notin> fst ` set vs" using Cons.prems(3) x by (auto simp: hm_wf_def)
  have "known st r" using Cons.prems(4) [of v r] x by simp
  then obtain i where i: "hm_get (fc_node_indices st) r = Some i" "i < length (fc_nodes st)"
      "pn_root (fc_nodes st ! i) = r" using known_index [OF Cons.prems(1)] by metis
  have "V v = None" using Cons.prems(5) x by auto
  then obtain ns where ns: "propagate_weight_from_index (fc_nodes st) i 1 = Inr ns"
      "same_shape (fc_nodes st) ns" "arena_inv ns (V(v \<mapsto> r))"
    using first_vote_spec [OF Cons.prems(2) _ i(2), of v] i(3) by blast
  let ?st = "st\<lparr>fc_nodes := ns\<rparr>"
  have vo: "votes_only st ?st" using ns(2) by (simp add: votes_only_def)
  have "nodes_inv ?st" using votes_only_nodes_inv [OF vo Cons.prems(1)] .
  moreover have "arena_inv (fc_nodes ?st) (V(v \<mapsto> r))" using ns(3) by simp
  moreover have "known ?st q" if "(u, q) \<in> set vs" for u q using Cons.prems(4) that by auto
  moreover have "dom (V(v \<mapsto> r)) \<inter> fst ` set vs = {}" using Cons.prems(5) wf(2) x by auto
  ultimately obtain ns' where ns': "apply_votes ?st (map snd vs) = Inr (?st\<lparr>fc_nodes := ns'\<rparr>)"
      "same_shape (fc_nodes ?st) ns'" "arena_inv ns' (V(v \<mapsto> r) ++ hm_get vs)"
    using Cons.IH [of ?st "V(v \<mapsto> r)"] wf(1) by blast
  have "hm_get vs v = None" using wf(2) by (simp add: map_of_eq_None_iff)
  then have "V(v \<mapsto> r) ++ hm_get vs = V ++ hm_get (x # vs)"
    using x by (auto simp: map_add_def fun_eq_iff split: option.splits)
  then have "arena_inv ns' (V ++ hm_get (x # vs))" using ns'(3) by simp
  moreover have "apply_votes st (map snd (x # vs)) = Inr (st\<lparr>fc_nodes := ns'\<rparr>)"
    using ns'(1) ns(1) i(1) x by (simp add: apply_vote_delta_def)
  moreover have "same_shape (fc_nodes st) ns'" using ns'(2) ns(2) same_shape_trans by simp
  ultimately show ?case by blast
qed

section \<open>The pruned store\<close>

definition rebuilt_store ::
    "fork_choice_store \<Rightarrow> rebuilt \<Rightarrow> proto_node list \<Rightarrow> (nat, bytes32) hmap \<Rightarrow> (nat, bytes32) hmap \<Rightarrow>
     fork_choice_store" where
  "rebuilt_store st rb ns lv lnv = st\<lparr>fc_blocks := rb_blocks rb, fc_states := rb_states rb,
     fc_parents := rb_parents rb, fc_children := rb_children rb, fc_nodes := ns,
     fc_node_indices := rb_node_indices rb, fc_latest_votes := lv, fc_latest_new_votes := lnv\<rparr>"

lemma rebuilt_store_sel [simp]:
  "fc_blocks (rebuilt_store st rb ns lv lnv) = rb_blocks rb"
  "fc_states (rebuilt_store st rb ns lv lnv) = rb_states rb"
  "fc_parents (rebuilt_store st rb ns lv lnv) = rb_parents rb"
  "fc_children (rebuilt_store st rb ns lv lnv) = rb_children rb"
  "fc_nodes (rebuilt_store st rb ns lv lnv) = ns"
  "fc_node_indices (rebuilt_store st rb ns lv lnv) = rb_node_indices rb"
  "fc_latest_votes (rebuilt_store st rb ns lv lnv) = lv"
  "fc_latest_new_votes (rebuilt_store st rb ns lv lnv) = lnv"
  "fc_latest_justified (rebuilt_store st rb ns lv lnv) = fc_latest_justified st"
  "fc_latest_finalized (rebuilt_store st rb ns lv lnv) = fc_latest_finalized st"
  "fc_validator_count (rebuilt_store st rb ns lv lnv) = fc_validator_count st"
  by (simp_all add: rebuilt_store_def)

lemma rebuilt_known:
  assumes "rb_maps_ok st F rb"
  shows "known (rebuilt_store st rb ns lv lnv) r \<longleftrightarrow> r \<in> rb_dom rb"
  using assms
  by (auto simp: known_def hm_contains_def rb_maps_ok_def restrict_map_def descendant_roots_def)

lemma rebuilt_maps_inv:
  assumes tp: "tree_part st" and ok: "rb_maps_ok st F rb" and wf: "hm_wf lv" "hm_wf lnv"
  shows "maps_inv (rebuilt_store st rb ns lv lnv)" (is "maps_inv ?st")
proof -
  note m = tree_part_simps(1) [OF tp]
  have sub: "r \<in> rb_dom rb \<Longrightarrow> known st r" for r
    using ok by (auto simp: rb_maps_ok_def descendant_roots_def)
  have states: "hm_get (rb_states rb) r = (if r \<in> rb_dom rb then hm_get (fc_states st) r else None)"
    and parents: "hm_get (rb_parents rb) r =
      (if r \<in> rb_dom rb then if r = F then Some zero_root else hm_get (fc_parents st) r else None)" for r
    using ok by (simp_all add: rb_maps_ok_def restrict_map_def)
  have ch: "children_of ?st p = {r \<in> rb_dom rb - {F}. hm_get (fc_parents st) r = Some p}" for p
    using ok by (simp add: rb_maps_ok_def rb_children_of_def children_of_def)
  have d1: "hm_contains (rb_states rb) r = known ?st r" for r
    using sub states_known [OF m, of r] by (auto simp: rebuilt_known [OF ok] hm_contains_def states)
  have d2: "hm_contains (rb_parents rb) r = known ?st r" for r
    using sub parents_known [OF m, of r] by (auto simp: rebuilt_known [OF ok] hm_contains_def parents)
  have z: "\<not> known ?st zero_root" using sub zero_unknown [OF m] unfolding rebuilt_known [OF ok] by blast
  have c1: "r \<in> children_of ?st p \<Longrightarrow> hm_get (rb_parents rb) r = Some p" for r p
    unfolding ch by (simp add: parents)
  have c2: "hm_get (rb_parents rb) r = Some p \<Longrightarrow> p \<noteq> zero_root \<Longrightarrow> r \<in> children_of ?st p" for r p
    unfolding ch by (simp add: parents split: if_splits)
  have "hm_wf (rb_blocks rb)" "hm_wf (rb_parents rb)" using ok by (simp_all add: rb_maps_ok_def)
  then show ?thesis unfolding maps_inv_def rebuilt_store_sel using wf d1 d2 z c1 c2 by blast
qed

lemma rebuilt_nodes_inv:
  assumes tp: "tree_part st" and nok: "rb_nodes_ok st F rb" and mok: "rb_maps_ok st F rb"
    and sh: "same_shape (rb_nodes rb) ns"
  shows "nodes_inv (rebuilt_store st rb ns lv lnv)" (is "nodes_inv ?st")
proof -
  let ?rn = "rb_nodes rb"
  have e: "length ns = length ?rn" "\<And>i. i < length ?rn \<Longrightarrow> pn_root (ns ! i) = pn_root (?rn ! i) \<and>
      pn_parent (ns ! i) = pn_parent (?rn ! i) \<and> pn_slot (ns ! i) = pn_slot (?rn ! i) \<and>
      pn_proposer_index (ns ! i) = pn_proposer_index (?rn ! i)"
    using sh by (auto simp: same_shape_def)
  have ix: "hm_get (rb_node_indices rb) r = Some i \<longleftrightarrow> i < length ?rn \<and> pn_root (?rn ! i) = r" for r i
    using nok unfolding rb_nodes_ok_def by blast
  have dom: "hm_contains (rb_node_indices rb) r = known ?st r" for r
    by (auto simp: rebuilt_known [OF mok] hm_contains_def)
  have blk: "pn_slot (ns ! i) = b_slot (block_of sb) \<and> pn_proposer_index (ns ! i) = b_proposer_index (block_of sb)"
    if i: "i < length ?rn" and sb: "hm_get (rb_blocks rb) (pn_root (ns ! i)) = Some sb" for i sb
  proof -
    have "hm_get (fc_blocks st) (pn_root (?rn ! i)) = Some sb"
      using sb mok e(2) [OF i] by (auto simp: rb_maps_ok_def restrict_map_def split: if_splits)
    then show ?thesis using nok e(2) [OF i] i unfolding rb_nodes_ok_def by metis
  qed
  have par: "pn_parent (ns ! i) = hm_get (rb_node_indices rb) p"
    if i: "i < length ?rn" and p: "hm_get (rb_parents rb) (pn_root (ns ! i)) = Some p" for i p
  proof (cases "pn_root (?rn ! i) = F")
    case True
    then have "p = zero_root" using p mok e(2) [OF i] by (auto simp: rb_maps_ok_def restrict_map_def split: if_splits)
    moreover have "zero_root \<notin> rb_dom rb"
      using mok zero_unknown [OF tree_part_simps(1) [OF tp]] by (auto simp: rb_maps_ok_def descendant_roots_def)
    moreover have "pn_parent (?rn ! i) = None" using True nok i unfolding rb_nodes_ok_def by metis
    ultimately show ?thesis using e(2) [OF i] by (simp add: domIff)
  next
    case False
    then obtain q where q: "q < length ?rn" "pn_parent (?rn ! i) = Some q"
        "hm_get (fc_parents st) (pn_root (?rn ! i)) = Some (pn_root (?rn ! q))"
      using nok i unfolding rb_nodes_ok_def by metis
    have "p = pn_root (?rn ! q)"
      using p mok False q(3) e(2) [OF i] by (auto simp: rb_maps_ok_def restrict_map_def split: if_splits)
    then show ?thesis using ix [of p q] q e(2) [OF i] by simp
  qed
  show ?thesis unfolding nodes_inv_def rebuilt_store_sel e(1)
  proof (intro conjI)
    show "\<forall>r i. (hm_get (rb_node_indices rb) r = Some i) = (i < length ?rn \<and> pn_root (ns ! i) = r)"
      using ix e(2) by auto
  qed (use dom blk par in auto)
qed

text \<open>What pruning does to the store.\<close>

definition pruned :: "fork_choice_store \<Rightarrow> bytes32 \<Rightarrow> fork_choice_store \<Rightarrow> bool" where
  "pruned st F st' \<longleftrightarrow> tree_part st' \<and> head_inv st' \<and>
     (\<forall>r. known st' r \<longleftrightarrow> r \<in> descendant_roots st F) \<and>
     (\<forall>r \<in> descendant_roots st F. hm_get (fc_blocks st') r = hm_get (fc_blocks st) r \<and>
        hm_get (fc_states st') r = hm_get (fc_states st) r \<and>
        hm_get (fc_parents st') r = (if r = F then Some zero_root else hm_get (fc_parents st) r)) \<and>
     (\<forall>v. hm_get (fc_latest_votes st') v = Option.bind (hm_get (fc_latest_votes st) v) (pruned_vote st F)) \<and>
     (\<forall>v. hm_get (fc_latest_new_votes st') v =
        Option.bind (hm_get (fc_latest_new_votes st) v) (pruned_vote st F)) \<and>
     fc_latest_finalized st' = fc_latest_finalized st \<and>
     fc_latest_justified st' = (if cp_root (fc_latest_justified st) \<in> descendant_roots st F
       then fc_latest_justified st else fc_latest_finalized st) \<and>
     fc_reorgs_total st' = fc_reorgs_total st \<and> fc_validator_count st' = fc_validator_count st"

lemma repoint_pruned_spec:
  assumes tp: "tree_part st" and F: "known st (cp_root (fc_latest_finalized st))"
  obtains j pj h hs b where
    "repoint_pruned st = Inr (st\<lparr>fc_latest_justified := j, fc_previous_justified := pj,
       fc_head := h, fc_head_slot := hs, fc_safe_target := b\<rparr>)"
    "j = (if known st (cp_root (fc_latest_justified st)) then fc_latest_justified st
          else fc_latest_finalized st)"
    "head_inv (st\<lparr>fc_latest_justified := j, fc_previous_justified := pj,
       fc_head := h, fc_head_slot := hs, fc_safe_target := b\<rparr>)"
proof -
  have ix: "hm_contains (fc_node_indices st) = known st"
    using tree_part_simps(2) [OF tp] by (auto simp: nodes_inv_def)
  define j where "j = (if known st (cp_root (fc_latest_justified st)) then fc_latest_justified st
    else fc_latest_finalized st)"
  define pj where "pj = (if known st (cp_root (fc_previous_justified st)) then fc_previous_justified st else j)"
  define t where "t = (if known st (fc_safe_target st) then fc_safe_target st
    else cp_root (fc_latest_finalized st))"
  let ?st = "st\<lparr>fc_latest_justified := j, fc_previous_justified := pj, fc_safe_target := t\<rparr>"
  have "known ?st (cp_root (fc_latest_justified ?st))" using F by (simp add: j_def)
  then obtain h where h: "find_head ?st = Inr h" "known st h"
    using find_head_spec [of ?st] tp by auto
  then obtain sb where sb: "hm_get (fc_blocks st) h = Some sb" by (auto simp: known_def hm_contains_def)
  let ?st2 = "?st\<lparr>fc_head := h, fc_head_slot := b_slot (block_of sb)\<rparr>"
  obtain b where b: "refresh_safe_target ?st2 = Inr (?st2\<lparr>fc_safe_target := b\<rparr>)" "known ?st2 b"
    using refresh_safe_target_spec [of ?st2] tp h(2) by auto
  have s1: "(if \<not> known st (cp_root (fc_latest_justified st))
      then st\<lparr>fc_latest_justified := fc_latest_finalized st\<rparr> else st) = st\<lparr>fc_latest_justified := j\<rparr>"
    by (simp add: j_def)
  have s2: "(if \<not> known st (cp_root (fc_previous_justified (st\<lparr>fc_latest_justified := j\<rparr>)))
      then st\<lparr>fc_latest_justified := j\<rparr>\<lparr>fc_previous_justified := fc_latest_justified (st\<lparr>fc_latest_justified := j\<rparr>)\<rparr>
      else st\<lparr>fc_latest_justified := j\<rparr>) = st\<lparr>fc_latest_justified := j, fc_previous_justified := pj\<rparr>"
    by (simp add: pj_def)
  have s3: "(if \<not> known st (fc_safe_target (st\<lparr>fc_latest_justified := j, fc_previous_justified := pj\<rparr>))
      then st\<lparr>fc_latest_justified := j, fc_previous_justified := pj\<rparr>\<lparr>fc_safe_target := cp_root (fc_latest_finalized st)\<rparr>
      else st\<lparr>fc_latest_justified := j, fc_previous_justified := pj\<rparr>) = ?st"
    by (simp add: t_def)
  have "repoint_pruned st = Inr (?st2\<lparr>fc_safe_target := b\<rparr>)"
    unfolding repoint_pruned_def Let_def ix s1 s2 s3 using h sb b(1) by simp
  moreover have "?st2\<lparr>fc_safe_target := b\<rparr> = st\<lparr>fc_latest_justified := j, fc_previous_justified := pj,
      fc_head := h, fc_head_slot := b_slot (block_of sb), fc_safe_target := b\<rparr>" by simp
  moreover have "head_inv (st\<lparr>fc_latest_justified := j, fc_previous_justified := pj,
      fc_head := h, fc_head_slot := b_slot (block_of sb), fc_safe_target := b\<rparr>)"
    using b(2) sb by (simp add: head_inv_def)
  ultimately show ?thesis by (intro that [OF _ j_def]) simp_all
qed

lemma votes_in_map: "hm_wf m \<Longrightarrow> (v, r) \<in> set m \<longleftrightarrow> hm_get m v = Some r"
  by (simp add: hm_wf_def)

lemma pruned_vote_kept:
  "known st F \<Longrightarrow> pruned_vote st F r = Some r' \<Longrightarrow> r' \<in> descendant_roots st F"
  by (auto simp: pruned_vote_def descendant_roots_def split: if_splits)

lemma prune_spec:
  assumes tp: "tree_part st" and F: "F = cp_root (fc_latest_finalized st)" "known st F"
  obtains st' where "prune_finalized_history st = Inr (length (fc_blocks st) - length (fc_blocks st'), st')"
    "pruned st F st'"
proof -
  define K where "K = kept_loop (fc_blocks st) (fc_children st) [] [F]"
  have K: "set K = descendant_roots st F" unfolding K_def using kept_roots_eq [OF tp F(2)] .
  note m = tree_part_simps(1) [OF tp]
  have wf: "hm_wf (fc_latest_votes st)" "hm_wf (fc_latest_new_votes st)"
    using m unfolding maps_inv_def by blast+
  have votes: "(v, r) \<in> set (fc_latest_votes st) \<Longrightarrow> known st r"
      "(v, r) \<in> set (fc_latest_new_votes st) \<Longrightarrow> known st r" for v r
    using tp votes_in_map [OF wf(1)] votes_in_map [OF wf(2)]
    unfolding tree_part_def fc_votes_inv_def by blast+
  obtain rb where rb: "build_loop (fc_blocks st) (fc_states st) (fc_children st) K empty_rebuilt [(F, None)] = Inr rb"
      "rb_nodes_ok st F rb" "rb_maps_ok st F rb" "rb_dom rb = descendant_roots st F"
    using rebuild_spec [OF tp F(2) K] by blast
  have "tree_inv (rb_nodes rb)" using rb(2) by (simp add: rb_nodes_ok_def)
  from recompute_all_spec [OF this order_refl] obtain ns where ns:
      "recompute_all (rb_nodes rb) (length (rb_nodes rb)) = Inr ns" "same_shape (rb_nodes rb) ns" "best_inv ns"
      "\<And>i. i < length (rb_nodes rb) \<Longrightarrow> pn_weight (ns ! i) = pn_weight (rb_nodes rb ! i)"
    using linorder_not_le by blast
  obtain lv where lv: "normalize_votes F K (fc_parents st) (fc_latest_votes st) = Inr lv" "hm_wf lv"
      "\<And>v. hm_get lv v = Option.bind (hm_get (fc_latest_votes st) v) (pruned_vote st F)"
    by (rule exE [OF normalize_votes_spec [OF tp F(2) K wf(1)]]) (erule votes(1), blast)
  obtain lnv where lnv: "normalize_votes F K (fc_parents st) (fc_latest_new_votes st) = Inr lnv" "hm_wf lnv"
      "\<And>v. hm_get lnv v = Option.bind (hm_get (fc_latest_new_votes st) v) (pruned_vote st F)"
    by (rule exE [OF normalize_votes_spec [OF tp F(2) K wf(2)]]) (erule votes(2), blast)
  let ?st1 = "rebuilt_store st rb ns lv lnv"
  have known1: "known ?st1 r \<longleftrightarrow> r \<in> descendant_roots st F" for r
    using rebuilt_known [OF rb(3)] rb(4) by simp
  have n1: "nodes_inv ?st1" using rebuilt_nodes_inv [OF tp rb(2,3) ns(2)] .
  have kept: "known ?st1 r" if "hm_get lv v = Some r \<or> hm_get lnv v = Some r" for v r
    using that lv(3) lnv(3) pruned_vote_kept [OF F(2)] unfolding known1
    by (auto simp: bind_eq_Some_conv)
  have "arena_inv (fc_nodes ?st1) Map.empty"
    using ns(3,4) same_shape_tree_inv [OF ns(2)] rb(2) same_shape_length [OF ns(2)]
    by (simp add: arena_inv_def rb_nodes_ok_def support_def)
  then obtain ns' where ns': "apply_votes ?st1 (map snd lv) = Inr (?st1\<lparr>fc_nodes := ns'\<rparr>)"
      "same_shape ns ns'" "arena_inv ns' (hm_get lv)"
    using apply_votes_spec [OF n1 _ lv(2), of Map.empty] kept lv(2) by (auto simp: votes_in_map)
  let ?st2 = "?st1\<lparr>fc_nodes := ns'\<rparr>"
  have tp2: "tree_part ?st2"
  proof -
    have "nodes_inv ?st2" using votes_only_nodes_inv [OF _ n1] ns'(2) by (simp add: votes_only_def)
    moreover have "fc_votes_inv ?st2" using ns'(3) kept by (auto simp: fc_votes_inv_def)
    ultimately show ?thesis using rebuilt_maps_inv [OF tp rb(3) lv(2) lnv(2)] by (simp add: tree_part_def)
  qed
  have kF: "known ?st2 (cp_root (fc_latest_finalized ?st2))"
    using F known1 by (simp add: descendant_roots_def)
  obtain j pj h hs b where rp: "repoint_pruned ?st2 = Inr (?st2\<lparr>fc_latest_justified := j,
        fc_previous_justified := pj, fc_head := h, fc_head_slot := hs, fc_safe_target := b\<rparr>)"
      "j = (if known ?st2 (cp_root (fc_latest_justified ?st2)) then fc_latest_justified ?st2
            else fc_latest_finalized ?st2)"
      "head_inv (?st2\<lparr>fc_latest_justified := j, fc_previous_justified := pj,
        fc_head := h, fc_head_slot := hs, fc_safe_target := b\<rparr>)"
    by (rule repoint_pruned_spec [OF tp2 kF])
  let ?st3 = "?st2\<lparr>fc_latest_justified := j, fc_previous_justified := pj, fc_head := h,
    fc_head_slot := hs, fc_safe_target := b\<rparr>"
  have "\<not> (F = zero_root \<or> \<not> hm_contains (fc_blocks st) F)"
    using F(2) zero_unknown [OF m] by (auto simp: known_def)
  then have "prune_finalized_history st = Inr (length (fc_blocks st) - length (fc_blocks ?st3), ?st3)"
    unfolding prune_finalized_history_def Let_def F(1) [symmetric] K_def [symmetric]
      rebuilt_store_def [symmetric]
    using rb(1) ns(1) lv(1) lnv(1) ns'(1) rp(1) by simp
  moreover have "pruned st F ?st3"
    using tp2 rp(2,3) known1 lv(3) lnv(3) rb(3,4)
    by (auto simp: pruned_def rb_maps_ok_def restrict_map_def rebuilt_store_def)
  ultimately show ?thesis by (rule that)
qed

end
