(* ===== verification/ForkChoiceOps.thy ===== *)
theory ForkChoiceOps
  imports Prune
begin

text \<open>
  The public operations of the fork-choice store: none of them panics or runs for ever on a
  store that satisfies the invariant, and each keeps it. Head, safe target, checkpoints and
  votes change as specified. A store reached from an anchor by any sequence of operations
  satisfies the invariant.
\<close>

section \<open>Settling the head\<close>

definition settle :: "fork_choice_store \<Rightarrow> fork_choice_store result" where
  "settle st =
     and_then (find_head st) (\<lambda>head.
     and_then (count_reorg (case move_head st head of Some st \<Rightarrow> st | None \<Rightarrow> st) (fc_head st))
       refresh_safe_target)"

text \<open>The head and safe target after an operation.\<close>

definition settled :: "fork_choice_store \<Rightarrow> bool" where
  "settled st \<longleftrightarrow> is_safe_target st (fc_safe_target st) \<and>
     (known st (cp_root (fc_latest_justified st)) \<longrightarrow>
      ghost st (cp_root (fc_latest_justified st)) (fc_head st))"

text \<open>Fields that head and safe target do not touch.\<close>

definition same_tree :: "fork_choice_store \<Rightarrow> fork_choice_store \<Rightarrow> bool" where
  "same_tree st st' \<longleftrightarrow> fc_blocks st' = fc_blocks st \<and> fc_states st' = fc_states st \<and>
     fc_parents st' = fc_parents st \<and> fc_children st' = fc_children st \<and> fc_nodes st' = fc_nodes st \<and>
     fc_node_indices st' = fc_node_indices st \<and> fc_latest_votes st' = fc_latest_votes st \<and>
     fc_latest_new_votes st' = fc_latest_new_votes st \<and>
     fc_latest_justified st' = fc_latest_justified st \<and>
     fc_previous_justified st' = fc_previous_justified st \<and>
     fc_latest_finalized st' = fc_latest_finalized st \<and> fc_validator_count st' = fc_validator_count st"

lemma same_tree_refl [simp]: "same_tree st st"
  by (simp add: same_tree_def)

lemma same_tree_trans: "same_tree st st' \<Longrightarrow> same_tree st' st'' \<Longrightarrow> same_tree st st''"
  by (simp add: same_tree_def)

lemma ghost_mono:
  assumes eq: "child_roots st' = child_roots st" "heavier st' = heavier st"
  shows "ghost st r h \<Longrightarrow> ghost st' r h"
proof (induction rule: ghost.induct)
  case (leaf r)
  then show ?case by (simp add: eq ghost.leaf)
next
  case (step c r h)
  have "c \<in> child_roots st' r" using step.hyps(1) eq(1) by simp
  moreover have "d = c \<or> heavier st' c d" if "d \<in> child_roots st' r" for d
    using step.hyps(2) [of d] that eq by simp
  ultimately show ?case using step.IH by (rule ghost.step)
qed

lemma ghost_cong:
  assumes "tree_edges st' = tree_edges st" "vote_weight st' = vote_weight st"
  shows "ghost st' = ghost st"
proof -
  have "child_roots st' = child_roots st" "heavier st' = heavier st"
    using assms by (auto simp: child_roots_def heavier_def fun_eq_iff)
  then show ?thesis using ghost_mono [of st st'] ghost_mono [of st' st] by (auto simp: fun_eq_iff)
qed

lemma same_tree_known: "same_tree st st' \<Longrightarrow> known st' = known st"
  by (simp add: same_tree_def known_def fun_eq_iff)

lemma same_tree_edges: "same_tree st st' \<Longrightarrow> tree_edges st' = tree_edges st"
  by (simp add: tree_edges_def same_tree_known) (simp add: same_tree_def)

lemma same_tree_weight: "same_tree st st' \<Longrightarrow> vote_weight st' = vote_weight st"
  by (simp add: vote_weight_def same_tree_edges fun_eq_iff) (simp add: same_tree_def)

lemma same_tree_ghost: "same_tree st st' \<Longrightarrow> ghost st' = ghost st"
  by (intro ghost_cong same_tree_edges same_tree_weight)

lemma is_safe_target_cong:
  assumes "same_tree st st'" "fc_head st' = fc_head st"
  shows "is_safe_target st' = is_safe_target st"
proof -
  have f: "fc_blocks st' = fc_blocks st" "fc_latest_justified st' = fc_latest_justified st"
      "fc_latest_finalized st' = fc_latest_finalized st" "fc_validator_count st' = fc_validator_count st"
    using assms(1) by (simp_all add: same_tree_def)
  have "slot_of st' = slot_of st" by (simp add: slot_of_def f fun_eq_iff)
  then have "most_preferred st' = most_preferred st"
    by (simp add: most_preferred_def preferred_def fun_eq_iff)
  moreover have "safe_anchor st' = safe_anchor st" unfolding safe_anchor_def f assms(2) ..
  moreover have "safe_candidate st' = safe_candidate st"
    by (simp add: safe_candidate_def fun_eq_iff f same_tree_known [OF assms(1)]
        same_tree_edges [OF assms(1)] same_tree_weight [OF assms(1)])
  ultimately show ?thesis by (intro ext) (simp add: is_safe_target_def f assms(2))
qed

lemma tree_part_cong:
  assumes "same_tree st st'"
  shows "tree_part st' = tree_part st"
proof -
  have "children_of st' = children_of st" using assms by (simp add: children_of_def same_tree_def fun_eq_iff)
  then show ?thesis
    using assms same_tree_known [OF assms]
    unfolding tree_part_def maps_inv_def nodes_inv_def fc_votes_inv_def by (simp add: same_tree_def)
qed

lemma settle_spec:
  assumes tp: "tree_part st" and h0: "known st (fc_head st)"
  obtains st' where "settle st = Inr st'" "same_tree st st'" "fc_inv st'" "settled st'"
    "fc_reorgs_total st' = fc_reorgs_total st + of_bool ((fc_head st', fc_head st) \<notin> (tree_edges st)\<^sup>*)"
proof -
  obtain h where h: "find_head st = Inr h"
      "if known st (cp_root (fc_latest_justified st))
       then ghost st (cp_root (fc_latest_justified st)) h \<and> known st h else h = fc_head st"
    by (rule find_head_spec [OF tp])
  have kh: "known st h" using h(2) h0 by (auto split: if_splits)
  then obtain sb where sb: "hm_get (fc_blocks st) h = Some sb" by (auto simp: known_def hm_contains_def)
  let ?st1 = "st\<lparr>fc_head := h, fc_head_slot := b_slot (block_of sb)\<rparr>"
  let ?r = "(h, fc_head st) \<notin> (tree_edges st)\<^sup>*"
  have reorg: "head_change_is_reorg ?st1 (fc_head st) h = Inr ?r"
    using head_change_is_reorg_spec [of ?st1 "fc_head st" h] tp h0 kh by simp
  let ?st2 = "if ?r then ?st1\<lparr>fc_reorgs_total := fc_reorgs_total ?st1 + 1\<rparr> else ?st1"
  have t2: "same_tree st ?st2" "fc_head ?st2 = h" "fc_head_slot ?st2 = b_slot (block_of sb)"
      "fc_reorgs_total ?st2 = fc_reorgs_total st + of_bool ?r"
    by (simp_all add: same_tree_def)
  have tp2: "tree_part ?st2" and k2: "known ?st2 (fc_head ?st2)"
    using tree_part_cong [OF t2(1)] tp same_tree_known [OF t2(1)] kh unfolding t2(2) by auto
  obtain b where b: "refresh_safe_target ?st2 = Inr (?st2\<lparr>fc_safe_target := b\<rparr>)"
      "is_safe_target ?st2 b" "known ?st2 b"
    by (rule refresh_safe_target_spec [OF tp2 k2])
  let ?st3 = "?st2\<lparr>fc_safe_target := b\<rparr>"
  have t3: "same_tree ?st2 ?st3" by (simp add: same_tree_def)
  show ?thesis
  proof (rule that [of ?st3])
    show "settle st = Inr ?st3"
      unfolding settle_def h(1) using sb reorg b(1) by (simp add: move_head_def count_reorg_def split: if_splits)
    show st: "same_tree st ?st3" using same_tree_trans [OF t2(1) t3] .
    have "is_safe_target ?st3 = is_safe_target ?st2" by (rule is_safe_target_cong [OF t3]) simp
    then show "settled ?st3"
      using b(2) h(2) same_tree_known [OF st] same_tree_ghost [OF st] st t2(2)
      by (simp add: settled_def same_tree_def)
    have "hm_get (fc_blocks ?st3) (fc_head ?st3) = Some sb" "fc_head_slot ?st3 = b_slot (block_of sb)"
      using sb by simp_all
    moreover have "known ?st3 (fc_safe_target ?st3)" using b(3) by simp
    ultimately show "fc_inv ?st3" using tp2 by (simp add: fc_inv_def head_inv_def)
  qed simp
qed

section \<open>Votes\<close>

lemma fc_inv_parts: "fc_inv st \<Longrightarrow> tree_part st" "fc_inv st \<Longrightarrow> head_inv st"
  by (simp_all add: fc_inv_def)

lemma head_inv_known: "head_inv st \<Longrightarrow> known st (fc_head st)"
  by (auto simp: head_inv_def known_def hm_contains_def)

lemma votes_only_fc_inv: "fc_inv st \<Longrightarrow> votes_only st st' \<Longrightarrow> tree_part st' \<Longrightarrow> fc_inv st'"
  by (simp add: fc_inv_def votes_only_head_inv)

lemma on_attestation_spec:
  assumes "fc_inv st"
  obtains st' where
    "on_attestation st att = Inr (known st (cp_root (ad_head (att_data att))), st')" "fc_inv st'"
    "votes_only st st'"
proof -
  obtain b st' where "apply_attestation_votes st att Pending = Inr (b, st')" "tree_part st'"
      "votes_only st st'" "b = known st (cp_root (ad_head (att_data att)))"
    by (rule apply_attestation_votes_ok [OF fc_inv_parts(1) [OF assms]])
  then show ?thesis using that votes_only_fc_inv [OF assms] by (simp add: on_attestation_def)
qed

lemma promote_votes_latest:
  assumes "tree_part st" "\<forall>(v, r) \<in> set pending. known st r" "promote_votes st pending = Inr st'"
  shows "hm_get (fc_latest_votes st') = hm_get (fc_latest_votes st) ++ hm_get (rev pending) \<and>
    fc_latest_new_votes st' = fc_latest_new_votes st"
  using assms
proof (induction st pending rule: promote_votes.induct)
  case (2 st v r pending)
  have "known st r" using 2(3) by simp
  from set_latest_vote_spec [OF 2(2) this, of v] obtain ns where ns:
      "set_latest_vote st v r = Inr (st\<lparr>fc_latest_votes := hm_insert v r (fc_latest_votes st), fc_nodes := ns\<rparr>)"
      "tree_part (st\<lparr>fc_latest_votes := hm_insert v r (fc_latest_votes st), fc_nodes := ns\<rparr>)"
    by metis
  have "promote_votes (st\<lparr>fc_latest_votes := hm_insert v r (fc_latest_votes st), fc_nodes := ns\<rparr>) pending
      = Inr st'" using 2(4) ns(1) by simp
  from 2(1) [OF ns(1) ns(2) _ this] 2(3) show ?case by (simp add: map_add_def fun_eq_iff split: option.splits)
qed simp

lemma accept_new_votes_spec:
  assumes inv: "fc_inv st"
  obtains st' where "accept_new_votes st = Inr st'" "fc_inv st'"
    "hm_get (fc_latest_votes st') = hm_get (fc_latest_votes st) ++ hm_get (fc_latest_new_votes st)"
    "fc_latest_new_votes st' = []" "fc_latest_new_votes st \<noteq> [] \<Longrightarrow> settled st'"
    "fc_blocks st' = fc_blocks st" "fc_latest_justified st' = fc_latest_justified st"
    "fc_latest_finalized st' = fc_latest_finalized st"
proof (cases "fc_latest_new_votes st = []")
  case True
  then show ?thesis using that [of st] inv by (simp add: accept_new_votes_def)
next
  case False
  let ?N = "fc_latest_new_votes st" let ?st0 = "st\<lparr>fc_latest_new_votes := []\<rparr>"
  note tp = fc_inv_parts(1) [OF inv]
  have wf: "hm_wf ?N" using tree_part_simps(1) [OF tp] unfolding maps_inv_def by blast
  have kN: "hm_get ?N v = Some r \<Longrightarrow> known st r" for v r
    using tp unfolding tree_part_def fc_votes_inv_def by blast
  have vo0: "votes_only st ?st0" by (simp add: votes_only_def)
  have tp0: "tree_part ?st0"
  proof -
    have "hm_wf (fc_latest_votes st)" using tree_part_simps(1) [OF tp] unfolding maps_inv_def by blast
    then have "maps_inv ?st0" by (intro votes_only_maps_inv [OF vo0 tree_part_simps(1) [OF tp]]) simp_all
    then show ?thesis
      using tp votes_only_nodes_inv [OF vo0 tree_part_simps(2) [OF tp]]
      by (simp add: tree_part_def fc_votes_inv_def)
  qed
  have k0: "\<forall>(v, r) \<in> set ?N. known ?st0 r" using kN votes_in_map [OF wf] by auto
  obtain st1 where st1: "promote_votes ?st0 ?N = Inr st1" "tree_part st1" "votes_only ?st0 st1"
    using promote_votes_ok [OF tp0 k0] by (auto simp: votes_ok_def)
  note lv = promote_votes_latest [OF tp0 k0 st1(1)]
  note vo = votes_only_trans [OF vo0 st1(3)]
  have "known st1 (fc_head st1)"
    using head_inv_known [OF fc_inv_parts(2) [OF inv]] votes_only_known [OF vo] votes_only_sel(6) [OF vo] by simp
  then obtain st2 where st2: "settle st1 = Inr st2" "same_tree st1 st2" "fc_inv st2" "settled st2"
    by (rule settle_spec [OF st1(2)])
  have rev: "hm_get (rev ?N) = hm_get ?N"
    using wf map_of_inject_set [of "rev ?N" ?N] by (simp add: hm_wf_def rev_map [symmetric])
  show ?thesis
  proof (rule that [OF _ st2(3)])
    show "accept_new_votes st = Inr st2"
      using False st1(1) st2(1) by (simp add: accept_new_votes_def settle_def Let_def)
  qed (use st2(2,4) lv rev votes_only_sel [OF vo] in \<open>simp_all add: same_tree_def\<close>)
qed

section \<open>Blocks\<close>

lemma with_block_head_inv:
  assumes h: "head_inv st" and same: "\<And>old. hm_get (fc_blocks st) root = Some old \<Longrightarrow> block_of old = block_of sb"
  shows "head_inv (with_block st root sb s\<lparr>fc_nodes := ns, fc_node_indices := ixs\<rparr>)"
proof -
  obtain hb where hb: "hm_get (fc_blocks st) (fc_head st) = Some hb" "fc_head_slot st = b_slot (block_of hb)"
    using h by (auto simp: head_inv_def)
  have sel: "fc_head (with_block st root sb s) = fc_head st" "fc_safe_target (with_block st root sb s) = fc_safe_target st"
      "fc_head_slot (with_block st root sb s) = fc_head_slot st"
    by (simp_all add: with_block_def)
  have "known (with_block st root sb s) (fc_safe_target st)" using h by (simp add: head_inv_def known_with_block)
  moreover have "\<exists>x. hm_get (hm_insert root sb (fc_blocks st)) (fc_head st) = Some x \<and>
      fc_head_slot st = b_slot (block_of x)"
    using hb same by auto
  ultimately show ?thesis by (simp add: head_inv_def sel)
qed

lemma votes_ok_fc_inv:
  assumes "fc_inv st" "votes_ok st r"
  obtains st' where "r = Inr st'" "fc_inv st'" "votes_only st st'"
  using assms votes_only_fc_inv unfolding votes_ok_def by blast

lemma fc_inv_checkpoints [simp]:
  "fc_inv (st\<lparr>fc_previous_justified := p, fc_latest_justified := j\<rparr>) = fc_inv st"
  "fc_inv (st\<lparr>fc_latest_finalized := f\<rparr>) = fc_inv st"
  by (simp_all add: fc_inv_def head_inv_def)

lemma tree_edges_checkpoints [simp]:
  "tree_edges (st\<lparr>fc_previous_justified := p, fc_latest_justified := j\<rparr>) = tree_edges st"
  by simp

definition next_justified :: "fork_choice_store \<Rightarrow> state \<Rightarrow> checkpoint" where
  "next_justified st s =
     (if cp_slot (st_latest_justified s) > cp_slot (fc_latest_justified st)
      then st_latest_justified s else fc_latest_justified st)"

lemma advance_checkpoints_spec:
  assumes inv: "fc_inv st"
  obtains st' where "advance_checkpoints st s = Inr st'" "fc_inv st'"
    "cp_slot (fc_latest_finalized st') = max (cp_slot (fc_latest_finalized st)) (cp_slot (st_latest_finalized s))"
    "fc_latest_justified st' = next_justified st s \<or>
     (fc_latest_justified st' = fc_latest_finalized st' \<and> \<not> known st' (cp_root (next_justified st s)))"
    "\<And>r. known st' r \<Longrightarrow> known st r"
    "cp_slot (st_latest_finalized s) \<le> cp_slot (fc_latest_finalized st) \<Longrightarrow> known st' = known st"
    "fc_reorgs_total st' = fc_reorgs_total st"
proof -
  define st1 where "st1 = (if cp_slot (st_latest_justified s) > cp_slot (fc_latest_justified st)
    then st\<lparr>fc_previous_justified := fc_latest_justified st, fc_latest_justified := st_latest_justified s\<rparr>
    else st)"
  have f1: "fc_inv st1" "fc_latest_finalized st1 = fc_latest_finalized st" "known st1 = known st"
      "fc_latest_justified st1 = next_justified st s" "fc_reorgs_total st1 = fc_reorgs_total st"
    using inv by (simp_all add: next_justified_def st1_def)
  have adv_eq: "advance_checkpoints st s =
      (if cp_slot (st_latest_finalized s) > cp_slot (fc_latest_finalized st1)
       then and_then (prune_finalized_history (st1\<lparr>fc_latest_finalized := st_latest_finalized s\<rparr>)) (\<lambda>(_, st). Inr st)
       else Inr st1)"
    unfolding advance_checkpoints_def Let_def st1_def ..
  show ?thesis
  proof (cases "cp_slot (st_latest_finalized s) > cp_slot (fc_latest_finalized st)")
    case False
    then show ?thesis
      using f1 by (intro that [of st1]) (auto simp: adv_eq max_def)
  next
    case adv: True
    define st2 where "st2 = st1\<lparr>fc_latest_finalized := st_latest_finalized s\<rparr>"
    have f2: "fc_inv st2" "fc_latest_finalized st2 = st_latest_finalized s" "known st2 = known st"
        "fc_latest_justified st2 = next_justified st s" "fc_reorgs_total st2 = fc_reorgs_total st"
      using f1 by (simp_all add: st2_def)
    have adv': "advance_checkpoints st s = and_then (prune_finalized_history st2) (\<lambda>(_, st). Inr st)"
      using adv f1(2) by (simp add: adv_eq st2_def)
    have mx: "max (cp_slot (fc_latest_finalized st)) (cp_slot (st_latest_finalized s)) = cp_slot (st_latest_finalized s)"
      using adv by (auto simp: max_def)
    let ?F = "cp_root (st_latest_finalized s)"
    show ?thesis
    proof (cases "known st ?F")
      case False
      then have "prune_finalized_history st2 = Inr (0, st2)"
        using f2(2,3) by (auto simp: prune_finalized_history_def Let_def known_def fun_eq_iff)
      then show ?thesis using f2 adv adv' mx by (intro that [of st2]) simp_all
    next
      case True
      obtain st3 where st3: "prune_finalized_history st2 = Inr (length (fc_blocks st2) - length (fc_blocks st3), st3)"
          "pruned st2 ?F st3"
        using prune_spec [OF fc_inv_parts(1) [OF f2(1)], of ?F] f2(2,3) True by metis
      have k3: "known st3 r \<longleftrightarrow> r \<in> descendant_roots st2 ?F" for r using st3(2) by (simp add: pruned_def)
      show ?thesis
      proof (rule that [of st3])
        show "advance_checkpoints st s = Inr st3" using adv' st3(1) by simp
        show "fc_inv st3" using st3(2) by (simp add: pruned_def fc_inv_def)
        show "cp_slot (fc_latest_finalized st3) = max (cp_slot (fc_latest_finalized st)) (cp_slot (st_latest_finalized s))"
          using st3(2) f2(2) mx by (simp add: pruned_def)
        show "fc_latest_justified st3 = next_justified st s \<or>
            (fc_latest_justified st3 = fc_latest_finalized st3 \<and> \<not> known st3 (cp_root (next_justified st s)))"
          using st3(2) f2(4) k3 by (auto simp: pruned_def)
        show "known st3 r \<Longrightarrow> known st r" for r using k3 f2(3) by (simp add: descendant_roots_def)
        show "fc_reorgs_total st3 = fc_reorgs_total st" using st3(2) f2(5) by (simp add: pruned_def)
      qed (use adv in auto)
    qed
  qed
qed

lemma import_settle:
  assumes tp: "tree_part st" and h: "known st (fc_head st)"
  shows "and_then (find_head st) (\<lambda>head. and_then (count_reorg (case move_head st head of Some st \<Rightarrow> st | None \<Rightarrow> X)
    (fc_head st)) refresh_safe_target) = settle st"
proof -
  obtain head where head: "find_head st = Inr head"
      "if known st (cp_root (fc_latest_justified st))
       then ghost st (cp_root (fc_latest_justified st)) head \<and> known st head else head = fc_head st"
    by (rule find_head_spec [OF tp])
  then have "known st head" using h by (auto split: if_splits)
  then show ?thesis using head(1) by (auto simp: settle_def move_head_def known_def hm_contains_def)
qed

lemma import_block_spec:
  assumes inv: "fc_inv st" and im: "importable L st sb"
    and sm: "state_matches_block_root L s (b_state_root (block_of sb))"
  obtains st' where "import_block_internal L st sb s incl = Inr st'" "fc_inv st'" "settled st'"
    "cp_slot (fc_latest_finalized st') = max (cp_slot (fc_latest_finalized st)) (cp_slot (st_latest_finalized s))"
    "fc_latest_justified st' = next_justified st s \<or>
     (fc_latest_justified st' = fc_latest_finalized st' \<and> \<not> known st' (cp_root (next_justified st s)))"
    "\<And>r. known st' r \<Longrightarrow> r = block_root L (block_of sb) \<or> known st r"
    "cp_slot (st_latest_finalized s) \<le> cp_slot (fc_latest_finalized st) \<Longrightarrow>
      (\<And>r. known st' r \<longleftrightarrow> r = block_root L (block_of sb) \<or> known st r)"
proof -
  define root where "root = block_root L (block_of sb)"
  let ?b = "block_of sb" let ?wb = "with_block st root sb s"
  obtain ns ixs where ins: "insert_proto_node ?wb root (b_parent_root ?b) (b_slot ?b) (b_proposer_index ?b) =
       Inr (?wb\<lparr>fc_nodes := ns, fc_node_indices := ixs\<rparr>)" "tree_part (?wb\<lparr>fc_nodes := ns, fc_node_indices := ixs\<rparr>)"
    by (rule insert_block_spec [OF fc_inv_parts(1) [OF inv] im root_def])
  let ?st1 = "?wb\<lparr>fc_nodes := ns, fc_node_indices := ixs\<rparr>"
  have "head_inv ?st1"
    using with_block_head_inv [OF fc_inv_parts(2) [OF inv]] importableD(5) [OF im root_def] by blast
  then have inv1: "fc_inv ?st1" using ins(2) by (simp add: fc_inv_def)
  obtain st2 where st2: "apply_all_votes ?st1 Active (bb_attestations (b_body ?b)) = Inr st2" "fc_inv st2" "votes_only ?st1 st2"
    by (rule votes_ok_fc_inv [OF inv1 apply_all_votes_ok [OF ins(2)]])
  have "votes_ok st2 (if incl then apply_all_votes st2 Active [bwa_proposer_attestation (sb_message sb)] else Inr st2)"
    using apply_all_votes_ok votes_ok_refl fc_inv_parts(1) [OF st2(2)] by (cases incl) metis+
  then obtain st3 where st3: "(if incl then apply_all_votes st2 Active [bwa_proposer_attestation (sb_message sb)]
      else Inr st2) = Inr st3" "fc_inv st3" "votes_only st2 st3"
    by (rule votes_ok_fc_inv [OF st2(2)])
  note vo = votes_only_trans [OF st2(3) st3(3)]
  have f3: "fc_latest_finalized st3 = fc_latest_finalized st" "fc_latest_justified st3 = fc_latest_justified st"
      "\<And>r. known st3 r \<longleftrightarrow> r = root \<or> known st r"
    using votes_only_sel [OF vo] votes_only_known [OF vo] known_with_block by (simp_all add: with_block_def)
  then have nj: "next_justified st3 s = next_justified st s" by (simp add: next_justified_def)
  obtain st4 where st4: "advance_checkpoints st3 s = Inr st4" "fc_inv st4"
    "cp_slot (fc_latest_finalized st4) = max (cp_slot (fc_latest_finalized st3)) (cp_slot (st_latest_finalized s))"
    "fc_latest_justified st4 = next_justified st3 s \<or>
     (fc_latest_justified st4 = fc_latest_finalized st4 \<and> \<not> known st4 (cp_root (next_justified st3 s)))"
    "\<And>r. known st4 r \<Longrightarrow> known st3 r"
    "cp_slot (st_latest_finalized s) \<le> cp_slot (fc_latest_finalized st3) \<Longrightarrow> known st4 = known st3"
    by (rule advance_checkpoints_spec [OF st3(2), of s]) blast
  note h4 = head_inv_known [OF fc_inv_parts(2) [OF st4(2)]]
  obtain st5 where st5: "settle st4 = Inr st5" "same_tree st4 st5" "fc_inv st5" "settled st5"
    by (rule settle_spec [OF fc_inv_parts(1) [OF st4(2)] h4])
  show ?thesis
  proof (rule that [OF _ st5(3,4)])
    have "import_block_internal L st sb s incl = settle st4"
      using sm ins(1) st2(1) st3(1) st4(1)
        import_settle [OF fc_inv_parts(1) [OF st4(2)] h4]
      unfolding import_block_internal_def Let_def root_def [symmetric] with_block_def [symmetric] by simp
    then show "import_block_internal L st sb s incl = Inr st5" using st5(1) by simp
    have "fc_latest_finalized st5 = fc_latest_finalized st4" "fc_latest_justified st5 = fc_latest_justified st4"
      using st5(2) by (simp_all add: same_tree_def)
    moreover have k5: "known st5 = known st4" by (rule same_tree_known [OF st5(2)])
    ultimately show "cp_slot (fc_latest_finalized st5) = max (cp_slot (fc_latest_finalized st)) (cp_slot (st_latest_finalized s))"
        "fc_latest_justified st5 = next_justified st s \<or>
          (fc_latest_justified st5 = fc_latest_finalized st5 \<and> \<not> known st5 (cp_root (next_justified st s)))"
      using st4(3,4) f3(1) nj by simp_all
    show "r = block_root L (block_of sb) \<or> known st r" if "known st5 r" for r
      using that k5 st4(5) f3(3) by (simp add: root_def)
    show "known st5 r \<longleftrightarrow> r = block_root L (block_of sb) \<or> known st r"
      if "cp_slot (st_latest_finalized s) \<le> cp_slot (fc_latest_finalized st)" for r
      using that k5 st4(6) f3(1,3) by (simp add: root_def)
  qed
qed

end
