(* ===== verification/EventSystem.thy ===== *)
theory EventSystem
  imports Prelude
begin

text \<open>
  Components that react to events: an operation takes the state and an event and returns
  the new state or an error. \<open>event_invariant\<close> is a component with an invariant, a guard that
  says which events may arrive, and a notion of progress that every step makes;
  \<open>event_system\<close> is one whose steps also succeed, so that it never gets stuck. The first is
  interpreted for the disk-backed store, the second for the fork-choice store and for the
  networking state.
\<close>

fun run_events :: "('s \<Rightarrow> 'e \<Rightarrow> 's result) \<Rightarrow> 's \<Rightarrow> 'e list \<Rightarrow> 's result" where
  "run_events step s [] = Inr s"
| "run_events step s (e # es) = and_then (step s e) (\<lambda>s. run_events step s es)"

inductive reaches :: "('s \<Rightarrow> 'e \<Rightarrow> 's result) \<Rightarrow> ('s \<Rightarrow> 'e \<Rightarrow> bool) \<Rightarrow> 's \<Rightarrow> 's \<Rightarrow> bool"
  for step guard s where
  start: "reaches step guard s s"
| event: "reaches step guard s t \<Longrightarrow> guard t e \<Longrightarrow> step t e = Inr t' \<Longrightarrow> reaches step guard s t'"

inductive_cases reachesE: "reaches step guard s t"

fun guarded_run :: "('s \<Rightarrow> 'e \<Rightarrow> 's result) \<Rightarrow> ('s \<Rightarrow> 'e \<Rightarrow> bool) \<Rightarrow> 's \<Rightarrow> 'e list \<Rightarrow> bool" where
  "guarded_run step guard s [] = True"
| "guarded_run step guard s (e # es) =
     (guard s e \<and> (case step s e of Inl _ \<Rightarrow> True | Inr s' \<Rightarrow> guarded_run step guard s' es))"

lemma reaches_run:
  assumes "reaches step guard s0 s" "guarded_run step guard s es" "run_events step s es = Inr t"
  shows "reaches step guard s0 t"
  using assms
proof (induction es arbitrary: s)
  case (Cons e es)
  then obtain u where u: "step s e = Inr u" "run_events step u es = Inr t" by (auto simp: and_then_eq_Inr)
  then show ?case using Cons.IH [of u] Cons.prems reaches.event [OF Cons.prems(1), of e u] by simp
qed simp

locale event_invariant =
  fixes step :: "'s \<Rightarrow> 'e \<Rightarrow> 's result" and guard :: "'s \<Rightarrow> 'e \<Rightarrow> bool"
    and inv :: "'s \<Rightarrow> bool" and progress :: "'s \<Rightarrow> 's \<Rightarrow> bool"
  assumes step_inv: "inv s \<Longrightarrow> guard s e \<Longrightarrow> step s e = Inr s' \<Longrightarrow> inv s' \<and> progress s s'"
    and progress_refl: "progress s s"
    and progress_trans: "progress s t \<Longrightarrow> progress t u \<Longrightarrow> progress s u"
begin

lemma reaches_inv:
  assumes "reaches step guard s t" "inv s"
  shows "inv t \<and> progress s t"
  using assms
proof induction
  case (event t e t')
  then have "inv t' \<and> progress t t'" using step_inv by blast
  then show ?case using event progress_trans by blast
qed (simp add: progress_refl)

end

locale event_system = event_invariant +
  assumes step_defined: "inv s \<Longrightarrow> guard s e \<Longrightarrow> \<exists>s'. step s e = Inr s'"
begin

lemma never_stuck:
  assumes "reaches step guard s t" "inv s" "guard t e"
  obtains t' where "step t e = Inr t'" "inv t'" "progress s t'"
  using reaches_inv [OF assms(1,2)] step_defined [OF _ assms(3)] step_inv [OF _ assms(3)] progress_trans by blast

lemma run_total:
  assumes "inv s" "guarded_run step guard s es"
  shows "\<exists>s'. run_events step s es = Inr s' \<and> inv s' \<and> progress s s'"
  using assms
proof (induction es arbitrary: s)
  case (Cons e es)
  then obtain u where u: "step s e = Inr u" "inv u" "progress s u" using step_defined step_inv by fastforce
  then obtain s' where "run_events step u es = Inr s'" "inv s'" "progress u s'"
    using Cons by fastforce
  then show ?case using u progress_trans by auto
qed (simp add: progress_refl)

end

end
