(* ===== verification/ForkChoiceProps.thy ===== *)
theory ForkChoiceProps
  imports ForkChoiceOps SampleLib EventSystem
begin

text \<open>
  The fork-choice store as an event system: it starts at an anchor and reacts to blocks,
  attestations and the ticks of the slot clock. The properties of the store follow from the
  specifications of its operations in \<open>ForkChoiceOps\<close>.
\<close>

section \<open>The anchor\<close>

lemma fork_choice_new_spec:
  assumes sm: "state_matches_block_root L s (b_state_root (block_of sb))"
    and root: "block_root L (block_of sb) \<noteq> zero_root"
      "b_parent_root (block_of sb) \<noteq> block_root L (block_of sb)"
  obtains st where "fork_choice_new L sb s = Inr st" "fc_inv st" "settled st"
    "fc_head st = block_root L (block_of sb)" "\<And>r. known st r \<longleftrightarrow> r = block_root L (block_of sb)"
    "fc_latest_finalized st = (st_latest_finalized s)\<lparr>cp_root := block_root L (block_of sb)\<rparr>"
    "fc_blocks st = [(block_root L (block_of sb), sb)]" "fc_states st = [(block_root L (block_of sb), s)]"
    "fc_parents st = [(block_root L (block_of sb), b_parent_root (block_of sb))]"
proof -
  define r where "r = block_root L (block_of sb)"
  define p where "p = b_parent_root (block_of sb)"
  obtain st where st: "fork_choice_new L sb s = Inr st" using sm by (simp add: fork_choice_new_def Let_def)
  have f: "fc_blocks st = [(r, sb)]" "fc_states st = [(r, s)]" "fc_parents st = [(r, p)]"
      "fc_children st = [(p, [r])]" "fc_nodes st = [new_node r None (b_slot (block_of sb)) (b_proposer_index (block_of sb))]"
      "fc_node_indices st = [(r, 0)]" "fc_latest_votes st = []" "fc_latest_new_votes st = []"
      "fc_head st = r" "fc_safe_target st = r" "fc_head_slot st = b_slot (block_of sb)"
      "cp_root (fc_latest_justified st) = r"
      "fc_latest_finalized st = (st_latest_finalized s)\<lparr>cp_root := r\<rparr>"
    using st sm by (auto simp: fork_choice_new_def Let_def override_checkpoint_roots_def push_child_def
        r_def p_def)
  have rp: "r \<noteq> zero_root" "p \<noteq> r" using root by (simp_all add: r_def p_def)
  have k: "known st x \<longleftrightarrow> x = r" for x by (auto simp: known_def f hm_contains_def)
  have ch: "children_of st x = (if x = p then {r} else {})" for x by (simp add: children_of_def f)
  have m: "maps_inv st"
    unfolding maps_inv_def k ch by (auto simp: f rp hm_wf_def hm_contains_def)
  have n: "nodes_inv st"
    unfolding nodes_inv_def k using rp by (auto simp: f hm_contains_def new_node_def)
  have "tree_inv (fc_nodes st)" by (auto simp: tree_inv_def f new_node_def children_set_def)
  then have v: "fc_votes_inv st"
    by (auto simp: fc_votes_inv_def arena_inv_def f support_def new_node_def best_inv_def is_best_def
        children_set_def)
  have tp: "tree_part st" using m n v by (simp add: tree_part_def)
  have edges: "tree_edges st = {}" using rp by (auto simp: tree_edges_def k f)
  have "safe_anchor st = r" by (simp add: safe_anchor_def f hm_contains_def)
  then have "is_safe_target st r"
    by (auto simp: is_safe_target_def f most_preferred_def safe_candidate_def k)
  then have "settled st" by (simp add: settled_def f ghost.leaf child_roots_def edges)
  moreover have "fc_inv st" using tp by (simp add: fc_inv_def head_inv_def k f)
  ultimately show ?thesis using that st f k by (simp add: r_def p_def)
qed

section \<open>Proposals\<close>

definition ghost_head :: "fork_choice_store \<Rightarrow> bool" where
  "ghost_head st \<longleftrightarrow> (known st (cp_root (fc_latest_justified st)) \<longrightarrow>
     ghost st (cp_root (fc_latest_justified st)) (fc_head st))"

lemma get_proposal_head_spec:
  assumes inv: "fc_inv st"
  obtains st' where "get_proposal_head st = Inr (fc_head st', st')" "fc_inv st'"
    "ghost_head st'"
    "hm_get (fc_latest_votes st') = hm_get (fc_latest_votes st) ++ hm_get (fc_latest_new_votes st)"
    "fc_latest_new_votes st' = []" "fc_blocks st' = fc_blocks st"
    "fc_latest_justified st' = fc_latest_justified st" "fc_latest_finalized st' = fc_latest_finalized st"
proof -
  obtain st1 where st1: "accept_new_votes st = Inr st1" "fc_inv st1"
    "hm_get (fc_latest_votes st1) = hm_get (fc_latest_votes st) ++ hm_get (fc_latest_new_votes st)"
    "fc_latest_new_votes st1 = []" "fc_blocks st1 = fc_blocks st"
    "fc_latest_justified st1 = fc_latest_justified st" "fc_latest_finalized st1 = fc_latest_finalized st"
    by (rule accept_new_votes_spec [OF inv])
  note h1 = head_inv_known [OF fc_inv_parts(2) [OF st1(2)]]
  obtain h where h: "find_head st1 = Inr h"
      "if known st1 (cp_root (fc_latest_justified st1))
       then ghost st1 (cp_root (fc_latest_justified st1)) h \<and> known st1 h else h = fc_head st1"
    by (rule find_head_spec [OF fc_inv_parts(1) [OF st1(2)]])
  have "known st1 h" using h(2) h1 by (auto split: if_splits)
  then obtain sb where sb: "hm_get (fc_blocks st1) h = Some sb" by (auto simp: known_def hm_contains_def)
  let ?st = "st1\<lparr>fc_head := h, fc_head_slot := b_slot (block_of sb)\<rparr>"
  have t: "same_tree st1 ?st" by (simp add: same_tree_def)
  show ?thesis
  proof (rule that [of ?st])
    show "get_proposal_head st = Inr (fc_head ?st, ?st)"
      using st1(1) h(1) sb by (simp add: get_proposal_head_def move_head_def)
    show "fc_inv ?st" using st1(2) sb by (simp add: fc_inv_def head_inv_def)
    show "ghost_head ?st" using h(2) same_tree_ghost [OF t] by (simp add: ghost_head_def)
  qed (use st1 in simp_all)
qed

lemma get_proposal_head_with_pending_spec:
  assumes inv: "fc_inv st"
  obtains st' where "get_proposal_head_with_pending st votes = Inr (fc_head st', st')" "fc_inv st'"
    "ghost_head st'"
    "fc_latest_new_votes st' = []" "fc_blocks st' = fc_blocks st"
    "fc_latest_justified st' = fc_latest_justified st" "fc_latest_finalized st' = fc_latest_finalized st"
proof -
  obtain st1 where st1: "apply_all_votes st Pending votes = Inr st1" "fc_inv st1" "votes_only st st1"
    by (rule votes_ok_fc_inv [OF inv apply_all_votes_ok [OF fc_inv_parts(1) [OF inv]]])
  obtain st2 where st2: "accept_new_votes st1 = Inr st2" "fc_inv st2" "fc_blocks st2 = fc_blocks st1"
    "fc_latest_justified st2 = fc_latest_justified st1" "fc_latest_finalized st2 = fc_latest_finalized st1"
    by (rule accept_new_votes_spec [OF st1(2)])
  obtain st' where st': "get_proposal_head st2 = Inr (fc_head st', st')" "fc_inv st'"
    "ghost_head st'"
    "hm_get (fc_latest_votes st') = hm_get (fc_latest_votes st2) ++ hm_get (fc_latest_new_votes st2)"
    "fc_latest_new_votes st' = []" "fc_blocks st' = fc_blocks st2"
    "fc_latest_justified st' = fc_latest_justified st2" "fc_latest_finalized st' = fc_latest_finalized st2"
    by (rule get_proposal_head_spec [OF st2(2)])
  show ?thesis
    by (rule that [OF _ st'(2,3,5)])
      (use st1(1) st2 st' votes_only_sel [OF st1(3)] in \<open>simp_all add: get_proposal_head_with_pending_def\<close>)
qed

section \<open>The event system\<close>

text \<open>The events are the calls of the public operations that change the store.\<close>

datatype fc_event =
    Block signed_block state
  | Vote attestation
  | Tick_accept
  | Tick_safe_target
  | Propose "attestation list"

definition fc_step :: "ssz_lib \<Rightarrow> fork_choice_store \<Rightarrow> fc_event \<Rightarrow> fork_choice_store result" where
  "fc_step L st ev =
     (case ev of
        Block sb s \<Rightarrow> on_block L st sb s
      | Vote att \<Rightarrow> and_then (on_attestation st att) (\<lambda>(_, st). Inr st)
      | Tick_accept \<Rightarrow> accept_new_votes st
      | Tick_safe_target \<Rightarrow> update_safe_target st
      | Propose votes \<Rightarrow> and_then (get_proposal_head_with_pending st votes) (\<lambda>(_, st). Inr st))"

definition fc_guard :: "ssz_lib \<Rightarrow> fork_choice_store \<Rightarrow> fc_event \<Rightarrow> bool" where
  "fc_guard L st ev =
     (case ev of
        Block sb s \<Rightarrow> importable L st sb \<and> state_matches_block_root L s (b_state_root (block_of sb))
      | _ \<Rightarrow> True)"

definition finality_kept :: "fork_choice_store \<Rightarrow> fork_choice_store \<Rightarrow> bool" where
  "finality_kept st st' \<longleftrightarrow> cp_slot (fc_latest_finalized st) \<le> cp_slot (fc_latest_finalized st')"

lemma update_safe_target_spec:
  assumes inv: "fc_inv st"
  obtains b where "update_safe_target st = Inr (st\<lparr>fc_safe_target := b\<rparr>)" "is_safe_target st b"
    "fc_inv (st\<lparr>fc_safe_target := b\<rparr>)"
proof -
  obtain b where "refresh_safe_target st = Inr (st\<lparr>fc_safe_target := b\<rparr>)" "is_safe_target st b" "known st b"
    by (rule refresh_safe_target_spec [OF fc_inv_parts(1) [OF inv] head_inv_known [OF fc_inv_parts(2) [OF inv]]])
  then show ?thesis using that inv by (simp add: update_safe_target_def fc_inv_def head_inv_def)
qed

lemma fc_step_total:
  assumes inv: "fc_inv st" and g: "fc_guard L st ev"
  shows "\<exists>st'. fc_step L st ev = Inr st' \<and> fc_inv st' \<and> finality_kept st st'"
proof (cases ev)
  case (Block sb s)
  then have "importable L st sb" "state_matches_block_root L s (b_state_root (block_of sb))"
    using g by (simp_all add: fc_guard_def)
  from import_block_spec [OF inv this, of True] obtain st' where
    "import_block_internal L st sb s True = Inr st'" "fc_inv st'"
    "cp_slot (fc_latest_finalized st') = max (cp_slot (fc_latest_finalized st)) (cp_slot (st_latest_finalized s))"
    by metis
  then show ?thesis by (simp add: Block fc_step_def on_block_def finality_kept_def)
next
  case (Vote att)
  obtain st' where "on_attestation st att = Inr (known st (cp_root (ad_head (att_data att))), st')"
    "fc_inv st'" "votes_only st st'" by (rule on_attestation_spec [OF inv])
  then show ?thesis by (simp add: Vote fc_step_def finality_kept_def votes_only_sel)
next
  case Tick_accept
  obtain st' where "accept_new_votes st = Inr st'" "fc_inv st'"
    "fc_latest_finalized st' = fc_latest_finalized st" by (rule accept_new_votes_spec [OF inv])
  then show ?thesis by (simp add: Tick_accept fc_step_def finality_kept_def)
next
  case Tick_safe_target
  obtain b where "update_safe_target st = Inr (st\<lparr>fc_safe_target := b\<rparr>)" "fc_inv (st\<lparr>fc_safe_target := b\<rparr>)"
    by (rule update_safe_target_spec [OF inv])
  then show ?thesis by (simp add: Tick_safe_target fc_step_def finality_kept_def)
next
  case (Propose votes)
  obtain st' where "get_proposal_head_with_pending st votes = Inr (fc_head st', st')" "fc_inv st'"
    "fc_latest_finalized st' = fc_latest_finalized st"
    by (rule get_proposal_head_with_pending_spec [OF inv])
  then show ?thesis by (simp add: Propose fc_step_def finality_kept_def)
qed

interpretation fc_events: event_system "fc_step L" "fc_guard L" fc_inv finality_kept
proof unfold_locales
  show "fc_inv s \<Longrightarrow> fc_guard L s e \<Longrightarrow> fc_step L s e = Inr s' \<Longrightarrow> fc_inv s' \<and> finality_kept s s'" for s e s'
    using fc_step_total [of s L e] by auto
  show "fc_inv s \<Longrightarrow> fc_guard L s e \<Longrightarrow> \<exists>s'. fc_step L s e = Inr s'" for s e
    using fc_step_total [of s L e] by blast
qed (auto simp: finality_kept_def)

section \<open>A concrete store\<close>

definition sample_block :: "slot \<Rightarrow> bytes32 \<Rightarrow> signed_block" where
  "sample_block slot parent = \<lparr>
     sb_message = \<lparr>
       bwa_block = \<lparr>b_slot = slot, b_proposer_index = slot, b_parent_root = parent, b_state_root = 11,
                    b_body = \<lparr>bb_attestations = []\<rparr>\<rparr>,
       bwa_proposer_attestation = \<lparr>att_bits = proposer_bits 0,
         att_data = \<lparr>ad_slot = slot, ad_head = \<lparr>cp_root = parent, cp_slot = 0\<rparr>,
           ad_target = \<lparr>cp_root = parent, cp_slot = 0\<rparr>, ad_source = \<lparr>cp_root = parent, cp_slot = 0\<rparr>\<rparr>\<rparr>\<rparr>,
     sb_signature = \<lparr>bs_attestation_signatures = [], bs_proposer_signature = 0\<rparr>\<rparr>"

definition sample_store :: fork_choice_store where
  "sample_store = (case fork_choice_new sample_lib (sample_block 0 0) sample_state of
     Inl _ \<Rightarrow> undefined | Inr st \<Rightarrow> st)"

lemma uint64_root_sample:
  "uint64_root 0 = 0"
  "uint64_root 1 = 0x100000000000000000000000000000000000000000000000000000000000000"
proof -
  have le: "le64 0 = [0, 0, 0, 0, 0, 0, 0, 0]" "le64 1 = [1, 0, 0, 0, 0, 0, 0, 0]" by code_simp+
  show "uint64_root 0 = 0"
    "uint64_root 1 = 0x100000000000000000000000000000000000000000000000000000000000000"
    unfolding uint64_root_def le from_be_bytes_def by (simp_all add: eval_nat_numeral)
qed

lemma sample_block_root:
  "block_root sample_lib (block_of (sample_block 0 0)) = 26781"
  "block_root sample_lib (block_of (sample_block 1 26781)) =
     18 * 0x100000000000000000000000000000000000000000000000000000000000000 + 2035356"
  by (simp_all add: block_root_def block_body_root_def sample_block_def sample_hash_def sample_seq_def
      slot_root_def validator_index_root_def uint64_root_sample)

lemma sample_state_matches: "state_matches_block_root L sample_state 11"
  by (simp add: state_matches_block_root_def sample_state_def)

lemma sample_block_sel [simp]:
  "b_slot (block_of (sample_block s p)) = s" "b_parent_root (block_of (sample_block s p)) = p"
  "b_state_root (block_of (sample_block s p)) = 11"
  by (simp_all add: sample_block_def)

lemma sample_store_new:
  "fork_choice_new sample_lib (sample_block 0 0) sample_state = Inr sample_store"
  "fc_inv sample_store" "settled sample_store" "fc_head sample_store = 26781"
  "known sample_store r \<longleftrightarrow> r = 26781" "fc_latest_finalized sample_store = \<lparr>cp_root = 26781, cp_slot = 0\<rparr>"
  "fc_blocks sample_store = [(26781, sample_block 0 0)]" "fc_parents sample_store = [(26781, 0)]"
proof -
  obtain st where "fork_choice_new sample_lib (sample_block 0 0) sample_state = Inr st" "fc_inv st" "settled st"
    "fc_head st = block_root sample_lib (block_of (sample_block 0 0))"
    "\<And>r. known st r \<longleftrightarrow> r = block_root sample_lib (block_of (sample_block 0 0))"
    "fc_latest_finalized st = (st_latest_finalized sample_state)\<lparr>cp_root := block_root sample_lib (block_of (sample_block 0 0))\<rparr>"
    "fc_blocks st = [(block_root sample_lib (block_of (sample_block 0 0)), sample_block 0 0)]"
    "fc_parents st = [(block_root sample_lib (block_of (sample_block 0 0)), b_parent_root (block_of (sample_block 0 0)))]"
    by (rule fork_choice_new_spec [of sample_lib sample_state "sample_block 0 0"])
      (simp_all add: sample_state_matches sample_block_root zero_root_def)
  moreover from this have "sample_store = st" by (simp add: sample_store_def)
  ultimately show "fork_choice_new sample_lib (sample_block 0 0) sample_state = Inr sample_store"
    "fc_inv sample_store" "settled sample_store" "fc_head sample_store = 26781"
    "known sample_store r \<longleftrightarrow> r = 26781" "fc_latest_finalized sample_store = \<lparr>cp_root = 26781, cp_slot = 0\<rparr>"
    "fc_blocks sample_store = [(26781, sample_block 0 0)]" "fc_parents sample_store = [(26781, 0)]"
    by (simp_all add: sample_block_root sample_state_def)
qed

lemma sample_store_justified: "cp_root (fc_latest_justified sample_store) = 26781"
  using sample_store_new(1)
  by (simp add: fork_choice_new_def sample_state_matches sample_block_root override_checkpoint_roots_def)
    (drule arg_cong [where f = "\<lambda>st. cp_root (fc_latest_justified st)"], simp)

lemma sample_importable: "importable sample_lib sample_store (sample_block 1 26781)"
  by (simp add: importable_def Let_def sample_block_root sample_store_new zero_root_def)

lemma sample_guard: "fc_guard sample_lib sample_store (Block (sample_block 1 26781) sample_state)"
  by (simp add: fc_guard_def sample_importable sample_state_matches)

section \<open>A store with a fork\<close>

text \<open>Two blocks compete on top of the anchor. The proposers vote for the anchor, so the two
  tie and the smaller root \<open>root_a\<close> is the head; a vote of another validator then makes
  \<open>root_b\<close> the head.\<close>

definition root_a :: bytes32 where "root_a = block_root sample_lib (block_of (sample_block 1 26781))"

definition root_b :: bytes32 where "root_b = block_root sample_lib (block_of (sample_block 2 26781))"

definition fork_vote :: "bytes32 \<Rightarrow> attestation" where
  "fork_vote r = \<lparr>att_bits = proposer_bits 1,
     att_data = \<lparr>ad_slot = 2, ad_head = \<lparr>cp_root = r, cp_slot = 2\<rparr>,
       ad_target = \<lparr>cp_root = r, cp_slot = 2\<rparr>, ad_source = \<lparr>cp_root = 26781, cp_slot = 0\<rparr>\<rparr>\<rparr>"

definition sample_fork :: "bytes32 \<Rightarrow> u64 \<Rightarrow> u64 \<Rightarrow> nat \<Rightarrow> int \<Rightarrow> (nat, bytes32) hmap \<Rightarrow> fork_choice_store" where
  "sample_fork head head_slot reorgs best weight_b votes =
     sample_store\<lparr>fc_head := head, fc_head_slot := head_slot, fc_reorgs_total := reorgs,
       fc_blocks := [(26781, sample_block 0 0), (root_a, sample_block 1 26781), (root_b, sample_block 2 26781)],
       fc_states := [(26781, sample_state), (root_a, sample_state), (root_b, sample_state)],
       fc_parents := [(26781, 0), (root_a, 26781), (root_b, 26781)],
       fc_children := [(0, [26781]), (26781, [root_a, root_b])],
       fc_nodes :=
         [\<lparr>pn_root = 26781, pn_parent = None, pn_children = [1, 2], pn_slot = 0, pn_proposer_index = 0,
           pn_weight = 1 + weight_b, pn_best_child = Some best\<rparr>,
          new_node root_a (Some 0) 1 1, (new_node root_b (Some 0) 2 2)\<lparr>pn_weight := weight_b\<rparr>],
       fc_node_indices := [(26781, 0), (root_a, 1), (root_b, 2)],
       fc_latest_votes := votes, fc_latest_new_votes := []\<rparr>"

definition sample_tie :: fork_choice_store where
  "sample_tie = sample_fork root_a 1 0 1 0 [(0, 26781)]"

definition sample_voted :: fork_choice_store where
  "sample_voted = sample_fork root_b 2 1 2 1 [(0, 26781), (1, root_b)]"

lemma root_order: "26781 < root_a" "root_a < root_b"
proof -
  have "le64 2 = [2, 0, 0, 0, 0, 0, 0, 0]" by code_simp
  then have "uint64_root 2 = 0x200000000000000000000000000000000000000000000000000000000000000"
    unfolding uint64_root_def from_be_bytes_def by (simp add: eval_nat_numeral take_bit_Suc)
  then have b: "root_b = 36 * 0x100000000000000000000000000000000000000000000000000000000000000 + 2035356"
    by (simp add: root_b_def block_root_def block_body_root_def sample_block_def sample_hash_def
        sample_seq_def slot_root_def validator_index_root_def uint64_root_sample)
  show "26781 < root_a" by (simp add: root_a_def sample_block_root)
  show "root_a < root_b" unfolding b by (simp add: root_a_def sample_block_root)
qed

lemma root_distinct:
  "root_a \<noteq> 0" "root_b \<noteq> 0" "root_a \<noteq> 26781" "root_b \<noteq> 26781" "root_a \<noteq> root_b" "root_b \<noteq> root_a"
  "26781 \<noteq> root_a" "26781 \<noteq> root_b" "0 \<noteq> root_a" "0 \<noteq> root_b" "root_a < root_b" "\<not> root_b < root_a"
  using root_order by auto

lemma sample_parts:
  "bitlist_indices (proposer_bits 0) = [0]" "bitlist_indices (proposer_bits (Suc 0)) = [Suc 0]"
  "b_body (block_of (sample_block s p)) = \<lparr>bb_attestations = []\<rparr>"
  "b_proposer_index (block_of (sample_block s p)) = s"
  "att_bits (bwa_proposer_attestation (sb_message (sample_block s p))) = proposer_bits 0"
  "cp_root (ad_head (att_data (bwa_proposer_attestation (sb_message (sample_block s p))))) = p"
  "length (st_validators sample_state) = 3"
  "st_latest_finalized sample_state = \<lparr>cp_root = 0, cp_slot = 0\<rparr>"
  "st_latest_justified sample_state = \<lparr>cp_root = 0, cp_slot = 0\<rparr>"
proof -
  show "bitlist_indices (proposer_bits 0) = [0]" "bitlist_indices (proposer_bits (Suc 0)) = [Suc 0]"
    by code_simp+
qed (simp_all add: sample_block_def sample_state_def)

lemmas fork_eval = root_distinct sample_parts root_a_def [symmetric] root_b_def [symmetric]
  sample_store_def fork_choice_new_def Let_def sample_block_root(1) sample_state_matches
  override_checkpoint_roots_def push_child_def new_node_def on_block_def import_block_internal_def
  insert_proto_node_def hm_contains_def attach_child_def index_at_def recompute_best_child_def
  attach_known_children_def apply_attestation_votes_def resolve_vote_root_def set_latest_vote_def
  apply_vote_delta_def propagate_weight_from_index_def advance_checkpoints_def find_head_def move_head_def
  count_reorg_def head_change_is_reorg_def is_reorg_loop.simps refresh_safe_target_def safe_anchor_def
  is_descendant_def is_descendant_loop.simps subtree_weight_def child_is_better_def zero_root_def
  sample_fork_def sample_tie_def sample_voted_def fc_step_def

lemma sample_tie_run:
  "run_events (fc_step sample_lib) sample_store
     [Block (sample_block 1 26781) sample_state, Block (sample_block 2 26781) sample_state] = Inr sample_tie"
  "guarded_run (fc_step sample_lib) (fc_guard sample_lib) sample_store
     [Block (sample_block 1 26781) sample_state, Block (sample_block 2 26781) sample_state]"
  by (simp_all add: fork_eval fc_guard_def importable_def)

lemma sample_voted_run:
  "run_events (fc_step sample_lib) sample_tie [Vote (fork_vote root_b), Tick_accept] = Inr sample_voted"
  by (simp add: fork_eval on_attestation_def fork_vote_def accept_new_votes_def)

lemma sample_fork_reached:
  "reaches (fc_step sample_lib) (fc_guard sample_lib) sample_store sample_tie"
  "reaches (fc_step sample_lib) (fc_guard sample_lib) sample_store sample_voted"
proof -
  show "reaches (fc_step sample_lib) (fc_guard sample_lib) sample_store sample_tie"
    by (rule reaches_run [OF reaches.start sample_tie_run(2,1)])
  from reaches_run [OF this _ sample_voted_run]
  show "reaches (fc_step sample_lib) (fc_guard sample_lib) sample_store sample_voted"
    by (simp add: fc_guard_def split: sum.split)
qed

lemma sample_fork_heads:
  "find_head sample_tie = Inr root_a" "find_head sample_voted = Inr root_b"
  "fc_head sample_voted = root_b" "cp_root (fc_latest_justified sample_tie) = 26781"
  "cp_root (fc_latest_justified sample_voted) = 26781" "known sample_tie 26781" "known sample_voted 26781"
  by (simp_all add: fork_eval known_def)

section \<open>Attestation targets and weights\<close>

lemma attestation_target_returns:
  assumes inv: "fc_inv st"
  shows "\<exists>t. attestation_target st f = Inr t"
proof (cases "lookback_loop JUSTIFICATION_LOOKBACK_SLOTS st (safe_target_slot st) (fc_head st)")
  case (Some r)
  note tp = fc_inv_parts(1) [OF inv]
  have "\<exists>t. justifiable_loop (length (fc_parents st)) st f r = Inr t"
  proof (cases "known st r")
    case True
    then show ?thesis using justifiable_loop_total [OF tp True depth_bound [OF tp True]] by blast
  next
    case False
    then show ?thesis by (subst justifiable_loop.simps) (simp add: known_def hm_contains_def)
  qed
  then show ?thesis using Some by (auto simp: attestation_target_def split: option.split)
qed (simp add: attestation_target_def)

lemma edge_relpow:
  assumes "(r, p) \<in> tree_edges st"
  shows "(r, y) \<in> tree_edges st ^^ Suc j \<longleftrightarrow> (p, y) \<in> tree_edges st ^^ j"
proof
  assume "(r, y) \<in> tree_edges st ^^ Suc j"
  then obtain z where "(r, z) \<in> tree_edges st" "(z, y) \<in> tree_edges st ^^ j" by (elim relpow_Suc_E2)
  then show "(p, y) \<in> tree_edges st ^^ j" using assms by (simp add: tree_edges_def)
qed (rule relpow_Suc_I2 [OF assms])

lemma edge_slot_of:
  assumes "tree_part st" and "(r, p) \<in> tree_edges st"
  shows "slot_of st p < slot_of st r"
proof -
  obtain sb psb where "hm_get (fc_blocks st) r = Some sb" "hm_get (fc_blocks st) p = Some psb"
    using assms(2) by (auto simp: tree_edges_def known_def hm_contains_def)
  then show ?thesis using edge_slot [OF assms] by (simp add: slot_of_def)
qed

lemma chain_slot_of:
  assumes "tree_part st" and "(r, a) \<in> (tree_edges st)\<^sup>*"
  shows "slot_of st a \<le> slot_of st r"
  using assms(2)
proof induction
  case (step y z)
  then show ?case using edge_slot_of [OF assms(1) step.hyps(2)] by simp
qed simp

lemma chain_step:
  assumes tp: "tree_part st" and r: "(r, a) \<in> (tree_edges st)\<^sup>*" "known st r" "r \<noteq> a"
  obtains p where "hm_get (fc_parents st) r = Some p" "(r, p) \<in> tree_edges st" "p \<noteq> zero_root"
    "(p, a) \<in> (tree_edges st)\<^sup>*" "known st p"
  by (cases rule: parent_cases [OF tp r(2)]) (use r that in \<open>auto simp: tree_edges_def\<close>)

lemma is_justifiable_after_defined: "f \<le> c \<Longrightarrow> \<exists>b. is_justifiable_after c f = Inr b"
  by (cases "is_justifiable_after c f") (auto simp: is_justifiable_after_def Let_def split: if_splits)

lemma lookback_loop_steps:
  assumes tp: "tree_part st" and a: "hm_get (fc_parents st) a = Some zero_root"
  shows "known st r \<Longrightarrow> (r, a) \<in> (tree_edges st)\<^sup>* \<Longrightarrow>
    \<exists>k t. lookback_loop n st safe r = Some t \<and> k \<le> n \<and> (r, t) \<in> tree_edges st ^^ k \<and>
      (k < n \<longrightarrow> slot_of st t \<le> safe \<or> t = a) \<and>
      (\<forall>j < k. \<forall>y. (r, y) \<in> tree_edges st ^^ j \<longrightarrow> safe < slot_of st y) \<and>
      known st t \<and> (t, a) \<in> (tree_edges st)\<^sup>*"
proof (induction n arbitrary: r)
  case 0
  then show ?case by (intro exI [of _ 0] exI [of _ r]) simp
next
  case (Suc n)
  obtain sb where sb: "hm_get (fc_blocks st) r = Some sb" "slot_of st r = b_slot (block_of sb)"
    using Suc.prems(1) by (auto simp: known_def hm_contains_def slot_of_def)
  show ?case
  proof (cases "slot_of st r \<le> safe \<or> r = a")
    case True
    then have "lookback_loop (Suc n) st safe r = Some r" using sb a by auto
    then show ?thesis using Suc.prems True by (intro exI [of _ 0] exI [of _ r]) auto
  next
    case False
    then obtain p where p: "hm_get (fc_parents st) r = Some p" "(r, p) \<in> tree_edges st" "p \<noteq> zero_root"
      "(p, a) \<in> (tree_edges st)\<^sup>*" "known st p"
      using chain_step [OF tp Suc.prems(2,1)] by blast
    obtain k t where t: "lookback_loop n st safe p = Some t" "k \<le> n" "(p, t) \<in> tree_edges st ^^ k"
      "k < n \<longrightarrow> slot_of st t \<le> safe \<or> t = a" "known st t" "(t, a) \<in> (tree_edges st)\<^sup>*"
      "\<forall>j < k. \<forall>y. (p, y) \<in> tree_edges st ^^ j \<longrightarrow> safe < slot_of st y"
      using Suc.IH [OF p(5,4)] by blast
    have "safe < slot_of st y" if "j < Suc k" "(r, y) \<in> tree_edges st ^^ j" for j y
    proof (cases j)
      case 0
      then show ?thesis using that False by (simp add: not_le)
    next
      case (Suc i)
      then show ?thesis using that t(7) edge_relpow [OF p(2), of y i] by simp
    qed
    then show ?thesis
      using t p(1,3) sb False edge_relpow [OF p(2), of t k]
      by (intro exI [of _ "Suc k"] exI [of _ t]) auto
  qed
qed

lemma justifiable_loop_steps:
  assumes tp: "tree_part st" and a: "hm_get (fc_parents st) a = Some zero_root" "slot_of st a = f"
  shows "known st r \<Longrightarrow> (r, a) \<in> (tree_edges st)\<^sup>* \<Longrightarrow> depth st r \<le> fuel \<Longrightarrow>
    \<exists>m x. justifiable_loop fuel st f r = Inr (Some x) \<and> (r, x) \<in> tree_edges st ^^ m \<and>
      is_justifiable_after (slot_of st x) f = Inr True \<and> known st x \<and>
      (\<forall>j < m. \<forall>y. (r, y) \<in> tree_edges st ^^ j \<longrightarrow> is_justifiable_after (slot_of st y) f = Inr False)"
proof (induction fuel arbitrary: r)
  case 0
  then show ?case using depth_pos [OF tp, of r] by simp
next
  case (Suc fuel)
  obtain sb where sb: "hm_get (fc_blocks st) r = Some sb" "slot_of st r = b_slot (block_of sb)"
    using Suc.prems(1) by (auto simp: known_def hm_contains_def slot_of_def)
  have ge: "f \<le> slot_of st r" using chain_slot_of [OF tp Suc.prems(2)] a(2) by simp
  then obtain b where "is_justifiable_after (slot_of st r) f = Inr b"
    using is_justifiable_after_defined by blast
  then consider "is_justifiable_after (slot_of st r) f = Inr True"
    | "is_justifiable_after (slot_of st r) f = Inr False"
    by (cases b) auto
  then show ?case
  proof cases
    case 1
    then have "justifiable_loop (Suc fuel) st f r = Inr (Some r)"
      using sb by (subst justifiable_loop.simps) simp
    then show ?thesis using 1 Suc.prems by (intro exI [of _ 0] exI [of _ r]) auto
  next
    case 2
    have "r \<noteq> a" using 2 a(2) is_justifiable_after_near [of f f] by auto
    then obtain p where p: "hm_get (fc_parents st) r = Some p" "(r, p) \<in> tree_edges st" "p \<noteq> zero_root"
      "(p, a) \<in> (tree_edges st)\<^sup>*" "known st p"
      using chain_step [OF tp Suc.prems(2,1)] by blast
    have "depth st p \<le> fuel" using depth_parent [OF tp p(2)] Suc.prems(3) by simp
    then obtain m x where x: "justifiable_loop fuel st f p = Inr (Some x)" "(p, x) \<in> tree_edges st ^^ m"
      "is_justifiable_after (slot_of st x) f = Inr True" "known st x"
      "\<forall>j < m. \<forall>y. (p, y) \<in> tree_edges st ^^ j \<longrightarrow> is_justifiable_after (slot_of st y) f = Inr False"
      using Suc.IH [OF p(5,4)] by blast
    have "is_justifiable_after (slot_of st y) f = Inr False"
      if "j < Suc m" "(r, y) \<in> tree_edges st ^^ j" for j y
    proof (cases j)
      case 0
      then show ?thesis using that 2 by simp
    next
      case (Suc i)
      then show ?thesis using that x(5) edge_relpow [OF p(2), of y i] by simp
    qed
    moreover have "justifiable_loop (Suc fuel) st f r = Inr (Some x)"
      using sb 2 p(1,3) x(1) by (subst justifiable_loop.simps) simp
    ultimately show ?thesis
      using x edge_relpow [OF p(2), of x m] by (intro exI [of _ "Suc m"] exI [of _ x]) auto
  qed
qed

lemma attestation_target_steps:
  assumes inv: "fc_inv st" and a: "(fc_head st, a) \<in> (tree_edges st)\<^sup>*"
    "hm_get (fc_parents st) a = Some zero_root" "slot_of st a = f"
  shows "\<exists>k r m x. k \<le> JUSTIFICATION_LOOKBACK_SLOTS \<and> (fc_head st, r) \<in> tree_edges st ^^ k \<and>
      (k < JUSTIFICATION_LOOKBACK_SLOTS \<longrightarrow> slot_of st r \<le> slot_of st (fc_safe_target st) \<or> r = a) \<and>
      (\<forall>j < k. \<forall>y. (fc_head st, y) \<in> tree_edges st ^^ j \<longrightarrow> slot_of st (fc_safe_target st) < slot_of st y) \<and>
      (r, x) \<in> tree_edges st ^^ m \<and> is_justifiable_after (slot_of st x) f = Inr True \<and>
      (\<forall>j < m. \<forall>y. (r, y) \<in> tree_edges st ^^ j \<longrightarrow> is_justifiable_after (slot_of st y) f = Inr False) \<and>
      attestation_target st f = Inr (Some (if slot_of st x < cp_slot (fc_latest_justified st)
        then fc_latest_justified st else \<lparr>cp_root = x, cp_slot = slot_of st x\<rparr>))"
proof -
  note tp = fc_inv_parts(1) [OF inv] and h = head_inv_known [OF fc_inv_parts(2) [OF inv]]
  have "known st (fc_safe_target st)" using inv by (simp add: fc_inv_def head_inv_def)
  then have safe: "safe_target_slot st = slot_of st (fc_safe_target st)"
    by (auto simp: safe_target_slot_def slot_of_def known_def hm_contains_def)
  obtain k r where r: "lookback_loop JUSTIFICATION_LOOKBACK_SLOTS st (safe_target_slot st) (fc_head st) = Some r"
    "k \<le> JUSTIFICATION_LOOKBACK_SLOTS" "(fc_head st, r) \<in> tree_edges st ^^ k"
    "k < JUSTIFICATION_LOOKBACK_SLOTS \<longrightarrow> slot_of st r \<le> slot_of st (fc_safe_target st) \<or> r = a"
    "\<forall>j < k. \<forall>y. (fc_head st, y) \<in> tree_edges st ^^ j \<longrightarrow> slot_of st (fc_safe_target st) < slot_of st y"
    "known st r" "(r, a) \<in> (tree_edges st)\<^sup>*"
    using lookback_loop_steps [OF tp a(2) h a(1), of JUSTIFICATION_LOOKBACK_SLOTS "slot_of st (fc_safe_target st)"]
    unfolding safe by blast
  obtain m x where x: "justifiable_loop (length (fc_parents st)) st f r = Inr (Some x)"
    "(r, x) \<in> tree_edges st ^^ m" "is_justifiable_after (slot_of st x) f = Inr True" "known st x"
    "\<forall>j < m. \<forall>y. (r, y) \<in> tree_edges st ^^ j \<longrightarrow> is_justifiable_after (slot_of st y) f = Inr False"
    using justifiable_loop_steps [OF tp a(2,3) r(6,7) depth_bound [OF tp r(6)]] by blast
  have "checkpoint_for_root st x = Some \<lparr>cp_root = x, cp_slot = slot_of st x\<rparr>"
    using x(4) by (auto simp: checkpoint_for_root_def slot_of_def known_def hm_contains_def)
  then have "attestation_target st f = Inr (Some (if slot_of st x < cp_slot (fc_latest_justified st)
        then fc_latest_justified st else \<lparr>cp_root = x, cp_slot = slot_of st x\<rparr>))"
    using r(1) x(1) by (simp add: attestation_target_def)
  then show ?thesis using r(2-5) x(2,3,5) by blast
qed

lemma node_snapshots_spec:
  assumes inv: "fc_inv st"
  shows "ns_root ` set (node_snapshots st) = {r. known st r}"
    and "n \<in> set (node_snapshots st) \<Longrightarrow> ns_weight n = vote_weight st (ns_root n)"
proof -
  note tp = fc_inv_parts(1) [OF inv] note ni = tree_part_simps(2) [OF tp]
  show "ns_root ` set (node_snapshots st) = {r. known st r}"
  proof -
    have "ns_root ` set (node_snapshots st) = pn_root ` set (fc_nodes st)"
      by (simp add: node_snapshots_def image_image)
    also have "\<dots> = {r. known st r}"
    proof (intro set_eqI iffI)
      fix r assume "r \<in> pn_root ` set (fc_nodes st)"
      then show "r \<in> {r. known st r}" using node_known [OF ni] by (auto simp: in_set_conv_nth)
    next
      fix r assume "r \<in> {r. known st r}"
      then obtain i where "i < length (fc_nodes st)" "pn_root (fc_nodes st ! i) = r"
        using known_index [OF ni] by blast
      then show "r \<in> pn_root ` set (fc_nodes st)" by (metis imageI nth_mem)
    qed
    finally show ?thesis .
  qed
  show "ns_weight n = vote_weight st (ns_root n)" if n: "n \<in> set (node_snapshots st)"
  proof -
    obtain i where i: "i < length (fc_nodes st)" "ns_root n = pn_root (fc_nodes st ! i)"
        "ns_weight n = nat (max (pn_weight (fc_nodes st ! i)) 0)"
      using n by (auto simp: node_snapshots_def in_set_conv_nth)
    then show ?thesis using vote_weight_eq [OF tp i(1)] by simp
  qed
qed

lemma vote_weight_bound:
  assumes "fc_inv st"
  shows "vote_weight st r \<le> latest_votes_count st"
proof -
  have wf: "hm_wf (fc_latest_votes st)"
    using tree_part_simps(1) [OF fc_inv_parts(1) [OF assms]] unfolding maps_inv_def by blast
  have "vote_weight st r \<le> card (dom (hm_get (fc_latest_votes st)))"
    unfolding vote_weight_def by (intro card_mono) (auto intro: hm_wf_dom_finite)
  also have "\<dots> = latest_votes_count st"
    using wf by (simp add: latest_votes_count_def hm_wf_def dom_map_of_conv_image_fst card_image distinct_map
        distinct_card inj_on_def flip: set_map)
  finally show ?thesis .
qed

lemma reached_inv:
  assumes "state_matches_block_root L s (b_state_root (block_of sb))"
    and "block_root L (block_of sb) \<noteq> zero_root"
    and "b_parent_root (block_of sb) \<noteq> block_root L (block_of sb)"
    and "fork_choice_new L sb s = Inr st0"
    and "reaches (fc_step L) (fc_guard L) st0 st"
  shows "fc_inv st" "finality_kept st0 st"
proof -
  have "fc_inv st0" using fork_choice_new_spec [OF assms(1-3)] assms(4) by (metis sum.inject(2))
  from fc_events.reaches_inv [OF assms(5) this] show "fc_inv st" "finality_kept st0 st" by simp_all
qed

lemma sample_anchor:
  "state_matches_block_root sample_lib sample_state (b_state_root (block_of (sample_block 0 0)))"
  "block_root sample_lib (block_of (sample_block 0 0)) \<noteq> zero_root"
  "b_parent_root (block_of (sample_block 0 0)) \<noteq> block_root sample_lib (block_of (sample_block 0 0))"
  "fork_choice_new sample_lib (sample_block 0 0) sample_state = Inr sample_store"
  by (simp_all add: sample_state_matches sample_block_root zero_root_def sample_store_new(1))

section \<open>Properties of the store\<close>

text \<open>
  C1 (the store never gets stuck). Start a store at an anchor block and let any sequence of
  calls change it: imported blocks, attestations, vote acceptance, safe-target ticks and
  proposals. The next call returns: it does not panic on a missing index, does not walk a
  parent or best-child chain for ever and is not refused. The invariant of the store holds
  again, and the finalized slot has not moved back, neither from the anchor to the store
  before the call nor in the call itself. A block may arrive when its slot lies between
  those of its neighbours, its post-state matches it and its root collides with no other;
  a block that pruning made the root of the tree does not arrive again.
\<close>

theorem fork_choice_never_stuck:
  assumes "state_matches_block_root L s (b_state_root (block_of sb))"
    and "block_root L (block_of sb) \<noteq> zero_root"
    and "b_parent_root (block_of sb) \<noteq> block_root L (block_of sb)"
    and "fork_choice_new L sb s = Inr st0"
    and "reaches (fc_step L) (fc_guard L) st0 st" and "fc_guard L st ev"
  shows "\<exists>st'. fc_step L st ev = Inr st' \<and> fc_inv st' \<and>
    cp_slot (fc_latest_finalized st0) \<le> cp_slot (fc_latest_finalized st) \<and>
    cp_slot (fc_latest_finalized st) \<le> cp_slot (fc_latest_finalized st')"
  using reached_inv [OF assms(1-5)] fc_step_total [OF _ assms(6)] by (auto simp: finality_kept_def)

theorem fork_choice_never_stuck_witness:
  "\<exists>st'. fc_step sample_lib sample_voted (Propose [fork_vote root_a]) = Inr st' \<and> fc_inv st' \<and>
    cp_slot (fc_latest_finalized sample_store) \<le> cp_slot (fc_latest_finalized sample_voted) \<and>
    cp_slot (fc_latest_finalized sample_voted) \<le> cp_slot (fc_latest_finalized st')"
  by (rule fork_choice_never_stuck [OF sample_anchor sample_fork_reached(2)]) (simp add: fc_guard_def)

text \<open>
  C3 (importing a block). \<^verbatim>\<open>on_block\<close> stores the block, moves the finalized slot to that of the
  post-state if it is higher and drops known blocks only in that case, and leaves the
  store with the LMD-GHOST head below the justified root and with the unique safe target.
\<close>

theorem on_block_settles_head:
  assumes "fc_inv st" and "importable L st sb"
    and "state_matches_block_root L s (b_state_root (block_of sb))"
  shows "\<exists>st'. on_block L st sb s = Inr st' \<and> fc_inv st' \<and>
    (known st' (cp_root (fc_latest_justified st')) \<longrightarrow>
       ghost st' (cp_root (fc_latest_justified st')) (fc_head st')) \<and>
    is_safe_target st' (fc_safe_target st') \<and>
    cp_slot (fc_latest_finalized st') = max (cp_slot (fc_latest_finalized st)) (cp_slot (st_latest_finalized s)) \<and>
    (\<forall>r. known st' r \<longrightarrow> r = block_root L (block_of sb) \<or> known st r) \<and>
    (cp_slot (st_latest_finalized s) \<le> cp_slot (fc_latest_finalized st) \<longrightarrow>
       (\<forall>r. known st' r \<longleftrightarrow> r = block_root L (block_of sb) \<or> known st r))"
  by (rule import_block_spec [OF assms, of True]) (auto simp: on_block_def settled_def)

theorem on_block_settles_head_witness:
  "\<exists>st'. on_block sample_lib sample_store (sample_block 1 26781) sample_state = Inr st' \<and>
    is_safe_target st' (fc_safe_target st') \<and> known st' 26781 \<and>
    known st' (block_root sample_lib (block_of (sample_block 1 26781)))"
proof -
  have "cp_slot (st_latest_finalized sample_state) \<le> cp_slot (fc_latest_finalized sample_store)"
    by (simp add: sample_state_def)
  then show ?thesis
    using on_block_settles_head [OF sample_store_new(2) sample_importable, of sample_state]
    by (auto simp: sample_state_matches sample_store_new(5))
qed

text \<open>
  C2 (the head is the LMD-GHOST head). Start a store at an anchor block and let any sequence
  of blocks, attestations, vote acceptances, safe-target ticks and proposals change it. The
  weights and best-child links that these calls update in place give, from the justified
  block, exactly the head of the reference walk, which reads only blocks, parents and latest
  votes and at every block takes the child with the most votes in its subtree and on ties
  the one with the smaller root.
\<close>

theorem find_head_is_ghost:
  assumes "state_matches_block_root L s (b_state_root (block_of sb))"
    and "block_root L (block_of sb) \<noteq> zero_root"
    and "b_parent_root (block_of sb) \<noteq> block_root L (block_of sb)"
    and "fork_choice_new L sb s = Inr st0"
    and "reaches (fc_step L) (fc_guard L) st0 st"
    and "known st (cp_root (fc_latest_justified st))"
  shows "find_head st = Inr h \<longleftrightarrow> ghost st (cp_root (fc_latest_justified st)) h"
proof -
  obtain x where "find_head st = Inr x" "ghost st (cp_root (fc_latest_justified st)) x"
    using find_head_spec [OF fc_inv_parts(1) [OF reached_inv(1) [OF assms(1-5)]]] assms(6) by metis
  then show ?thesis using ghost_deterministic by auto
qed

theorem find_head_is_ghost_witness:
  "find_head sample_tie = Inr root_a \<and> ghost sample_tie 26781 root_a \<and>
   find_head sample_voted = Inr root_b \<and> ghost sample_voted 26781 root_b"
  using find_head_is_ghost [OF sample_anchor sample_fork_reached(1), of root_a]
    find_head_is_ghost [OF sample_anchor sample_fork_reached(2), of root_b]
  by (simp add: sample_fork_heads)

text \<open>
  C23 (weights are votes). However blocks, attestations, vote acceptances, safe-target ticks
  and proposals follow each other after the anchor, the weight that the store reports for a
  block is the number of validators whose latest vote is for the block or a descendant. So
  the updates by plus and minus one along the parents neither lose nor count twice a vote
  that moves, a weight never exceeds the number of votes, and every known block is reported.
\<close>

theorem node_weights_count_votes:
  assumes "state_matches_block_root L s (b_state_root (block_of sb))"
    and "block_root L (block_of sb) \<noteq> zero_root"
    and "b_parent_root (block_of sb) \<noteq> block_root L (block_of sb)"
    and "fork_choice_new L sb s = Inr st0"
    and "reaches (fc_step L) (fc_guard L) st0 st"
  shows "ns_root ` set (node_snapshots st) = {r. known st r} \<and>
    (\<forall>n \<in> set (node_snapshots st). ns_weight n = vote_weight st (ns_root n) \<and>
       ns_weight n \<le> latest_votes_count st)"
  using node_snapshots_spec [OF reached_inv(1) [OF assms]] vote_weight_bound [OF reached_inv(1) [OF assms]]
  by simp

theorem node_weights_count_votes_witness:
  "map (\<lambda>n. (ns_root n, ns_weight n)) (node_snapshots sample_voted) = [(26781, 2), (root_a, 0), (root_b, 1)] \<and>
   vote_weight sample_voted 26781 = 2 \<and> vote_weight sample_voted root_a = 0 \<and> vote_weight sample_voted root_b = 1"
proof -
  have w: "map (\<lambda>n. (ns_root n, ns_weight n)) (node_snapshots sample_voted) = [(26781, 2), (root_a, 0), (root_b, 1)]"
    by (simp add: node_snapshots_def fork_eval)
  have "vote_weight sample_voted r = m"
    if "(r, m) \<in> set (map (\<lambda>n. (ns_root n, ns_weight n)) (node_snapshots sample_voted))" for r m
    using that node_weights_count_votes [OF sample_anchor sample_fork_reached(2)] by auto
  from this [unfolded w] show ?thesis using w by simp
qed

text \<open>
  C22 (pruning). When the finalized block is known, pruning returns, keeps exactly the
  finalized block and its descendants with their blocks, states and parents, and cuts the
  finalized block off from its parent. Votes for kept blocks stay, votes for ancestors of
  the finalized block move to it and all others are dropped.
\<close>

theorem pruning_keeps_descendants:
  assumes "fc_inv st" and "known st (cp_root (fc_latest_finalized st))"
  shows "\<exists>n st'. prune_finalized_history st = Inr (n, st') \<and>
    pruned st (cp_root (fc_latest_finalized st)) st'"
  using prune_spec [OF fc_inv_parts(1) [OF assms(1)] refl assms(2)] by metis

theorem pruning_keeps_descendants_witness:
  "\<exists>n st'. prune_finalized_history sample_store = Inr (n, st') \<and> pruned sample_store 26781 st'"
  using pruning_keeps_descendants [OF sample_store_new(2)] by (simp add: sample_store_new(5,6))

text \<open>
  C24 (attestation targets). The search for an attestation target returns on every store.
  When the chain of the head ends at a block \<open>a\<close> in the finalized slot that has no parent,
  as it does from genesis on and after every pruning, a target is found and is this one:
  walk back from the head over blocks after the safe target, at most three times, to \<open>r\<close>;
  from there walk back over blocks in slots that are not justifiable to the first one that
  is, \<open>x\<close>; take the justified checkpoint instead if \<open>x\<close> lies before it.
\<close>

theorem attestation_target_found:
  assumes "fc_inv st"
  shows "(\<exists>t. attestation_target st f = Inr t) \<and>
    (\<forall>a. (fc_head st, a) \<in> (tree_edges st)\<^sup>* \<longrightarrow> hm_get (fc_parents st) a = Some zero_root \<longrightarrow>
         slot_of st a = f \<longrightarrow>
      (\<exists>k r m x. k \<le> 3 \<and> (fc_head st, r) \<in> tree_edges st ^^ k \<and>
        (k < 3 \<longrightarrow> slot_of st r \<le> slot_of st (fc_safe_target st) \<or> r = a) \<and>
        (\<forall>j < k. \<forall>y. (fc_head st, y) \<in> tree_edges st ^^ j \<longrightarrow> slot_of st (fc_safe_target st) < slot_of st y) \<and>
        (r, x) \<in> tree_edges st ^^ m \<and> is_justifiable_after (slot_of st x) f = Inr True \<and>
        (\<forall>j < m. \<forall>y. (r, y) \<in> tree_edges st ^^ j \<longrightarrow> is_justifiable_after (slot_of st y) f = Inr False) \<and>
        attestation_target st f = Inr (Some (if slot_of st x < cp_slot (fc_latest_justified st)
          then fc_latest_justified st else \<lparr>cp_root = x, cp_slot = slot_of st x\<rparr>))))"
  using attestation_target_returns [OF assms] attestation_target_steps [OF assms]
  by (simp add: JUSTIFICATION_LOOKBACK_SLOTS_def)

theorem attestation_target_found_witness:
  "(\<exists>k r m x. k \<le> 3 \<and> (root_b, r) \<in> tree_edges sample_voted ^^ k \<and> (r, x) \<in> tree_edges sample_voted ^^ m \<and>
     is_justifiable_after (slot_of sample_voted x) 0 = Inr True) \<and>
   attestation_target sample_voted 0 = Inr (Some \<lparr>cp_root = 26781, cp_slot = 0\<rparr>)"
proof -
  have "(root_b, 26781) \<in> (tree_edges sample_voted)\<^sup>*"
    by (intro r_into_rtrancl) (simp add: tree_edges_def known_def fork_eval)
  moreover have "hm_get (fc_parents sample_voted) 26781 = Some zero_root" "slot_of sample_voted 26781 = 0"
    by (simp_all add: slot_of_def fork_eval)
  ultimately have "\<exists>k r m x. k \<le> 3 \<and> (root_b, r) \<in> tree_edges sample_voted ^^ k \<and>
      (r, x) \<in> tree_edges sample_voted ^^ m \<and> is_justifiable_after (slot_of sample_voted x) 0 = Inr True"
    using attestation_target_found [OF reached_inv(1) [OF sample_anchor sample_fork_reached(2)], of 0]
    unfolding sample_fork_heads(3) by blast
  moreover have "attestation_target sample_voted 0 = Inr (Some \<lparr>cp_root = 26781, cp_slot = 0\<rparr>)"
    by (simp add: attestation_target_def safe_target_slot_def JUSTIFICATION_LOOKBACK_SLOTS_def numeral_3_eq_3
        justifiable_loop.simps is_justifiable_after_def checkpoint_for_root_def fork_eval)
  ultimately show ?thesis by blast
qed

text \<open>
  C25 (a proposer always finds a head). Whatever votes are pending, asking for the proposal
  head returns a known block without children below the justified block, and no vote is
  left pending.
\<close>

theorem proposal_head_always_found:
  assumes "fc_inv st" and "known st (cp_root (fc_latest_justified st))"
  shows "\<exists>h st'. get_proposal_head_with_pending st votes = Inr (h, st') \<and> fc_inv st' \<and>
    known st h \<and> child_roots st' h = {} \<and> (h, cp_root (fc_latest_justified st)) \<in> (tree_edges st')\<^sup>* \<and>
    gossip_signatures_count st' = 0"
proof -
  obtain st' where st': "get_proposal_head_with_pending st votes = Inr (fc_head st', st')" "fc_inv st'"
    "ghost_head st'" "fc_latest_new_votes st' = []" "fc_blocks st' = fc_blocks st"
    "fc_latest_justified st' = fc_latest_justified st"
    by (rule get_proposal_head_with_pending_spec [OF assms(1)])
  have k: "known st' = known st" using st'(5) by (simp add: known_def fun_eq_iff)
  then have "ghost st' (cp_root (fc_latest_justified st)) (fc_head st')"
    using st'(3,6) assms(2) by (simp add: ghost_head_def)
  then show ?thesis
    using st' ghost_leaf ghost_descends head_inv_known [OF fc_inv_parts(2) [OF st'(2)]] k
    by (auto simp: gossip_signatures_count_def)
qed

theorem proposal_head_always_found_witness:
  "\<exists>h st'. get_proposal_head_with_pending sample_store [] = Inr (h, st') \<and> h = 26781"
  using proposal_head_always_found [OF sample_store_new(2), of "[]"]
  by (auto simp: sample_store_new(5) sample_store_justified)

end
