(* ===== verification/StateCodec.thy ===== *)
theory StateCodec
  imports VarCodec
begin

text \<open>
  The SSZ codec of \<^verbatim>\<open>State\<close> (\<^verbatim>\<open>src/containers/state.rs\<close>): a fixed section of 228 bytes that
  ends with five offsets, then five variable-length fields. The trusting decoder is used
  on the node's own database, the checked one on states received by checkpoint sync.
\<close>

section \<open>Definitions\<close>

definition state_encode :: "ssz_lib \<Rightarrow> state \<Rightarrow> u8 list result" where
  "state_encode L s =
     (let fixed_len = 8 + 8 + 112 + 40 + 40; offsets_len = 4 * 5;
          header = st_latest_block_header s in
      and_then (sq_encode (lib_roots L) (st_historical_block_hashes s)) (\<lambda>hist.
      let justified = bits_encode (lib_bits L) (st_justified_slots s) in
      and_then (sq_encode (lib_validators L) (st_validators s)) (\<lambda>validators.
      and_then (sq_encode (lib_roots L) (st_justifications_roots s)) (\<lambda>roots.
      let just_validators = bits_encode (lib_bits L) (st_justifications_validators s);
          o0 = fixed_len + offsets_len; o1 = o0 + length hist; o2 = o1 + length justified;
          o3 = o2 + length validators; o4 = o3 + length roots;
          variable_len = length hist + length justified + length validators + length roots
                           + length just_validators
      in and_then (encode_with variable_len
             [(0, hist), (length hist, justified), (length hist + length justified, validators),
              (length hist + length justified + length validators, roots),
              (length hist + length justified + length validators + length roots, just_validators)])
           (\<lambda>variable.
         and_then (encode_with (fixed_len + offsets_len)
             [(0, le64 (genesis_time (st_config s))), (8, le64 (st_slot s)),
              (16, le64 (bh_slot header)), (24, le64 (bh_proposer_index header)),
              (32, be_bytes 32 (bh_parent_root header)), (64, be_bytes 32 (bh_state_root header)),
              (96, be_bytes 32 (bh_body_root header)),
              (128, be_bytes 32 (cp_root (st_latest_justified s))),
              (160, le64 (cp_slot (st_latest_justified s))),
              (168, be_bytes 32 (cp_root (st_latest_finalized s))),
              (200, le64 (cp_slot (st_latest_finalized s))),
              (fixed_len, le32 (of_nat o0)), (fixed_len + 4, le32 (of_nat o1)),
              (fixed_len + 8, le32 (of_nat o2)), (fixed_len + 12, le32 (of_nat o3)),
              (fixed_len + 16, le32 (of_nat o4))])
           (\<lambda>fixed. Inr (fixed @ variable)))))))"

text \<open>\<open>b0\<close> to \<open>b4\<close> are the offsets of the variable fields.\<close>

definition state_decode :: "ssz_lib \<Rightarrow> u8 list \<Rightarrow> state result" where
  "state_decode L bytes =
     and_then (slice 0 8 bytes) (\<lambda>c. and_then (config_decode c) (\<lambda>config.
     and_then (slice 8 16 bytes) (\<lambda>c. and_then (slot_decode c) (\<lambda>slot.
     and_then (slice 16 128 bytes) (\<lambda>c. and_then (block_header_decode c) (\<lambda>header.
     and_then (slice 128 168 bytes) (\<lambda>c. and_then (checkpoint_decode c) (\<lambda>justified_cp.
     and_then (slice 168 208 bytes) (\<lambda>c. and_then (checkpoint_decode c) (\<lambda>finalized_cp.
     and_then (offset_at 208 bytes) (\<lambda>b0. and_then (offset_at 212 bytes) (\<lambda>b1.
     and_then (offset_at 216 bytes) (\<lambda>b2. and_then (offset_at 220 bytes) (\<lambda>b3.
     and_then (offset_at 224 bytes) (\<lambda>b4.
     let scope = length bytes in
     and_then (slice b0 b1 bytes) (\<lambda>c.
     and_then (sq_decode (lib_roots L) HISTORICAL_ROOTS_LIMIT c) (\<lambda>hist.
     and_then (slice b1 b2 bytes) (\<lambda>c.
     and_then (bits_decode (lib_bits L) HISTORICAL_ROOTS_LIMIT c) (\<lambda>justified.
     and_then (slice b2 b3 bytes) (\<lambda>c.
     and_then (sq_decode (lib_validators L) VALIDATOR_REGISTRY_LIMIT c) (\<lambda>validators.
     and_then (slice b3 b4 bytes) (\<lambda>c.
     and_then (sq_decode (lib_roots L) HISTORICAL_ROOTS_LIMIT c) (\<lambda>roots.
     and_then (slice b4 scope bytes) (\<lambda>c.
     and_then (bits_decode (lib_bits L) JUSTIFICATION_VALIDATORS_LIMIT c) (\<lambda>just_validators.
     Inr \<lparr>st_config = config, st_slot = slot, st_latest_block_header = header,
       st_latest_justified = justified_cp, st_latest_finalized = finalized_cp,
       st_historical_block_hashes = hist, st_justified_slots = justified,
       st_validators = validators, st_justifications_roots = roots,
       st_justifications_validators = just_validators\<rparr>)))))))))))))))))))))))))"

fun bounds_valid :: "nat \<Rightarrow> nat \<Rightarrow> nat \<Rightarrow> nat list \<Rightarrow> bool" where
  "bounds_valid fixed_end scope prev [] = True"
| "bounds_valid fixed_end scope prev (b # bs) =
     (if b < fixed_end \<or> b < prev \<or> b > scope then False else bounds_valid fixed_end scope b bs)"

definition state_decode_checked :: "ssz_lib \<Rightarrow> u8 list \<Rightarrow> state result" where
  "state_decode_checked L bytes =
     (let fixed_len = 8 + 8 + 112 + 40 + 40 + 4 * 5 in
      if length bytes < fixed_len then Inl (Err ''State input shorter than fixed section'')
      else
     and_then (slice 0 8 bytes) (\<lambda>c. and_then (config_decode_checked c) (\<lambda>config.
     and_then (slice 8 16 bytes) (\<lambda>c. and_then (slot_decode_checked c) (\<lambda>slot.
     and_then (slice 16 128 bytes) (\<lambda>c. and_then (block_header_decode_checked c) (\<lambda>header.
     and_then (slice 128 168 bytes) (\<lambda>c. and_then (checkpoint_decode_checked c) (\<lambda>justified_cp.
     and_then (slice 168 208 bytes) (\<lambda>c. and_then (checkpoint_decode_checked c) (\<lambda>finalized_cp.
     and_then (offset_at 208 bytes) (\<lambda>b0. and_then (offset_at 212 bytes) (\<lambda>b1.
     and_then (offset_at 216 bytes) (\<lambda>b2. and_then (offset_at 220 bytes) (\<lambda>b3.
     and_then (offset_at 224 bytes) (\<lambda>b4.
     let scope = length bytes; fixed_end = fixed_len in
     if b0 \<noteq> fixed_end then Inl (Err ''State first offset must equal fixed section length'')
     else if \<not> bounds_valid fixed_end scope fixed_end [b0, b1, b2, b3, b4]
     then Inl (Err ''State offsets are invalid'')
     else
     and_then (slice b0 b1 bytes) (\<lambda>c.
     and_then (sq_decode_checked (lib_roots L) HISTORICAL_ROOTS_LIMIT c) (\<lambda>hist.
     and_then (slice b1 b2 bytes) (\<lambda>c.
     and_then (bits_decode_checked (lib_bits L) HISTORICAL_ROOTS_LIMIT c) (\<lambda>justified.
     and_then (slice b2 b3 bytes) (\<lambda>c.
     and_then (sq_decode_checked (lib_validators L) VALIDATOR_REGISTRY_LIMIT c) (\<lambda>validators.
     and_then (slice b3 b4 bytes) (\<lambda>c.
     and_then (sq_decode_checked (lib_roots L) HISTORICAL_ROOTS_LIMIT c) (\<lambda>roots.
     and_then (slice b4 scope bytes) (\<lambda>c.
     and_then (bits_decode_checked (lib_bits L) JUSTIFICATION_VALIDATORS_LIMIT c) (\<lambda>just_validators.
     Inr \<lparr>st_config = config, st_slot = slot, st_latest_block_header = header,
       st_latest_justified = justified_cp, st_latest_finalized = finalized_cp,
       st_historical_block_hashes = hist, st_justified_slots = justified,
       st_validators = validators, st_justifications_roots = roots,
       st_justifications_validators = just_validators\<rparr>))))))))))))))))))))))))))"

section \<open>The layout\<close>

definition header_bytes :: "block_header \<Rightarrow> u8 list" where
  "header_bytes h = le64 (bh_slot h) @ le64 (bh_proposer_index h) @ be_bytes 32 (bh_parent_root h) @
     be_bytes 32 (bh_state_root h) @ be_bytes 32 (bh_body_root h)"

definition state_fixed_bytes :: "state \<Rightarrow> u8 list" where
  "state_fixed_bytes s = le64 (genesis_time (st_config s)) @ le64 (st_slot s) @
     header_bytes (st_latest_block_header s) @ checkpoint_bytes (st_latest_justified s) @
     checkpoint_bytes (st_latest_finalized s)"

definition state_offset_bytes :: "nat list \<Rightarrow> u8 list" where
  "state_offset_bytes os = concat (map (\<lambda>k. le32 (of_nat k)) os)"

lemma length_header_bytes [simp]: "length (header_bytes h) = 112"
  by (simp add: header_bytes_def)

lemma length_state_fixed_bytes [simp]: "length (state_fixed_bytes s) = 208"
  by (simp add: state_fixed_bytes_def)

lemma header_decode_bytes: "block_header_decode (header_bytes h) = Inr h"
  using block_header_codec.dec_enc [of h "header_bytes h"]
  by (simp add: header_bytes_def block_header_encode_eq)

lemma state_encode_eq:
  assumes "sq_encode (lib_roots L) (st_historical_block_hashes s) = Inr h"
    and "sq_encode (lib_validators L) (st_validators s) = Inr v"
    and "sq_encode (lib_roots L) (st_justifications_roots s) = Inr r"
    and "j = bits_encode (lib_bits L) (st_justified_slots s)"
    and "w = bits_encode (lib_bits L) (st_justifications_validators s)"
  shows "state_encode L s = Inr (state_fixed_bytes s @ state_offset_bytes
      [228, 228 + length h, 228 + length h + length j, 228 + length h + length j + length v,
       228 + length h + length j + length v + length r] @ h @ j @ v @ r @ w)"
proof -
  have var: "encode_with (length h + length j + length v + length r + length w)
      [(0, h), (length h, j), (length h + length j, v), (length h + length j + length v, r),
       (length h + length j + length v + length r, w)] = Inr (h @ j @ v @ r @ w)"
    by (subst encode_with_tiles) simp_all
  show ?thesis
    unfolding state_encode_def assms(1-3) and_then_simps Let_def assms(4,5) [symmetric] var
    by (subst encode_with_tiles)
      (simp_all add: state_fixed_bytes_def header_bytes_def checkpoint_bytes_def state_offset_bytes_def)
qed

text \<open>Reading the parts back.\<close>

lemma slice_fixed:
  "slice 0 8 (state_fixed_bytes s @ rest) = Inr (le64 (genesis_time (st_config s)))"
  "slice 8 16 (state_fixed_bytes s @ rest) = Inr (le64 (st_slot s))"
  "slice 16 128 (state_fixed_bytes s @ rest) = Inr (header_bytes (st_latest_block_header s))"
  "slice 128 168 (state_fixed_bytes s @ rest) = Inr (checkpoint_bytes (st_latest_justified s))"
  "slice 168 208 (state_fixed_bytes s @ rest) = Inr (checkpoint_bytes (st_latest_finalized s))"
  by (simp_all add: slice_def state_fixed_bytes_def)

lemma offset_read_back:
  assumes "length xs = a" "k < 2 ^ 32"
  shows "offset_at a (xs @ le32 (of_nat k) @ rest) = Inr k"
  using assms by (simp add: offset_at_def slice_def unat_of_nat_u32)

lemma state_offsets_read:
  assumes "k0 < 2 ^ 32" "k1 < 2 ^ 32" "k2 < 2 ^ 32" "k3 < 2 ^ 32" "k4 < 2 ^ 32"
  shows "offset_at 208 (state_fixed_bytes s @ state_offset_bytes [k0, k1, k2, k3, k4] @ rest) = Inr k0"
    "offset_at 212 (state_fixed_bytes s @ state_offset_bytes [k0, k1, k2, k3, k4] @ rest) = Inr k1"
    "offset_at 216 (state_fixed_bytes s @ state_offset_bytes [k0, k1, k2, k3, k4] @ rest) = Inr k2"
    "offset_at 220 (state_fixed_bytes s @ state_offset_bytes [k0, k1, k2, k3, k4] @ rest) = Inr k3"
    "offset_at 224 (state_fixed_bytes s @ state_offset_bytes [k0, k1, k2, k3, k4] @ rest) = Inr k4"
  using assms offset_read_back [of "state_fixed_bytes s" 208 k0]
    offset_read_back [of "state_fixed_bytes s @ le32 (of_nat k0)" 212 k1]
    offset_read_back [of "state_fixed_bytes s @ le32 (of_nat k0) @ le32 (of_nat k1)" 216 k2]
    offset_read_back [of "state_fixed_bytes s @ le32 (of_nat k0) @ le32 (of_nat k1) @ le32 (of_nat k2)" 220 k3]
    offset_read_back [of "state_fixed_bytes s @ le32 (of_nat k0) @ le32 (of_nat k1) @ le32 (of_nat k2)
      @ le32 (of_nat k3)" 224 k4]
  by (simp_all add: state_offset_bytes_def)

lemma length_state_offset_bytes [simp]: "length (state_offset_bytes os) = 4 * length os"
  by (induction os) (simp_all add: state_offset_bytes_def)

lemma fixed_parts_decode:
  "config_decode (le64 (genesis_time c)) = Inr c" "slot_decode (le64 x) = Inr x"
  "config_decode_checked (le64 (genesis_time c)) = Inr c" "slot_decode_checked (le64 x) = Inr x"
  "block_header_decode_checked (header_bytes h) = Inr h" "checkpoint_decode_checked (checkpoint_bytes p) = Inr p"
  by (simp_all add: config_decode_def slot_decode_def uint64_decode_def config_decode_checked_def
      slot_decode_checked_def checked_len_def block_header_decode_checked_def header_decode_bytes
      checkpoint_decode_checked_def checkpoint_decode_bytes slice_def)

section \<open>Round trip\<close>

definition state_valid :: "ssz_lib \<Rightarrow> state \<Rightarrow> bool" where
  "state_valid L s \<longleftrightarrow> (\<exists>h v r.
     seq_roundtrip (lib_roots L) HISTORICAL_ROOTS_LIMIT (st_historical_block_hashes s) h \<and>
     seq_roundtrip (lib_validators L) VALIDATOR_REGISTRY_LIMIT (st_validators s) v \<and>
     seq_roundtrip (lib_roots L) HISTORICAL_ROOTS_LIMIT (st_justifications_roots s) r \<and>
     bits_roundtrip L HISTORICAL_ROOTS_LIMIT (st_justified_slots s) \<and>
     bits_roundtrip L JUSTIFICATION_VALIDATORS_LIMIT (st_justifications_validators s) \<and>
     228 + length h + length (bits_encode (lib_bits L) (st_justified_slots s)) + length v + length r < 2 ^ 32)"

lemma state_decode_encoding:
  assumes v: "state_valid L s" and e: "state_encode L s = Inr bs"
  shows "state_decode L bs = Inr s" "state_decode_checked L bs = Inr s"
proof -
  obtain h v r where rt: "seq_roundtrip (lib_roots L) HISTORICAL_ROOTS_LIMIT (st_historical_block_hashes s) h"
      "seq_roundtrip (lib_validators L) VALIDATOR_REGISTRY_LIMIT (st_validators s) v"
      "seq_roundtrip (lib_roots L) HISTORICAL_ROOTS_LIMIT (st_justifications_roots s) r"
      "bits_roundtrip L HISTORICAL_ROOTS_LIMIT (st_justified_slots s)"
      "bits_roundtrip L JUSTIFICATION_VALIDATORS_LIMIT (st_justifications_validators s)"
      "228 + length h + length (bits_encode (lib_bits L) (st_justified_slots s)) + length v + length r < 2 ^ 32"
    using v unfolding state_valid_def by blast
  define j where "j = bits_encode (lib_bits L) (st_justified_slots s)"
  define w where "w = bits_encode (lib_bits L) (st_justifications_validators s)"
  let ?os = "[228, 228 + length h, 228 + length h + length j, 228 + length h + length j + length v,
    228 + length h + length j + length v + length r]"
  let ?bs = "state_fixed_bytes s @ state_offset_bytes ?os @ h @ j @ v @ r @ w"
  have bs: "bs = ?bs" using e rt state_encode_eq [OF _ _ _ j_def w_def] by (simp add: seq_roundtrip_def)
  have lt: "228 + length h + length j + length v + length r < 2 ^ 32" using rt(6) by (simp add: j_def)
  have offs: "offset_at 208 ?bs = Inr 228" "offset_at 212 ?bs = Inr (228 + length h)"
      "offset_at 216 ?bs = Inr (228 + length h + length j)"
      "offset_at 220 ?bs = Inr (228 + length h + length j + length v)"
      "offset_at 224 ?bs = Inr (228 + length h + length j + length v + length r)"
    using lt by (simp_all add: state_offsets_read)
  have len: "length ?bs = 228 + length h + length j + length v + length r + length w" by simp
  have sl: "slice 228 (228 + length h) ?bs = Inr h"
      "slice (228 + length h) (228 + length h + length j) ?bs = Inr j"
      "slice (228 + length h + length j) (228 + length h + length j + length v) ?bs = Inr v"
      "slice (228 + length h + length j + length v) (228 + length h + length j + length v + length r) ?bs = Inr r"
      "slice (228 + length h + length j + length v + length r) (length ?bs) ?bs = Inr w"
    unfolding len by (simp_all add: slice_def)
  note parts = slice_fixed fixed_parts_decode header_decode_bytes checkpoint_decode_bytes offs sl and_then_simps
  have dec: "sq_decode (lib_roots L) HISTORICAL_ROOTS_LIMIT h = Inr (st_historical_block_hashes s)"
      "sq_decode_checked (lib_roots L) HISTORICAL_ROOTS_LIMIT h = Inr (st_historical_block_hashes s)"
      "sq_decode (lib_validators L) VALIDATOR_REGISTRY_LIMIT v = Inr (st_validators s)"
      "sq_decode_checked (lib_validators L) VALIDATOR_REGISTRY_LIMIT v = Inr (st_validators s)"
      "sq_decode (lib_roots L) HISTORICAL_ROOTS_LIMIT r = Inr (st_justifications_roots s)"
      "sq_decode_checked (lib_roots L) HISTORICAL_ROOTS_LIMIT r = Inr (st_justifications_roots s)"
      "bits_decode (lib_bits L) HISTORICAL_ROOTS_LIMIT j = Inr (st_justified_slots s)"
      "bits_decode_checked (lib_bits L) HISTORICAL_ROOTS_LIMIT j = Inr (st_justified_slots s)"
      "bits_decode (lib_bits L) JUSTIFICATION_VALIDATORS_LIMIT w = Inr (st_justifications_validators s)"
      "bits_decode_checked (lib_bits L) JUSTIFICATION_VALIDATORS_LIMIT w = Inr (st_justifications_validators s)"
    using rt by (simp_all add: seq_roundtrip_def bits_roundtrip_def j_def w_def)
  show "state_decode L bs = Inr s"
    unfolding bs state_decode_def Let_def parts dec by simp
  have g: "\<not> length ?bs < 228" "bounds_valid 228 (length ?bs) 228 ?os" unfolding len by simp_all
  have num: "(8 + 8 + 112 + 40 + 40 + 4 * 5 :: nat) = 228" by simp
  show "state_decode_checked L bs = Inr s"
    unfolding bs state_decode_checked_def Let_def num parts dec using g by simp
qed

lemma state_encode_defined: "state_valid L s \<Longrightarrow> \<exists>bs. state_encode L s = Inr bs"
  unfolding state_valid_def using state_encode_eq [OF _ _ _ refl refl, of L s]
  by (auto simp: seq_roundtrip_def)

interpretation state_codec: var_codec "state_encode L" "state_decode L" "state_valid L" for L
  by unfold_locales (auto intro: state_encode_defined state_decode_encoding)

interpretation state_checked: var_codec "state_encode L" "state_decode_checked L" "state_valid L" for L
  by unfold_locales (auto intro: state_encode_defined state_decode_encoding)

section \<open>Malformed input\<close>

text \<open>What the checked decoder of states relies on: the checked decoders of root lists and bit
  lists report malformed input as an error value. \<^verbatim>\<open>Validator\<close> declares no fixed length, so its
  list is one of variable-size elements: the library reads the offsets and either reports an
  error or has the bytes of every element, which \<open>split\<close> returns, decoded by the
  \<^verbatim>\<open>SszDecode\<close> instance of this repository.\<close>

definition state_lists :: "ssz_lib \<Rightarrow> (nat \<Rightarrow> u8 list \<Rightarrow> u8 list list result) \<Rightarrow> bool" where
  "state_lists L split \<longleftrightarrow>
     (\<forall>limit bs. graceful (sq_decode_checked (lib_roots L) limit bs)) \<and>
     (\<forall>limit bs. graceful (bits_decode_checked (lib_bits L) limit bs)) \<and>
     (\<forall>limit bs. graceful (split limit bs)) \<and>
     (\<forall>limit bs. sq_decode_checked (lib_validators L) limit bs =
        and_then (split limit bs) (traverse validator_decode))"

lemma validator_decode_short: "length c < 60 \<Longrightarrow> validator_decode c = Inl Panic"
  by (auto simp: validator_decode_def slice_def bytes52_from_slice_def)

lemma validator_decode_long: "60 \<le> length c \<Longrightarrow> \<exists>v. validator_decode c = Inr v"
  by (auto simp: validator_decode_def slice_def bytes52_from_slice_def validator_index_decode_def
      uint64_decode_def)

lemma validators_decode:
  "if \<exists>c \<in> set cs. length c < 60 then traverse validator_decode cs = Inl Panic
   else \<exists>vs. traverse validator_decode cs = Inr vs"
proof (induction cs)
  case (Cons c cs)
  show ?case
  proof (cases "length c < 60")
    case False
    then obtain v where "validator_decode c = Inr v" using validator_decode_long by (auto simp: not_less)
    then show ?thesis using Cons False by (auto split: if_splits)
  qed (simp add: validator_decode_short)
qed simp

lemma fixed_parts_graceful:
  "graceful (config_decode_checked bs)" "graceful (slot_decode_checked bs)"
  "graceful (block_header_decode_checked bs)" "graceful (checkpoint_decode_checked bs)"
  by (simp_all add: config_decode_checked_def slot_decode_checked_def block_header_decode_checked_def
      checkpoint_decode_checked_def config_codec.checked_graceful slot_codec.checked_graceful
      block_header_codec.checked_graceful checkpoint_codec.checked_graceful)

definition short_validator :: "(nat \<Rightarrow> u8 list \<Rightarrow> u8 list list result) \<Rightarrow> u8 list \<Rightarrow> bool" where
  "short_validator split bytes \<longleftrightarrow> (\<exists>b2 b3 part cs.
     offset_at 216 bytes = Inr b2 \<and> offset_at 220 bytes = Inr b3 \<and> slice b2 b3 bytes = Inr part \<and>
     split VALIDATOR_REGISTRY_LIMIT part = Inr cs \<and> (\<exists>c \<in> set cs. length c < 60))"

lemma state_checked_graceful:
  assumes L: "state_lists L split" and ns: "\<not> short_validator split bs"
  shows "graceful (state_decode_checked L bs)"
proof -
  have g: "graceful (sq_decode_checked (lib_roots L) limit c)" "graceful (bits_decode_checked (lib_bits L) limit c)"
    for limit c using L by (simp_all add: state_lists_def)
  have eq: "sq_decode_checked (lib_validators L) limit c = and_then (split limit c) (traverse validator_decode)"
      "graceful (split limit c)" for limit c using L by (simp_all add: state_lists_def)
  have v: "graceful (sq_decode_checked (lib_validators L) VALIDATOR_REGISTRY_LIMIT c)"
    if "offset_at 216 bs = Inr b2" "offset_at 220 bs = Inr b3" "slice b2 b3 bs = Inr c" for b2 b3 c
  proof (cases "split VALIDATOR_REGISTRY_LIMIT c")
    case (Inl e)
    then show ?thesis using eq(2) [of VALIDATOR_REGISTRY_LIMIT c] by (simp add: eq(1) graceful_def)
  next
    case (Inr cs)
    then have "\<not> (\<exists>c \<in> set cs. length c < 60)" using ns that by (auto simp: short_validator_def)
    then show ?thesis using validators_decode [of cs] Inr by (auto simp: eq(1))
  qed
  show ?thesis
    unfolding state_decode_checked_def Let_def
    by (auto intro!: graceful_intros fixed_parts_graceful g v split: if_splits)
qed

lemma state_checked_layout:
  assumes L: "state_lists L split"
    and h: "sq_decode_checked (lib_roots L) HISTORICAL_ROOTS_LIMIT h = Inr hist"
    and j: "bits_decode_checked (lib_bits L) HISTORICAL_ROOTS_LIMIT j = Inr js"
    and v: "split VALIDATOR_REGISTRY_LIMIT v = Inr cs"
    and lt: "228 + length h + length j + length v + length r < 2 ^ 32"
    and bs: "bs = state_fixed_bytes s @ state_offset_bytes
      [228, 228 + length h, 228 + length h + length j, 228 + length h + length j + length v,
       228 + length h + length j + length v + length r] @ h @ j @ v @ r @ w"
  shows "state_decode_checked L bs = Inl Panic \<longleftrightarrow> (\<exists>c \<in> set cs. length c < 60)"
proof -
  have offs: "offset_at 208 bs = Inr 228" "offset_at 212 bs = Inr (228 + length h)"
      "offset_at 216 bs = Inr (228 + length h + length j)"
      "offset_at 220 bs = Inr (228 + length h + length j + length v)"
      "offset_at 224 bs = Inr (228 + length h + length j + length v + length r)"
    unfolding bs using lt by (simp_all add: state_offsets_read)
  have sl: "slice 228 (228 + length h) bs = Inr h"
      "slice (228 + length h) (228 + length h + length j) bs = Inr j"
      "slice (228 + length h + length j) (228 + length h + length j + length v) bs = Inr v"
    unfolding bs by (simp_all add: slice_def)
  show ?thesis
  proof (cases "\<exists>c \<in> set cs. length c < 60")
    case True
    then have d: "sq_decode_checked (lib_validators L) VALIDATOR_REGISTRY_LIMIT v = Inl Panic"
      using validators_decode [of cs] L v by (simp add: state_lists_def)
    have fixed: "slice 0 8 bs = Inr (le64 (genesis_time (st_config s)))" "slice 8 16 bs = Inr (le64 (st_slot s))"
        "slice 16 128 bs = Inr (header_bytes (st_latest_block_header s))"
        "slice 128 168 bs = Inr (checkpoint_bytes (st_latest_justified s))"
        "slice 168 208 bs = Inr (checkpoint_bytes (st_latest_finalized s))"
      unfolding bs by (simp_all only: slice_fixed)
    have g: "\<not> length bs < 228" "bounds_valid 228 (length bs) 228 [228, 228 + length h,
        228 + length h + length j, 228 + length h + length j + length v,
        228 + length h + length j + length v + length r]" unfolding bs by simp_all
    have num: "(8 + 8 + 112 + 40 + 40 + 4 * 5 :: nat) = 228" by simp
    have "state_decode_checked L bs = Inl Panic"
      unfolding state_decode_checked_def Let_def num fixed fixed_parts_decode offs sl h j d and_then_simps
      using g by simp
    then show ?thesis using True by simp
  next
    case False
    then have "\<not> short_validator split bs" using offs sl(3) v by (auto simp: short_validator_def)
    from state_checked_graceful [OF L this] show ?thesis using False by auto
  qed
qed

section \<open>Properties\<close>

text \<open>
  C13 (states round trip). A state read back from its encoding is the same state, with the
  trusting decoder of the database and with the checked decoder of checkpoint sync. The
  lists of the state must be ones that the codec of the library round-trips, and the
  offsets must fit 32 bits.
\<close>

theorem state_roundtrip:
  assumes "state_valid L s"
  shows "and_then (state_encode L s) (state_decode L) = Inr s \<and>
    and_then (state_encode L s) (state_decode_checked L) = Inr s"
  using state_codec.var_roundtrip [OF assms] state_checked.var_roundtrip [OF assms] by simp

lemma sample_state_valid: "state_valid sample_lib (sample_state\<lparr>st_validators := []\<rparr>)"
  unfolding state_valid_def
  by (rule exI [of _ "[]"], rule exI [of _ "[]"], rule exI [of _ "[]"])
    (simp add: sample_state_def sample_seq_roundtrip sample_bits_roundtrip bitlist_default_def sample_bits_def)

theorem state_roundtrip_witness:
  "and_then (state_encode sample_lib (sample_state\<lparr>st_validators := []\<rparr>)) (state_decode sample_lib) =
     Inr (sample_state\<lparr>st_validators := []\<rparr>)"
  using state_roundtrip [OF sample_state_valid] by simp

text \<open>
  C14 (states from the network). The checked decoder of states, which reads checkpoint-sync
  responses, checks lengths and offsets so that its own slices stay in range: on any bytes it
  returns a state or an error, unless the bytes of some validator in the list are shorter
  than sixty. Such a list does make it panic, because the elements are read by the trusting
  decoder of validators.
\<close>

theorem checked_state_decoder_panics_on_short_validator:
  assumes "state_lists L split"
  shows "(graceful (state_decode_checked L bs) \<or> short_validator split bs) \<and>
    (\<forall>s h j v r w hist js cs.
       sq_decode_checked (lib_roots L) HISTORICAL_ROOTS_LIMIT h = Inr hist \<longrightarrow>
       bits_decode_checked (lib_bits L) HISTORICAL_ROOTS_LIMIT j = Inr js \<longrightarrow>
       split VALIDATOR_REGISTRY_LIMIT v = Inr cs \<longrightarrow>
       228 + length h + length j + length v + length r < 2 ^ 32 \<longrightarrow>
       (state_decode_checked L (state_fixed_bytes s @ state_offset_bytes
          [228, 228 + length h, 228 + length h + length j, 228 + length h + length j + length v,
           228 + length h + length j + length v + length r] @ h @ j @ v @ r @ w) = Inl Panic \<longleftrightarrow>
        (\<exists>c \<in> set cs. length c < 60)))"
  using state_checked_graceful [OF assms] state_checked_layout [OF assms _ _ _ _ refl] by blast

definition sample_split :: "nat \<Rightarrow> u8 list \<Rightarrow> u8 list list result" where
  "sample_split limit bs =
     (if bs = [] then Inr []
      else if length bs < 4 then Inl (Err ''short'')
      else let k = unat (from_le_bytes (take 4 bs) :: u32) div 4;
               os = map (\<lambda>i. unat (from_le_bytes (take 4 (drop (4 * i) bs)) :: u32)) [0..<k]
           in if k = 0 \<or> limit < k \<or> 4 * k \<noteq> hd os \<or> \<not> sorted (os @ [length bs]) then Inl (Err ''offsets'')
              else Inr (map (\<lambda>(a, b). take (b - a) (drop a bs)) (zip os (tl os @ [length bs]))))"

definition sample_var_lib :: ssz_lib where
  "sample_var_lib = sample_lib\<lparr>lib_validators := sample_seq\<lparr>
     sq_decode_checked := (\<lambda>limit bs. and_then (sample_split limit bs) (traverse validator_decode))\<rparr>\<rparr>"

lemma sample_state_lists: "state_lists sample_var_lib sample_split"
  by (auto simp: state_lists_def sample_var_lib_def sample_defs sample_split_def Let_def)

theorem checked_state_decoder_panics_on_short_validator_witness:
  "graceful (state_decode_checked sample_var_lib [1, 2, 3]) \<and>
   state_decode_checked sample_var_lib (state_fixed_bytes sample_state @
     state_offset_bytes [228, 228, 236, 240, 240] @ [] @ replicate 8 0 @ [4, 0, 0, 0] @ [] @ []) = Inl Panic"
proof -
  have s: "sample_split VALIDATOR_REGISTRY_LIMIT [4, 0, 0, 0] = Inr [[]]" by code_simp
  have d: "sq_decode_checked (lib_roots sample_var_lib) HISTORICAL_ROOTS_LIMIT [] = Inr []"
    "\<exists>js. bits_decode_checked (lib_bits sample_var_lib) HISTORICAL_ROOTS_LIMIT (replicate 8 0) = Inr js"
    by (simp_all add: sample_var_lib_def sample_defs)
  note t = checked_state_decoder_panics_on_short_validator [OF sample_state_lists]
  have "\<not> short_validator sample_split [1, 2, 3]" by (simp add: short_validator_def offset_at_def slice_def)
  then have "graceful (state_decode_checked sample_var_lib [1, 2, 3])"
    using t [of "[1, 2, 3]"] by blast
  moreover have "state_decode_checked sample_var_lib (state_fixed_bytes sample_state @
     state_offset_bytes [228, 228, 236, 240, 240] @ [] @ replicate 8 0 @ [4, 0, 0, 0] @ [] @ []) = Inl Panic"
    using t [THEN conjunct2, rule_format, OF d(1) d(2) [THEN someI_ex] s, of "[]" sample_state "[]"] by simp
  ultimately show ?thesis by blast
qed

end
