(* ===== verification/CanonicalDb.thy ===== *)
theory CanonicalDb
  imports StateCodec
begin

text \<open>
  The database layer: the blob envelope of \<^verbatim>\<open>src/storage/storage_utils.rs\<close> and the wrapper
  of \<^verbatim>\<open>src/storage/canonical_db.rs\<close> around the embedded database \<^verbatim>\<open>redb\<close>, which is an
  external crate and a parameter \<open>R\<close>. Its handle and its transactions are abstract; what
  the wrapper relies on is the predicate \<open>redb_laws\<close>: transactions see the committed
  content, table operations act on their table only, and a commit publishes the
  transaction as a whole. Every operation may fail. A transaction that is dropped before
  its commit changes nothing, so a failing method has no new database to return.
\<close>

section \<open>The external database\<close>

record ('tx, 'k) table_ops =
  tb_open :: "'tx \<Rightarrow> string \<Rightarrow> 'tx result"
  tb_get :: "'tx \<Rightarrow> string \<Rightarrow> 'k \<Rightarrow> u8 list option result"
  tb_iter :: "'tx \<Rightarrow> string \<Rightarrow> ('k \<times> u8 list) result list result"
  tb_insert :: "'tx \<Rightarrow> string \<Rightarrow> 'k \<Rightarrow> u8 list \<Rightarrow> 'tx result"
  tb_remove :: "'tx \<Rightarrow> string \<Rightarrow> 'k \<Rightarrow> 'tx result"
  tb_pop_first :: "'tx \<Rightarrow> string \<Rightarrow> (('k \<times> u8 list) option \<times> 'tx) result"

record ('db, 'tx) redb =
  rd_begin_read :: "'db \<Rightarrow> 'tx result"
  rd_begin_write :: "'db \<Rightarrow> 'tx result"
  rd_commit :: "'tx \<Rightarrow> 'db result"
  rd_slots :: "('tx, u64) table_ops"
  rd_meta :: "('tx, string) table_ops"
  rd_blobs :: "('tx, u8 list) table_ops"

text \<open>The content of the tables, by the type of their keys.\<close>

record contents =
  ct_slots :: "string \<Rightarrow> u64 \<rightharpoonup> u8 list"
  ct_meta :: "string \<Rightarrow> string \<rightharpoonup> u8 list"
  ct_blobs :: "string \<Rightarrow> u8 list \<rightharpoonup> u8 list"

definition table_laws ::
    "('tx, 'k) table_ops \<Rightarrow> ('tx \<Rightarrow> contents) \<Rightarrow> (contents \<Rightarrow> string \<Rightarrow> 'k \<rightharpoonup> u8 list) \<Rightarrow>
     (((string \<Rightarrow> 'k \<rightharpoonup> u8 list) \<Rightarrow> (string \<Rightarrow> 'k \<rightharpoonup> u8 list)) \<Rightarrow> contents \<Rightarrow> contents) \<Rightarrow> bool" where
  "table_laws T view sel upd \<longleftrightarrow>
     (\<forall>tx n tx'. tb_open T tx n = Inr tx' \<longrightarrow> view tx' = view tx) \<and>
     (\<forall>tx n k v. tb_get T tx n k = Inr v \<longrightarrow> v = sel (view tx) n k) \<and>
     (\<forall>tx n rows kvs. tb_iter T tx n = Inr rows \<longrightarrow> rows = map Inr kvs \<longrightarrow>
        distinct (map fst kvs) \<and> map_of kvs = sel (view tx) n) \<and>
     (\<forall>tx n k v tx'. tb_insert T tx n k v = Inr tx' \<longrightarrow>
        view tx' = upd (\<lambda>c. c(n := (c n)(k \<mapsto> v))) (view tx)) \<and>
     (\<forall>tx n k tx'. tb_remove T tx n k = Inr tx' \<longrightarrow>
        view tx' = upd (\<lambda>c. c(n := (c n)(k := None))) (view tx)) \<and>
     (\<forall>tx n tx'. tb_pop_first T tx n = Inr (None, tx') \<longrightarrow>
        sel (view tx) n = Map.empty \<and> view tx' = view tx) \<and>
     (\<forall>tx n k v tx'. tb_pop_first T tx n = Inr (Some (k, v), tx') \<longrightarrow>
        sel (view tx) n k = Some v \<and> view tx' = upd (\<lambda>c. c(n := (c n)(k := None))) (view tx)) \<and>
     (\<forall>tx n. finite (dom (sel (view tx) n)))"

definition redb_laws ::
    "('db, 'tx) redb \<Rightarrow> ('tx \<Rightarrow> contents) \<Rightarrow> ('db \<Rightarrow> contents) \<Rightarrow> bool" where
  "redb_laws R view content \<longleftrightarrow>
     (\<forall>db tx. rd_begin_read R db = Inr tx \<longrightarrow> view tx = content db) \<and>
     (\<forall>db tx. rd_begin_write R db = Inr tx \<longrightarrow> view tx = content db) \<and>
     (\<forall>tx db. rd_commit R tx = Inr db \<longrightarrow> content db = view tx) \<and>
     table_laws (rd_slots R) view ct_slots ct_slots_update \<and>
     table_laws (rd_meta R) view ct_meta ct_meta_update \<and>
     table_laws (rd_blobs R) view ct_blobs ct_blobs_update"

section \<open>Blob envelopes\<close>

definition BLOB_MAGIC :: "u8 list" where
  "BLOB_MAGIC = [0x4C, 0x45, 0x41, 0x4E, 0x53, 0x54, 0x52, 0x47]"
definition BLOB_VERSION :: u8 where "BLOB_VERSION = 1"
definition BLOB_KIND_STATE :: u8 where "BLOB_KIND_STATE = 1"
definition BLOB_KIND_BLOCK :: u8 where "BLOB_KIND_BLOCK = 2"
definition BLOB_KIND_SIGNED_BLOCK :: u8 where "BLOB_KIND_SIGNED_BLOCK = 3"
definition BLOB_HEADER_LEN :: nat where "BLOB_HEADER_LEN = 8 + 1 + 1 + 4 + 32"

text \<open>\<open>sha256\<close> is \<^verbatim>\<open>Sha256::digest\<close>.\<close>

definition encode_blob :: "(u8 list \<Rightarrow> u8 list) \<Rightarrow> u8 \<Rightarrow> u8 list \<Rightarrow> u8 list" where
  "encode_blob sha256 kind payload =
     BLOB_MAGIC @ [BLOB_VERSION] @ [kind] @ le32 (of_nat (length payload)) @ sha256 payload @ payload"

definition decode_blob_offset :: "u8 \<Rightarrow> u8 list \<Rightarrow> nat option" where
  "decode_blob_offset expected_kind bytes =
     (if length bytes < BLOB_HEADER_LEN then None
      else if take 8 bytes \<noteq> BLOB_MAGIC then None
      else if bytes ! 8 \<noteq> BLOB_VERSION then None
      else if bytes ! 9 \<noteq> expected_kind then None
      else
        let payload_len = unat (from_le_bytes (take 4 (drop 10 bytes)) :: u32) in
        if length bytes \<noteq> BLOB_HEADER_LEN + payload_len then None else Some BLOB_HEADER_LEN)"

definition decode_state_safe :: "ssz_lib \<Rightarrow> u8 list \<Rightarrow> state option result" where
  "decode_state_safe L bytes = ok_value (state_decode L bytes)"

definition decode_block_safe :: "ssz_lib \<Rightarrow> u8 list \<Rightarrow> block option result" where
  "decode_block_safe L bytes = ok_value (block_decode L bytes)"

definition decode_signed_block_safe :: "ssz_lib \<Rightarrow> u8 list \<Rightarrow> signed_block option result" where
  "decode_signed_block_safe L bytes = ok_value (signed_block_decode L bytes)"

definition is_pinned :: "bytes32 option list \<Rightarrow> bytes32 \<Rightarrow> bool" where
  "is_pinned pinned root = list_ex (\<lambda>p. p = Some root) pinned"

section \<open>Tables\<close>

definition STATE_SLOT_TABLE :: string where "STATE_SLOT_TABLE = ''canonical_state_slot''"
definition BLOCK_SLOT_TABLE :: string where "BLOCK_SLOT_TABLE = ''canonical_block_slot''"
definition META_TABLE :: string where "META_TABLE = ''canonical_meta''"
definition STATE_ROOT_INDEX_TABLE :: string where
  "STATE_ROOT_INDEX_TABLE = ''canonical_state_root_index''"
definition STATE_BLOB_TABLE :: string where "STATE_BLOB_TABLE = ''canonical_state_blob''"
definition BLOCK_BLOB_TABLE :: string where "BLOCK_BLOB_TABLE = ''canonical_block_blob''"
definition SIGNED_BLOCK_BLOB_TABLE :: string where
  "SIGNED_BLOCK_BLOB_TABLE = ''canonical_signed_block_blob''"

definition bytes_to_root :: "u8 list \<Rightarrow> bytes32 result" where
  "bytes_to_root raw =
     (if length raw \<noteq> 32 then Inl (Err ''canonical db root length must be 32'')
      else Inr (from_be_bytes raw))"

definition bytes_to_u64 :: "u8 list \<Rightarrow> u64 result" where
  "bytes_to_u64 raw =
     (if length raw \<noteq> 8 then Inl (Err ''canonical db u64 length must be 8'')
      else Inr (from_le_bytes raw))"

abbreviation root_bytes :: "bytes32 \<Rightarrow> u8 list" where "root_bytes \<equiv> be_bytes 32"

text \<open>The loops of \<^verbatim>\<open>clear_u64_table\<close> and \<^verbatim>\<open>clear_bytes_table\<close>; no value means that the loop runs
  for ever.\<close>

partial_function (option) clear_loop ::
    "('tx, 'k) table_ops \<Rightarrow> 'tx \<Rightarrow> string \<Rightarrow> 'tx result option" where
  "clear_loop T tx name =
     (case tb_pop_first T tx name of
        Inl e \<Rightarrow> Some (Inl e)
      | Inr (row, tx') \<Rightarrow> (case row of None \<Rightarrow> Some (Inr tx') | Some _ \<Rightarrow> clear_loop T tx' name))"

definition clear_table :: "('tx, 'k) table_ops \<Rightarrow> 'tx \<Rightarrow> string \<Rightarrow> 'tx result" where
  "clear_table T tx name = (case clear_loop T tx name of None \<Rightarrow> Inl Diverge | Some r \<Rightarrow> r)"

definition upsert_or_remove_meta ::
    "('tx, string) table_ops \<Rightarrow> 'tx \<Rightarrow> string \<Rightarrow> bytes32 option \<Rightarrow> 'tx result" where
  "upsert_or_remove_meta T tx key value =
     (case value of
        Some root \<Rightarrow> tb_insert T tx META_TABLE key (root_bytes root)
      | None \<Rightarrow> tb_remove T tx META_TABLE key)"

definition upsert_or_remove_meta_u64 ::
    "('tx, string) table_ops \<Rightarrow> 'tx \<Rightarrow> string \<Rightarrow> u64 option \<Rightarrow> 'tx result" where
  "upsert_or_remove_meta_u64 T tx key value =
     (case value of
        Some v \<Rightarrow> tb_insert T tx META_TABLE key (le64 v)
      | None \<Rightarrow> tb_remove T tx META_TABLE key)"

fun insert_slot_rows :: "('tx, u64) table_ops \<Rightarrow> 'tx \<Rightarrow> string \<Rightarrow> (u64 \<times> bytes32) list \<Rightarrow> 'tx result" where
  "insert_slot_rows T tx name [] = Inr tx"
| "insert_slot_rows T tx name ((slot, root) # rows) =
     and_then (tb_insert T tx name slot (root_bytes root)) (\<lambda>tx. insert_slot_rows T tx name rows)"

fun insert_root_rows ::
    "('tx, u8 list) table_ops \<Rightarrow> 'tx \<Rightarrow> string \<Rightarrow> (bytes32 \<times> bytes32) list \<Rightarrow> 'tx result" where
  "insert_root_rows T tx name [] = Inr tx"
| "insert_root_rows T tx name ((sroot, root) # rows) =
     and_then (tb_insert T tx name (root_bytes sroot) (root_bytes root))
       (\<lambda>tx. insert_root_rows T tx name rows)"

section \<open>Opening\<close>

definition tables_exist :: "('db, 'tx) redb \<Rightarrow> 'db \<Rightarrow> bool" where
  "tables_exist R db =
     (case rd_begin_read R db of
        Inl _ \<Rightarrow> False
      | Inr tx \<Rightarrow>
          is_ok (tb_open (rd_slots R) tx STATE_SLOT_TABLE) \<and>
          is_ok (tb_open (rd_slots R) tx BLOCK_SLOT_TABLE) \<and>
          is_ok (tb_open (rd_meta R) tx META_TABLE) \<and>
          is_ok (tb_open (rd_blobs R) tx STATE_ROOT_INDEX_TABLE) \<and>
          is_ok (tb_open (rd_blobs R) tx STATE_BLOB_TABLE) \<and>
          is_ok (tb_open (rd_blobs R) tx BLOCK_BLOB_TABLE) \<and>
          is_ok (tb_open (rd_blobs R) tx SIGNED_BLOCK_BLOB_TABLE))"

definition ensure_tables :: "('db, 'tx) redb \<Rightarrow> 'db \<Rightarrow> 'db result" where
  "ensure_tables R db =
     and_then (rd_begin_write R db) (\<lambda>tx.
     and_then (tb_open (rd_slots R) tx STATE_SLOT_TABLE) (\<lambda>tx.
     and_then (tb_open (rd_slots R) tx BLOCK_SLOT_TABLE) (\<lambda>tx.
     and_then (tb_open (rd_meta R) tx META_TABLE) (\<lambda>tx.
     and_then (tb_open (rd_blobs R) tx STATE_ROOT_INDEX_TABLE) (\<lambda>tx.
     and_then (tb_open (rd_blobs R) tx STATE_BLOB_TABLE) (\<lambda>tx.
     and_then (tb_open (rd_blobs R) tx BLOCK_BLOB_TABLE) (\<lambda>tx.
     and_then (tb_open (rd_blobs R) tx SIGNED_BLOCK_BLOB_TABLE) (\<lambda>tx.
     rd_commit R tx))))))))"

text \<open>\<open>path_exists\<close>, \<open>created\<close> and \<open>opened\<close> are what the file system and \<^verbatim>\<open>Database::create\<close> or
  \<^verbatim>\<open>Database::open\<close> answer for the path.\<close>

definition canonical_db_open ::
    "('db, 'tx) redb \<Rightarrow> bool \<Rightarrow> 'db result \<Rightarrow> 'db result \<Rightarrow> 'db result" where
  "canonical_db_open R path_exists created opened =
     (let is_new = \<not> path_exists in
      and_then (if is_new then created else opened) (\<lambda>db.
      if is_new then ensure_tables R db
      else if \<not> tables_exist R db then ensure_tables R db
      else Inr db))"

section \<open>Loading\<close>

fun load_slot_rows ::
    "(u64 \<times> u8 list) result list \<Rightarrow> (u64, bytes32) hmap \<Rightarrow> (u64, bytes32) hmap result" where
  "load_slot_rows [] out = Inr out"
| "load_slot_rows (row # rows) out =
     and_then row (\<lambda>(slot, root_raw).
     and_then (bytes_to_root root_raw) (\<lambda>root. load_slot_rows rows (hm_insert slot root out)))"

definition load_slot_index ::
    "('db, 'tx) redb \<Rightarrow> 'db \<Rightarrow> string \<Rightarrow> (u64, bytes32) hmap result" where
  "load_slot_index R db table_def =
     and_then (rd_begin_read R db) (\<lambda>tx.
     and_then (tb_open (rd_slots R) tx table_def) (\<lambda>tx.
     and_then (tb_iter (rd_slots R) tx table_def) (\<lambda>rows. load_slot_rows rows [])))"

definition db_load_state_index :: "('db, 'tx) redb \<Rightarrow> 'db \<Rightarrow> (u64, bytes32) hmap result" where
  "db_load_state_index R db = load_slot_index R db STATE_SLOT_TABLE"

definition db_load_block_index :: "('db, 'tx) redb \<Rightarrow> 'db \<Rightarrow> (u64, bytes32) hmap result" where
  "db_load_block_index R db = load_slot_index R db BLOCK_SLOT_TABLE"

fun load_root_rows ::
    "(u8 list \<times> u8 list) result list \<Rightarrow> (bytes32, bytes32) hmap \<Rightarrow> (bytes32, bytes32) hmap result" where
  "load_root_rows [] out = Inr out"
| "load_root_rows (row # rows) out =
     and_then row (\<lambda>(state_raw, block_raw).
     and_then (bytes_to_root state_raw) (\<lambda>sroot.
     and_then (bytes_to_root block_raw) (\<lambda>broot. load_root_rows rows (hm_insert sroot broot out))))"

definition load_state_root_index :: "('db, 'tx) redb \<Rightarrow> 'db \<Rightarrow> (bytes32, bytes32) hmap result" where
  "load_state_root_index R db =
     and_then (rd_begin_read R db) (\<lambda>tx.
     and_then (tb_open (rd_blobs R) tx STATE_ROOT_INDEX_TABLE) (\<lambda>tx.
     and_then (tb_iter (rd_blobs R) tx STATE_ROOT_INDEX_TABLE) (\<lambda>rows. load_root_rows rows [])))"

text \<open>\<^verbatim>\<open>Option::transpose\<close> on the decoded root.\<close>

definition decode_meta_root :: "u8 list option \<Rightarrow> bytes32 option result" where
  "decode_meta_root v =
     (case v of None \<Rightarrow> Inr None | Some raw \<Rightarrow> and_then (bytes_to_root raw) (\<lambda>r. Inr (Some r)))"

definition db_load_meta ::
    "('db, 'tx) redb \<Rightarrow> 'db \<Rightarrow>
     (bytes32 option \<times> bytes32 option \<times> bytes32 option \<times> u64 option) result" where
  "db_load_meta R db =
     and_then (rd_begin_read R db) (\<lambda>tx.
     and_then (tb_open (rd_meta R) tx META_TABLE) (\<lambda>tx.
     and_then (tb_get (rd_meta R) tx META_TABLE ''head'') (\<lambda>v.
     and_then (decode_meta_root v) (\<lambda>head.
     and_then (tb_get (rd_meta R) tx META_TABLE ''finalized'') (\<lambda>v.
     and_then (decode_meta_root v) (\<lambda>finalized.
     and_then (tb_get (rd_meta R) tx META_TABLE ''justified'') (\<lambda>v.
     and_then (decode_meta_root v) (\<lambda>justified.
     and_then (tb_get (rd_meta R) tx META_TABLE ''finalized_slot'') (\<lambda>v.
     let finalized_slot = (case v of None \<Rightarrow> None
           | Some raw \<Rightarrow> (case bytes_to_u64 raw of Inl _ \<Rightarrow> None | Inr x \<Rightarrow> Some x))
     in Inr (head, finalized, justified, finalized_slot))))))))))"

section \<open>Writing\<close>

definition persist_slot_index ::
    "('db, 'tx) redb \<Rightarrow> 'db \<Rightarrow> string \<Rightarrow> (u64, bytes32) hmap \<Rightarrow> 'db result" where
  "persist_slot_index R db table_def index =
     and_then (rd_begin_write R db) (\<lambda>tx.
     and_then (tb_open (rd_slots R) tx table_def) (\<lambda>tx.
     and_then (clear_table (rd_slots R) tx table_def) (\<lambda>tx.
     and_then (insert_slot_rows (rd_slots R) tx table_def index) (\<lambda>tx.
     rd_commit R tx))))"

definition db_persist_state_index :: "('db, 'tx) redb \<Rightarrow> 'db \<Rightarrow> (u64, bytes32) hmap \<Rightarrow> 'db result" where
  "db_persist_state_index R db index = persist_slot_index R db STATE_SLOT_TABLE index"

definition db_persist_block_index :: "('db, 'tx) redb \<Rightarrow> 'db \<Rightarrow> (u64, bytes32) hmap \<Rightarrow> 'db result" where
  "db_persist_block_index R db index = persist_slot_index R db BLOCK_SLOT_TABLE index"

record fc_meta =
  fm_head :: "bytes32 option"
  fm_finalized :: "bytes32 option"
  fm_finalized_slot :: "u64 option"
  fm_justified :: "bytes32 option"

definition persist_meta :: "('db, 'tx) redb \<Rightarrow> 'tx \<Rightarrow> fc_meta \<Rightarrow> 'tx result" where
  "persist_meta R tx m =
     and_then (tb_open (rd_meta R) tx META_TABLE) (\<lambda>tx.
     and_then (upsert_or_remove_meta (rd_meta R) tx ''head'' (fm_head m)) (\<lambda>tx.
     and_then (upsert_or_remove_meta (rd_meta R) tx ''finalized'' (fm_finalized m)) (\<lambda>tx.
     and_then (upsert_or_remove_meta_u64 (rd_meta R) tx ''finalized_slot'' (fm_finalized_slot m)) (\<lambda>tx.
     upsert_or_remove_meta (rd_meta R) tx ''justified'' (fm_justified m)))))"

definition persist_snapshot ::
    "('db, 'tx) redb \<Rightarrow> 'db \<Rightarrow> (u64, bytes32) hmap \<Rightarrow> (u64, bytes32) hmap \<Rightarrow>
     (bytes32, bytes32) hmap \<Rightarrow> bool \<Rightarrow> fc_meta \<Rightarrow> 'db result" where
  "persist_snapshot R db state_index block_index state_root_index rewrite_state_root_index m =
     and_then (rd_begin_write R db) (\<lambda>tx.
     and_then (tb_open (rd_slots R) tx STATE_SLOT_TABLE) (\<lambda>tx.
     and_then (clear_table (rd_slots R) tx STATE_SLOT_TABLE) (\<lambda>tx.
     and_then (insert_slot_rows (rd_slots R) tx STATE_SLOT_TABLE state_index) (\<lambda>tx.
     and_then (tb_open (rd_slots R) tx BLOCK_SLOT_TABLE) (\<lambda>tx.
     and_then (clear_table (rd_slots R) tx BLOCK_SLOT_TABLE) (\<lambda>tx.
     and_then (insert_slot_rows (rd_slots R) tx BLOCK_SLOT_TABLE block_index) (\<lambda>tx.
     and_then (if rewrite_state_root_index
               then and_then (tb_open (rd_blobs R) tx STATE_ROOT_INDEX_TABLE) (\<lambda>tx.
                    and_then (clear_table (rd_blobs R) tx STATE_ROOT_INDEX_TABLE) (\<lambda>tx.
                    insert_root_rows (rd_blobs R) tx STATE_ROOT_INDEX_TABLE state_root_index))
               else Inr tx) (\<lambda>tx.
     and_then (persist_meta R tx m) (\<lambda>tx.
     rd_commit R tx)))))))))"

definition persist_signed_block_bundle ::
    "('db, 'tx) redb \<Rightarrow> 'db \<Rightarrow> bytes32 \<Rightarrow> u8 list \<Rightarrow> u8 list \<Rightarrow> bytes32 \<Rightarrow> u8 list \<Rightarrow>
     (u64 \<times> bytes32) list \<Rightarrow> (u64 \<times> bytes32) list \<Rightarrow> fc_meta \<Rightarrow> 'db result" where
  "persist_signed_block_bundle R db broot block_blob signed_blob sroot state_blob
       state_upserts block_upserts m =
     and_then (rd_begin_write R db) (\<lambda>tx.
     and_then (tb_open (rd_blobs R) tx STATE_ROOT_INDEX_TABLE) (\<lambda>tx.
     and_then (tb_insert (rd_blobs R) tx STATE_ROOT_INDEX_TABLE (root_bytes sroot) (root_bytes broot)) (\<lambda>tx.
     and_then (tb_open (rd_blobs R) tx STATE_BLOB_TABLE) (\<lambda>tx.
     and_then (tb_insert (rd_blobs R) tx STATE_BLOB_TABLE (root_bytes broot) state_blob) (\<lambda>tx.
     and_then (tb_open (rd_blobs R) tx BLOCK_BLOB_TABLE) (\<lambda>tx.
     and_then (tb_insert (rd_blobs R) tx BLOCK_BLOB_TABLE (root_bytes broot) block_blob) (\<lambda>tx.
     and_then (tb_open (rd_blobs R) tx SIGNED_BLOCK_BLOB_TABLE) (\<lambda>tx.
     and_then (tb_insert (rd_blobs R) tx SIGNED_BLOCK_BLOB_TABLE (root_bytes broot) signed_blob) (\<lambda>tx.
     and_then (tb_open (rd_slots R) tx STATE_SLOT_TABLE) (\<lambda>tx.
     and_then (insert_slot_rows (rd_slots R) tx STATE_SLOT_TABLE state_upserts) (\<lambda>tx.
     and_then (tb_open (rd_slots R) tx BLOCK_SLOT_TABLE) (\<lambda>tx.
     and_then (insert_slot_rows (rd_slots R) tx BLOCK_SLOT_TABLE block_upserts) (\<lambda>tx.
     and_then (persist_meta R tx m) (\<lambda>tx.
     rd_commit R tx))))))))))))))"

definition persist_blob :: "('db, 'tx) redb \<Rightarrow> 'db \<Rightarrow> string \<Rightarrow> bytes32 \<Rightarrow> u8 list \<Rightarrow> 'db result" where
  "persist_blob R db table_def root encoded =
     and_then (rd_begin_write R db) (\<lambda>tx.
     and_then (tb_open (rd_blobs R) tx table_def) (\<lambda>tx.
     and_then (tb_insert (rd_blobs R) tx table_def (root_bytes root) encoded) (\<lambda>tx.
     rd_commit R tx)))"

definition persist_state_blob :: "('db, 'tx) redb \<Rightarrow> 'db \<Rightarrow> bytes32 \<Rightarrow> u8 list \<Rightarrow> 'db result" where
  "persist_state_blob R db root encoded = persist_blob R db STATE_BLOB_TABLE root encoded"

definition persist_block_blob :: "('db, 'tx) redb \<Rightarrow> 'db \<Rightarrow> bytes32 \<Rightarrow> u8 list \<Rightarrow> 'db result" where
  "persist_block_blob R db root encoded = persist_blob R db BLOCK_BLOB_TABLE root encoded"

definition persist_state_root_mapping :: "('db, 'tx) redb \<Rightarrow> 'db \<Rightarrow> bytes32 \<Rightarrow> bytes32 \<Rightarrow> 'db result" where
  "persist_state_root_mapping R db sroot broot =
     and_then (rd_begin_write R db) (\<lambda>tx.
     and_then (tb_open (rd_blobs R) tx STATE_ROOT_INDEX_TABLE) (\<lambda>tx.
     and_then (tb_insert (rd_blobs R) tx STATE_ROOT_INDEX_TABLE (root_bytes sroot) (root_bytes broot)) (\<lambda>tx.
     rd_commit R tx)))"

text \<open>\<open>f\<close> decodes the bytes; its \<^verbatim>\<open>None\<close> and a missing row look the same to the caller.\<close>

definition with_blob ::
    "('db, 'tx) redb \<Rightarrow> 'db \<Rightarrow> string \<Rightarrow> bytes32 \<Rightarrow> (u8 list \<Rightarrow> 'a option result) \<Rightarrow> 'a option result" where
  "with_blob R db table_def root f =
     and_then (rd_begin_read R db) (\<lambda>tx.
     and_then (tb_open (rd_blobs R) tx table_def) (\<lambda>tx.
     and_then (tb_get (rd_blobs R) tx table_def (root_bytes root)) (\<lambda>v.
     case v of Some value \<Rightarrow> f value | None \<Rightarrow> Inr None)))"

section \<open>Garbage collection\<close>

record blob_gc_report =
  gc_state_blobs :: nat
  gc_block_blobs :: nat
  gc_signed_block_blobs :: nat

fun gc_collect :: "(u8 list \<times> u8 list) result list \<Rightarrow> bytes32 set \<Rightarrow> bytes32 list result" where
  "gc_collect [] keep_roots = Inr []"
| "gc_collect (row # rows) keep_roots =
     and_then row (\<lambda>(key, _).
     and_then (bytes_to_root key) (\<lambda>root.
     and_then (gc_collect rows keep_roots) (\<lambda>rest.
     Inr (if root \<notin> keep_roots then root # rest else rest))))"

fun gc_remove :: "('tx, u8 list) table_ops \<Rightarrow> 'tx \<Rightarrow> string \<Rightarrow> bytes32 list \<Rightarrow> 'tx result" where
  "gc_remove T tx name [] = Inr tx"
| "gc_remove T tx name (root # roots) =
     and_then (tb_remove T tx name (root_bytes root)) (\<lambda>tx. gc_remove T tx name roots)"

definition gc_blob_table ::
    "('tx, u8 list) table_ops \<Rightarrow> 'tx \<Rightarrow> string \<Rightarrow> bytes32 set \<Rightarrow> (nat \<times> 'tx) result" where
  "gc_blob_table T tx name keep_roots =
     and_then (tb_iter T tx name) (\<lambda>rows.
     and_then (gc_collect rows keep_roots) (\<lambda>to_delete.
     and_then (gc_remove T tx name to_delete) (\<lambda>tx.
     Inr (length to_delete, tx))))"

definition gc_unreferenced_blobs ::
    "('db, 'tx) redb \<Rightarrow> 'db \<Rightarrow> bytes32 set \<Rightarrow> bytes32 set \<Rightarrow> (blob_gc_report \<times> 'db) result" where
  "gc_unreferenced_blobs R db keep_state_block_roots keep_block_roots =
     and_then (rd_begin_write R db) (\<lambda>tx.
     and_then (tb_open (rd_blobs R) tx STATE_BLOB_TABLE) (\<lambda>tx.
     and_then (gc_blob_table (rd_blobs R) tx STATE_BLOB_TABLE keep_state_block_roots) (\<lambda>(s, tx).
     and_then (tb_open (rd_blobs R) tx BLOCK_BLOB_TABLE) (\<lambda>tx.
     and_then (gc_blob_table (rd_blobs R) tx BLOCK_BLOB_TABLE keep_block_roots) (\<lambda>(b, tx).
     and_then (tb_open (rd_blobs R) tx SIGNED_BLOCK_BLOB_TABLE) (\<lambda>tx.
     and_then (gc_blob_table (rd_blobs R) tx SIGNED_BLOCK_BLOB_TABLE keep_block_roots) (\<lambda>(g, tx).
     and_then (rd_commit R tx) (\<lambda>db.
     Inr (\<lparr>gc_state_blobs = s, gc_block_blobs = b, gc_signed_block_blobs = g\<rparr>, db)))))))))"

end
