(* ===== verification/PendingCache.thy ===== *)
theory PendingCache
  imports Containers
begin

text \<open>
  The pending-slot cache of \<^verbatim>\<open>src/storage/pending.rs\<close>: a table of fixed capacity addressed by
  \<^verbatim>\<open>slot % capacity\<close> whose buckets carry the slot, so that a wrapped-around slot is not
  mistaken for another. It implements a partial map from slots to block roots that forgets
  the slots that share a bucket with a newer one. A decrement of the entry counter at zero
  is an arithmetic panic.
\<close>

section \<open>Definitions\<close>

record pending_entry =
  pe_slot :: u64
  pe_block_root :: bytes32

record pending_cache =
  pc_entries :: "pending_entry option list"
  pc_count :: nat

text \<open>\<^verbatim>\<open>iter().flatten()\<close> on optional values.\<close>

fun somes :: "'a option list \<Rightarrow> 'a list" where
  "somes [] = []"
| "somes (None # xs) = somes xs"
| "somes (Some x # xs) = x # somes xs"

definition pending_new :: "nat \<Rightarrow> pending_cache" where
  "pending_new capacity = \<lparr>pc_entries = replicate capacity None, pc_count = 0\<rparr>"

definition pending_len :: "pending_cache \<Rightarrow> nat" where
  "pending_len c = pc_count c"

definition pending_index :: "pending_cache \<Rightarrow> u64 \<Rightarrow> nat result" where
  "pending_index c slot =
     (if length (pc_entries c) = 0 then Inl Panic
      else Inr (unat slot mod length (pc_entries c)))"

definition pending_insert ::
    "pending_cache \<Rightarrow> u64 \<Rightarrow> bytes32 \<Rightarrow> (pending_entry option \<times> pending_cache) result" where
  "pending_insert c slot root =
     and_then (pending_index c slot) (\<lambda>idx.
     let prev = pc_entries c ! idx;
         cnt = (if prev = None then pc_count c + 1 else pc_count c)
     in Inr (prev, \<lparr>pc_entries = (pc_entries c)
                       [idx := Some \<lparr>pe_slot = slot, pe_block_root = root\<rparr>],
                     pc_count = cnt\<rparr>))"

definition pending_get :: "pending_cache \<Rightarrow> u64 \<Rightarrow> pending_entry option result" where
  "pending_get c slot =
     and_then (pending_index c slot) (\<lambda>idx.
     Inr (case pc_entries c ! idx of
            Some entry \<Rightarrow> if pe_slot entry = slot then Some entry else None
          | None \<Rightarrow> None))"

text \<open>The loops of \<^verbatim>\<open>drain_leq_with\<close> and \<^verbatim>\<open>retain\<close>: entries that fail \<open>keep\<close> are removed from
  their buckets and, for the former, handed to the callback in bucket order.\<close>

fun pending_drain_loop ::
    "(pending_entry \<Rightarrow> bool) \<Rightarrow> pending_entry option list \<Rightarrow> nat \<Rightarrow>
     (pending_entry list \<times> pending_entry option list \<times> nat) result" where
  "pending_drain_loop keep [] cnt = Inr ([], [], cnt)"
| "pending_drain_loop keep (None # entries) cnt =
     and_then (pending_drain_loop keep entries cnt) (\<lambda>(ds, es, n). Inr (ds, None # es, n))"
| "pending_drain_loop keep (Some value # entries) cnt =
     (if \<not> keep value
      then if cnt = 0 then Inl Panic
           else and_then (pending_drain_loop keep entries (cnt - 1)) (\<lambda>(ds, es, n).
                Inr (value # ds, None # es, n))
      else and_then (pending_drain_loop keep entries cnt) (\<lambda>(ds, es, n).
           Inr (ds, Some value # es, n)))"

definition drain_leq_with ::
    "pending_cache \<Rightarrow> u64 \<Rightarrow> (pending_entry list \<times> pending_cache) result" where
  "drain_leq_with c upper_inclusive =
     and_then (pending_drain_loop (\<lambda>value. \<not> pe_slot value \<le> upper_inclusive) (pc_entries c) (pc_count c))
       (\<lambda>(drained, entries, cnt).
     Inr (drained, \<lparr>pc_entries = entries, pc_count = cnt\<rparr>))"

definition entries_leq :: "pending_cache \<Rightarrow> u64 \<Rightarrow> pending_entry list" where
  "entries_leq c upper_inclusive =
     filter (\<lambda>entry. pe_slot entry \<le> upper_inclusive) (somes (pc_entries c))"

definition pending_retain ::
    "pending_cache \<Rightarrow> (u64 \<Rightarrow> bytes32 \<Rightarrow> bool) \<Rightarrow> pending_cache result" where
  "pending_retain c keep =
     and_then (pending_drain_loop (\<lambda>value. keep (pe_slot value) (pe_block_root value)) (pc_entries c) (pc_count c))
       (\<lambda>(_, entries, cnt). Inr \<lparr>pc_entries = entries, pc_count = cnt\<rparr>)"

definition pending_roots :: "pending_cache \<Rightarrow> bytes32 list" where
  "pending_roots c = somes (map (map_option pe_block_root) (pc_entries c))"

definition extend_referenced_roots ::
    "pending_cache \<Rightarrow> bytes32 set \<Rightarrow> bytes32 set \<Rightarrow> bytes32 set \<times> bytes32 set" where
  "extend_referenced_roots c block_roots state_block_roots =
     (let roots = map pe_block_root (somes (pc_entries c))
      in (block_roots \<union> set roots, state_block_roots \<union> set roots))"

section \<open>The cache as a map\<close>

fun occupied :: "'a option \<Rightarrow> bool" where
  "occupied None = False"
| "occupied (Some _) = True"

definition pending_inv :: "pending_cache \<Rightarrow> bool" where
  "pending_inv c \<longleftrightarrow> pc_entries c \<noteq> [] \<and>
     pc_count c = length (filter occupied (pc_entries c)) \<and>
     (\<forall>i < length (pc_entries c). \<forall>e. pc_entries c ! i = Some e \<longrightarrow>
        unat (pe_slot e) mod length (pc_entries c) = i)"

definition pending_map :: "pending_cache \<Rightarrow> u64 \<rightharpoonup> bytes32" where
  "pending_map c slot =
     (case pc_entries c ! (unat slot mod length (pc_entries c)) of
        Some e \<Rightarrow> if pe_slot e = slot then Some (pe_block_root e) else None
      | None \<Rightarrow> None)"

text \<open>The map after an insertion: slots in the bucket of the new one are forgotten.\<close>

definition evict_insert :: "nat \<Rightarrow> u64 \<Rightarrow> bytes32 \<Rightarrow> (u64 \<rightharpoonup> bytes32) \<Rightarrow> u64 \<rightharpoonup> bytes32" where
  "evict_insert cap slot root m =
     (\<lambda>s. if s = slot then Some root else if unat s mod cap = unat slot mod cap then None else m s)"

lemma pending_inv_new: "0 < n \<Longrightarrow> pending_inv (pending_new n)"
  by (simp add: pending_inv_def pending_new_def)

lemma pending_map_new: "0 < n \<Longrightarrow> pending_map (pending_new n) = Map.empty"
  by (simp add: pending_map_def pending_new_def fun_eq_iff)

lemma pending_index_eq:
  "pending_inv c \<Longrightarrow> pending_index c slot = Inr (unat slot mod length (pc_entries c))"
  by (simp add: pending_inv_def pending_index_def)

lemma pending_bucket: "pending_inv c \<Longrightarrow> unat slot mod length (pc_entries c) < length (pc_entries c)"
  by (simp add: pending_inv_def)

lemma pending_get_eq:
  assumes "pending_inv c"
  shows "pending_get c slot =
    Inr (map_option (\<lambda>r. \<lparr>pe_slot = slot, pe_block_root = r\<rparr>) (pending_map c slot))"
  by (auto simp: pending_get_def pending_index_eq [OF assms] pending_map_def split: option.splits)

lemma filter_occupied_update:
  "i < length es \<Longrightarrow> length (filter occupied (es[i := Some v])) =
     length (filter occupied es) + (if es ! i = None then 1 else 0)"
proof (induction es arbitrary: i)
  case (Cons e es)
  then show ?case by (cases i; cases e) auto
qed simp

lemma pending_insert_spec:
  assumes inv: "pending_inv c"
  obtains prev c' where "pending_insert c slot root = Inr (prev, c')" "pending_inv c'"
    "pending_map c' = evict_insert (length (pc_entries c)) slot root (pending_map c)"
    "length (pc_entries c') = length (pc_entries c)"
proof -
  let ?n = "length (pc_entries c)" let ?i = "unat slot mod ?n"
  note i = pending_bucket [OF inv, of slot]
  let ?c = "\<lparr>pc_entries = (pc_entries c)[?i := Some \<lparr>pe_slot = slot, pe_block_root = root\<rparr>],
    pc_count = (if pc_entries c ! ?i = None then pc_count c + 1 else pc_count c)\<rparr>"
  show ?thesis
  proof (rule that)
    show "pending_insert c slot root = Inr (pc_entries c ! ?i, ?c)"
      by (simp add: pending_insert_def pending_index_eq [OF inv] Let_def)
    show "pending_inv ?c"
      using inv i by (auto simp: pending_inv_def filter_occupied_update nth_list_update split: if_splits)
    show "pending_map ?c = evict_insert ?n slot root (pending_map c)"
      using i by (auto simp: pending_map_def evict_insert_def nth_list_update fun_eq_iff split: option.splits)
  qed simp
qed

lemma pending_drain_loop_spec:
  "length (filter occupied es) \<le> n \<Longrightarrow>
   pending_drain_loop keep es n =
     Inr (filter (\<lambda>v. \<not> keep v) (somes es),
       map (\<lambda>e. case e of Some v \<Rightarrow> if keep v then Some v else None | None \<Rightarrow> None) es,
       n - length (filter (\<lambda>v. \<not> keep v) (somes es)))"
proof (induction keep es n rule: pending_drain_loop.induct)
  case (3 keep v es n)
  then show ?case by (cases n) auto
qed auto

lemma set_somes: "v \<in> set (somes es) \<longleftrightarrow> Some v \<in> set es"
  by (induction es rule: somes.induct) (auto split: option.splits)

lemma drained_count:
  "length (filter occupied (map (\<lambda>e. case e of Some v \<Rightarrow> if keep v then Some v else None | None \<Rightarrow> None) es)) +
   length (filter (\<lambda>v. \<not> keep v) (somes es)) = length (filter occupied es)"
  by (induction es rule: somes.induct) (auto split: option.splits)

lemma drained_inv:
  assumes inv: "pending_inv c"
  shows "pending_inv \<lparr>pc_entries = map (\<lambda>e. case e of Some v \<Rightarrow> if keep v then Some v else None | None \<Rightarrow> None) (pc_entries c),
    pc_count = pc_count c - length (filter (\<lambda>v. \<not> keep v) (somes (pc_entries c)))\<rparr>"
  using inv drained_count [of keep "pc_entries c"]
  by (auto simp: pending_inv_def split: option.splits if_splits)

lemma pending_entry_iff:
  assumes inv: "pending_inv c"
  shows "Some e \<in> set (pc_entries c) \<longleftrightarrow> pending_map c (pe_slot e) = Some (pe_block_root e)"
proof
  assume "Some e \<in> set (pc_entries c)"
  then obtain i where "i < length (pc_entries c)" "pc_entries c ! i = Some e" by (auto simp: in_set_conv_nth)
  then show "pending_map c (pe_slot e) = Some (pe_block_root e)"
    using inv by (auto simp: pending_map_def pending_inv_def)
next
  let ?i = "unat (pe_slot e) mod length (pc_entries c)"
  assume "pending_map c (pe_slot e) = Some (pe_block_root e)"
  then have "pc_entries c ! ?i = Some e" by (auto simp: pending_map_def split: option.splits if_splits)
  then show "Some e \<in> set (pc_entries c)" using nth_mem [OF pending_bucket [OF inv, of "pe_slot e"]] by simp
qed

lemma drain_leq_with_spec:
  assumes inv: "pending_inv c"
  obtains c' where "drain_leq_with c u = Inr (entries_leq c u, c')" "pending_inv c'"
    "pending_map c' = (\<lambda>s. if s \<le> u then None else pending_map c s)"
    "length (pc_entries c') = length (pc_entries c)"
proof -
  let ?keep = "\<lambda>v. \<not> pe_slot v \<le> u"
  let ?c = "\<lparr>pc_entries = map (\<lambda>e. case e of Some v \<Rightarrow> if ?keep v then Some v else None | None \<Rightarrow> None) (pc_entries c),
    pc_count = pc_count c - length (filter (\<lambda>v. \<not> ?keep v) (somes (pc_entries c)))\<rparr>"
  show ?thesis
  proof (rule that [of ?c])
    show "drain_leq_with c u = Inr (entries_leq c u, ?c)"
      using inv by (simp add: drain_leq_with_def pending_drain_loop_spec entries_leq_def pending_inv_def)
    show "pending_inv ?c" by (rule drained_inv [OF inv])
    show "pending_map ?c = (\<lambda>s. if s \<le> u then None else pending_map c s)"
    proof
      fix s
      show "pending_map ?c s = (if s \<le> u then None else pending_map c s)"
        using pending_bucket [OF inv, of s] by (auto simp: pending_map_def nth_map split: option.splits)
    qed
  qed simp
qed

lemma entries_leq_iff:
  "pending_inv c \<Longrightarrow> e \<in> set (entries_leq c u) \<longleftrightarrow>
     pe_slot e \<le> u \<and> pending_map c (pe_slot e) = Some (pe_block_root e)"
  by (auto simp: entries_leq_def set_somes pending_entry_iff)

lemma distinct_map_somes:
  assumes "\<And>i j a b. i < j \<Longrightarrow> j < length es \<Longrightarrow> es ! i = Some a \<Longrightarrow> es ! j = Some b \<Longrightarrow> f a \<noteq> f b"
  shows "distinct (map f (somes es))"
  using assms
proof (induction es)
  case (Cons e es)
  have "distinct (map f (somes es))"
    using Cons.prems [of "Suc _" "Suc _"] by (intro Cons.IH) auto
  moreover have "f a \<notin> f ` set (somes es)" if "e = Some a" for a
  proof
    assume "f a \<in> f ` set (somes es)"
    then obtain b where b: "f a = f b" "b \<in> set (somes es)" by (rule imageE)
    then have "Some b \<in> set es" by (simp add: set_somes)
    then obtain j where "j < length es" "es ! j = Some b" unfolding in_set_conv_nth by blast
    with b(1) show False using Cons.prems [of 0 "Suc j" a b] that by simp
  qed
  ultimately show ?case by (cases e) auto
qed simp

lemma pending_len_eq:
  assumes inv: "pending_inv c"
  shows "pending_len c = card (dom (pending_map c))"
proof -
  let ?es = "somes (pc_entries c)"
  have "distinct (map pe_slot ?es)"
  proof (rule distinct_map_somes)
    fix i j a b assume "i < j" "j < length (pc_entries c)" "pc_entries c ! i = Some a" "pc_entries c ! j = Some b"
    then have "unat (pe_slot a) mod length (pc_entries c) = i" "unat (pe_slot b) mod length (pc_entries c) = j"
      using inv unfolding pending_inv_def by simp_all
    then show "pe_slot a \<noteq> pe_slot b" using \<open>i < j\<close> by auto
  qed
  moreover have "dom (pending_map c) = pe_slot ` set ?es"
  proof (intro set_eqI iffI)
    fix s assume "s \<in> dom (pending_map c)"
    then obtain r where "pending_map c s = Some r" by auto
    then have "Some \<lparr>pe_slot = s, pe_block_root = r\<rparr> \<in> set (pc_entries c)"
      using pending_entry_iff [OF inv, of "\<lparr>pe_slot = s, pe_block_root = r\<rparr>"] by simp
    then have "\<lparr>pe_slot = s, pe_block_root = r\<rparr> \<in> set ?es" by (simp add: set_somes)
    then show "s \<in> pe_slot ` set ?es" by force
  qed (use pending_entry_iff [OF inv] in \<open>auto simp: set_somes\<close>)
  moreover have "length (filter occupied es) = length (somes es)" for es :: "pending_entry option list"
    by (induction es rule: somes.induct) auto
  ultimately show ?thesis
    using inv distinct_card [of "map pe_slot ?es"] by (simp add: pending_inv_def pending_len_def)
qed

section \<open>Property\<close>

text \<open>
  C12 (the pending cache is a map). On a cache with at least one bucket no operation panics.
  Insertion stores the root under its slot and forgets at most the slot that shared the
  bucket. A lookup returns the root stored for exactly this slot, never one that wrapped
  around. Draining removes and reports exactly the slots up to the bound, and the counter
  is the number of stored slots.
\<close>

theorem pending_cache_refines_map:
  assumes "pending_inv c"
  shows "(\<exists>prev c'. pending_insert c slot root = Inr (prev, c') \<and> pending_inv c' \<and>
      pending_map c' = evict_insert (length (pc_entries c)) slot root (pending_map c)) \<and>
    (\<exists>drained c'. drain_leq_with c u = Inr (drained, c') \<and> pending_inv c' \<and>
      pending_map c' = (\<lambda>s. if s \<le> u then None else pending_map c s) \<and>
      (\<forall>e. e \<in> set drained \<longleftrightarrow> pe_slot e \<le> u \<and> pending_map c (pe_slot e) = Some (pe_block_root e))) \<and>
    pending_get c slot = Inr (map_option (\<lambda>r. \<lparr>pe_slot = slot, pe_block_root = r\<rparr>) (pending_map c slot)) \<and>
    pending_len c = card (dom (pending_map c))"
proof (intro conjI)
  show "\<exists>prev c'. pending_insert c slot root = Inr (prev, c') \<and> pending_inv c' \<and>
      pending_map c' = evict_insert (length (pc_entries c)) slot root (pending_map c)"
    by (rule pending_insert_spec [OF assms, of slot root]) blast
  show "\<exists>drained c'. drain_leq_with c u = Inr (drained, c') \<and> pending_inv c' \<and>
      pending_map c' = (\<lambda>s. if s \<le> u then None else pending_map c s) \<and>
      (\<forall>e. e \<in> set drained \<longleftrightarrow> pe_slot e \<le> u \<and> pending_map c (pe_slot e) = Some (pe_block_root e))"
    by (rule drain_leq_with_spec [OF assms, of u]) (use entries_leq_iff [OF assms] in blast)
qed (rule pending_get_eq [OF assms], rule pending_len_eq [OF assms])

theorem pending_cache_refines_map_witness:
  "pending_get (pending_new 8) 3 = Inr None \<and> pending_len (pending_new 8) = 0 \<and>
   (\<exists>prev c'. pending_insert (pending_new 8) 3 7 = Inr (prev, c') \<and> pending_map c' 3 = Some 7)"
proof -
  have "pending_inv (pending_new 8)" by (rule pending_inv_new) simp
  from pending_cache_refines_map [OF this, of 3 7 0] show ?thesis
    by (auto simp: pending_map_new evict_insert_def)
qed

end
