(* ===== verification/FileStore.thy ===== *)
theory FileStore
  imports CanonicalDb PendingCache StateTransition
begin

text \<open>
  The disk-backed store of \<^verbatim>\<open>src/storage/file_store.rs\<close> with \<^verbatim>\<open>index.rs\<close> and \<^verbatim>\<open>prune.rs\<close>: slot
  indexes and fork-choice metadata in memory, blobs in the database, a pending window for
  slots that are not final. \<open>R\<close> is the database library, \<open>L\<close> the SSZ library, \<open>Q\<close> the
  signature library and \<open>sha256\<close> the hash of the envelope. Methods that can fail after
  they changed the store return the error and the store; those that fail only before
  return one or the other. Logging and metrics are left out.
\<close>

section \<open>The store\<close>

definition PENDING_WINDOW_CAP :: nat where "PENDING_WINDOW_CAP = 2048"

record recovery_report =
  rr_loaded_states :: nat
  rr_loaded_blocks :: nat
  rr_loaded_signed_blocks :: nat
  rr_skipped_corrupt :: nat

record 'db file_store =
  fs_db :: 'db
  fs_state_by_slot :: "(u64, bytes32) hmap"
  fs_state_root_to_block_root :: "(bytes32, bytes32) hmap"
  fs_block_by_slot :: "(u64, bytes32) hmap"
  fs_pending :: pending_cache
  fs_head :: "bytes32 option"
  fs_finalized :: "bytes32 option"
  fs_finalized_slot :: "u64 option"
  fs_justified :: "bytes32 option"
  fs_recovery :: recovery_report
  fs_index_dirty :: bool
  fs_meta_dirty :: bool

definition canonical_state_rows :: "'db file_store \<Rightarrow> nat" where
  "canonical_state_rows fs = length (fs_state_by_slot fs)"

definition canonical_block_rows :: "'db file_store \<Rightarrow> nat" where
  "canonical_block_rows fs = length (fs_block_by_slot fs)"

definition pending_block_rows :: "'db file_store \<Rightarrow> nat" where
  "pending_block_rows fs = pending_len (fs_pending fs)"

definition pinned_roots :: "'db file_store \<Rightarrow> bytes32 option list" where
  "pinned_roots fs = [fs_head fs, fs_justified fs, fs_finalized fs]"

section \<open>Reads\<close>

text \<open>\<^verbatim>\<open>with_blob(..).ok()?\<close>: a database error is a miss.\<close>

definition read_blob ::
    "('db, 'tx) redb \<Rightarrow> 'db \<Rightarrow> string \<Rightarrow> bytes32 \<Rightarrow> (u8 list \<Rightarrow> 'a option result) \<Rightarrow> 'a option result" where
  "read_blob R db table root f =
     and_then (ok_value (with_blob R db table root f)) (\<lambda>r. Inr (Option.bind r id))"

definition load_state_by_block_root ::
    "('db, 'tx) redb \<Rightarrow> ssz_lib \<Rightarrow> 'db file_store \<Rightarrow> bytes32 \<Rightarrow> state option result" where
  "load_state_by_block_root R L fs root =
     read_blob R (fs_db fs) STATE_BLOB_TABLE root (\<lambda>bytes.
       case decode_blob_offset BLOB_KIND_STATE bytes of
         None \<Rightarrow> Inr None | Some off \<Rightarrow> decode_state_safe L (drop off bytes))"

definition load_state_by_identifier ::
    "('db, 'tx) redb \<Rightarrow> ssz_lib \<Rightarrow> 'db file_store \<Rightarrow> bytes32 \<Rightarrow> state option result" where
  "load_state_by_identifier R L fs root =
     (let broot = (case hm_get (fs_state_root_to_block_root fs) root of None \<Rightarrow> root | Some b \<Rightarrow> b)
      in load_state_by_block_root R L fs broot)"

definition load_block_by_root ::
    "('db, 'tx) redb \<Rightarrow> ssz_lib \<Rightarrow> 'db file_store \<Rightarrow> bytes32 \<Rightarrow> block option result" where
  "load_block_by_root R L fs root =
     read_blob R (fs_db fs) BLOCK_BLOB_TABLE root (\<lambda>bytes.
       case decode_blob_offset BLOB_KIND_BLOCK bytes of
         None \<Rightarrow> Inr None | Some off \<Rightarrow> decode_block_safe L (drop off bytes))"

definition load_signed_block_by_root ::
    "('db, 'tx) redb \<Rightarrow> ssz_lib \<Rightarrow> 'db file_store \<Rightarrow> bytes32 \<Rightarrow> signed_block option result" where
  "load_signed_block_by_root R L fs root =
     read_blob R (fs_db fs) SIGNED_BLOCK_BLOB_TABLE root (\<lambda>bytes.
       case decode_blob_offset BLOB_KIND_SIGNED_BLOCK bytes of
         None \<Rightarrow> Inr None | Some off \<Rightarrow> decode_signed_block_safe L (drop off bytes))"

definition fs_get_state ::
    "('db, 'tx) redb \<Rightarrow> ssz_lib \<Rightarrow> 'db file_store \<Rightarrow> bytes32 \<Rightarrow> state option result" where
  "fs_get_state R L fs root = load_state_by_identifier R L fs root"

definition fs_get_block ::
    "('db, 'tx) redb \<Rightarrow> ssz_lib \<Rightarrow> 'db file_store \<Rightarrow> bytes32 \<Rightarrow> block option result" where
  "fs_get_block R L fs root = load_block_by_root R L fs root"

definition fs_get_signed_block ::
    "('db, 'tx) redb \<Rightarrow> ssz_lib \<Rightarrow> 'db file_store \<Rightarrow> bytes32 \<Rightarrow> signed_block option result" where
  "fs_get_signed_block R L fs root = load_signed_block_by_root R L fs root"

definition fs_get_state_by_slot ::
    "('db, 'tx) redb \<Rightarrow> ssz_lib \<Rightarrow> 'db file_store \<Rightarrow> u64 \<Rightarrow> state option result" where
  "fs_get_state_by_slot R L fs slot =
     and_then (pending_get (fs_pending fs) slot) (\<lambda>hit.
     case hit of
       Some entry \<Rightarrow> load_state_by_block_root R L fs (pe_block_root entry)
     | None \<Rightarrow>
         (case hm_get (fs_state_by_slot fs) slot of
            None \<Rightarrow> Inr None | Some root \<Rightarrow> load_state_by_block_root R L fs root))"

definition fs_get_block_by_slot ::
    "('db, 'tx) redb \<Rightarrow> ssz_lib \<Rightarrow> 'db file_store \<Rightarrow> u64 \<Rightarrow> block option result" where
  "fs_get_block_by_slot R L fs slot =
     and_then (pending_get (fs_pending fs) slot) (\<lambda>hit.
     case hit of
       Some entry \<Rightarrow> load_block_by_root R L fs (pe_block_root entry)
     | None \<Rightarrow>
         (case hm_get (fs_block_by_slot fs) slot of
            None \<Rightarrow> Inr None | Some root \<Rightarrow> load_block_by_root R L fs root))"

section \<open>Startup\<close>

definition count_corrupt :: "'db file_store \<Rightarrow> 'db file_store" where
  "count_corrupt fs =
     fs\<lparr>fs_recovery := (fs_recovery fs)\<lparr>rr_skipped_corrupt := rr_skipped_corrupt (fs_recovery fs) + 1\<rparr>\<rparr>"

definition fs_load_state_index :: "('db, 'tx) redb \<Rightarrow> 'db file_store \<Rightarrow> 'db file_store result" where
  "fs_load_state_index R fs =
     and_then (ok_value (db_load_state_index R (fs_db fs))) (\<lambda>r. Inr (case r of
        Some index \<Rightarrow> fs\<lparr>fs_state_by_slot := index\<rparr>
      | None \<Rightarrow> count_corrupt (fs\<lparr>fs_state_by_slot := []\<rparr>)))"

definition fs_load_block_index :: "('db, 'tx) redb \<Rightarrow> 'db file_store \<Rightarrow> 'db file_store result" where
  "fs_load_block_index R fs =
     and_then (ok_value (db_load_block_index R (fs_db fs))) (\<lambda>r. Inr (case r of
        Some index \<Rightarrow> fs\<lparr>fs_block_by_slot := index\<rparr>
      | None \<Rightarrow> count_corrupt (fs\<lparr>fs_block_by_slot := []\<rparr>)))"

definition fs_load_state_root_index :: "('db, 'tx) redb \<Rightarrow> 'db file_store \<Rightarrow> 'db file_store result" where
  "fs_load_state_root_index R fs =
     and_then (ok_value (load_state_root_index R (fs_db fs))) (\<lambda>r. Inr (case r of
        Some index \<Rightarrow> fs\<lparr>fs_state_root_to_block_root := index\<rparr>
      | None \<Rightarrow> count_corrupt (fs\<lparr>fs_state_root_to_block_root := []\<rparr>)))"

definition fs_load_meta :: "('db, 'tx) redb \<Rightarrow> 'db file_store \<Rightarrow> 'db file_store result" where
  "fs_load_meta R fs =
     and_then (ok_value (db_load_meta R (fs_db fs))) (\<lambda>r. Inr (case r of
        Some (head, finalized, justified, finalized_slot) \<Rightarrow>
          fs\<lparr>fs_head := head, fs_finalized := finalized, fs_finalized_slot := finalized_slot,
             fs_justified := justified\<rparr>
      | None \<Rightarrow> count_corrupt (fs\<lparr>fs_head := None, fs_finalized := None,
          fs_finalized_slot := None, fs_justified := None\<rparr>)))"

text \<open>The finalized slot of databases that stored the root only.\<close>

definition derive_finalized_slot ::
    "('db, 'tx) redb \<Rightarrow> ssz_lib \<Rightarrow> 'db file_store \<Rightarrow> u64 option result" where
  "derive_finalized_slot R L fs =
     (if fs_finalized_slot fs = None
      then (case fs_finalized fs of
              None \<Rightarrow> Inr None
            | Some root \<Rightarrow> and_then (load_block_by_root R L fs root) (\<lambda>b. Inr (map_option b_slot b)))
      else Inr (fs_finalized_slot fs))"

definition load_from_disk ::
    "('db, 'tx) redb \<Rightarrow> ssz_lib \<Rightarrow> 'db file_store \<Rightarrow> 'db file_store result" where
  "load_from_disk R L fs =
     and_then (fs_load_state_index R fs) (\<lambda>fs.
     and_then (fs_load_block_index R fs) (\<lambda>fs.
     and_then (fs_load_state_root_index R fs) (\<lambda>fs.
     and_then (fs_load_meta R fs) (\<lambda>fs.
     and_then (derive_finalized_slot R L fs) (\<lambda>finalized_slot.
     Inr (fs\<lparr>fs_finalized_slot := finalized_slot,
       fs_recovery := (fs_recovery fs)\<lparr>rr_loaded_states := length (fs_state_by_slot fs),
         rr_loaded_blocks := length (fs_block_by_slot fs), rr_loaded_signed_blocks := 0\<rparr>\<rparr>))))))"

text \<open>\<open>schema\<close> is the answer of \<^verbatim>\<open>ensure_schema_version\<close>, \<open>db\<close> that of \<^verbatim>\<open>CanonicalDb::open\<close>.\<close>

definition file_store_open ::
    "('db, 'tx) redb \<Rightarrow> ssz_lib \<Rightarrow> unit result \<Rightarrow> 'db result \<Rightarrow> 'db file_store result" where
  "file_store_open R L schema db =
     and_then schema (\<lambda>_. and_then db (\<lambda>db.
     load_from_disk R L
       \<lparr>fs_db = db, fs_state_by_slot = [], fs_state_root_to_block_root = [], fs_block_by_slot = [],
        fs_pending = pending_new PENDING_WINDOW_CAP, fs_head = None, fs_finalized = None,
        fs_finalized_slot = None, fs_justified = None,
        fs_recovery = \<lparr>rr_loaded_states = 0, rr_loaded_blocks = 0, rr_loaded_signed_blocks = 0,
          rr_skipped_corrupt = 0\<rparr>,
        fs_index_dirty = False, fs_meta_dirty = False\<rparr>))"

section \<open>Indexes and metadata\<close>

definition fs_meta :: "'db file_store \<Rightarrow> fc_meta" where
  "fs_meta fs = \<lparr>fm_head = fs_head fs, fm_finalized = fs_finalized fs,
     fm_finalized_slot = fs_finalized_slot fs, fm_justified = fs_justified fs\<rparr>"

definition flush_canonical_with_state_root_index ::
    "('db, 'tx) redb \<Rightarrow> 'db file_store \<Rightarrow> bool \<Rightarrow> 'db file_store result" where
  "flush_canonical_with_state_root_index R fs rewrite_state_root_index =
     (if \<not> fs_index_dirty fs \<and> \<not> fs_meta_dirty fs then Inr fs
      else and_then (persist_snapshot R (fs_db fs) (fs_state_by_slot fs) (fs_block_by_slot fs)
             (fs_state_root_to_block_root fs) rewrite_state_root_index (fs_meta fs)) (\<lambda>db.
           Inr (fs\<lparr>fs_db := db, fs_index_dirty := False, fs_meta_dirty := False\<rparr>)))"

definition flush_canonical :: "('db, 'tx) redb \<Rightarrow> 'db file_store \<Rightarrow> 'db file_store result" where
  "flush_canonical R fs = flush_canonical_with_state_root_index R fs True"

text \<open>\<^verbatim>\<open>let _ = self.flush_canonical()\<close>: an error leaves the store as it is.\<close>

definition try_flush :: "('db, 'tx) redb \<Rightarrow> 'db file_store \<Rightarrow> 'db file_store result" where
  "try_flush R fs =
     and_then (ok_value (flush_canonical R fs)) (\<lambda>r. Inr (case r of None \<Rightarrow> fs | Some fs \<Rightarrow> fs))"

definition file_store_drop :: "('db, 'tx) redb \<Rightarrow> 'db file_store \<Rightarrow> 'db result" where
  "file_store_drop R fs =
     (if fs_index_dirty fs \<or> fs_meta_dirty fs
      then and_then (try_flush R fs) (\<lambda>fs. Inr (fs_db fs))
      else Inr (fs_db fs))"

definition insert_promoted :: "pending_entry list \<Rightarrow> (u64, bytes32) hmap \<Rightarrow> (u64, bytes32) hmap" where
  "insert_promoted entries m = fold (\<lambda>value. hm_insert (pe_slot value) (pe_block_root value)) entries m"

definition promote_finalized_slot_in_memory :: "'db file_store \<Rightarrow> u64 \<Rightarrow> 'db file_store result" where
  "promote_finalized_slot_in_memory fs finalized_slot =
     and_then (drain_leq_with (fs_pending fs) finalized_slot) (\<lambda>(drained, pending).
     Inr (fs\<lparr>fs_block_by_slot := insert_promoted drained (fs_block_by_slot fs),
             fs_state_by_slot := insert_promoted drained (fs_state_by_slot fs),
             fs_pending := pending\<rparr>))"

definition promote_finalized ::
    "('db, 'tx) redb \<Rightarrow> 'db file_store \<Rightarrow> u64 \<Rightarrow> (unit result \<times> 'db file_store) result" where
  "promote_finalized R fs finalized_slot =
     and_then (promote_finalized_slot_in_memory fs finalized_slot) (\<lambda>fs.
     Inr (case flush_canonical R fs of Inl e \<Rightarrow> (Inl e, fs) | Inr fs \<Rightarrow> (Inr (), fs)))"

definition index_state_slot :: "'db file_store \<Rightarrow> u64 \<Rightarrow> bytes32 \<Rightarrow> 'db file_store" where
  "index_state_slot fs slot root =
     fs\<lparr>fs_state_by_slot := hm_insert slot root (fs_state_by_slot fs), fs_index_dirty := True\<rparr>"

definition index_block_slot :: "'db file_store \<Rightarrow> u64 \<Rightarrow> bytes32 \<Rightarrow> (bool \<times> 'db file_store) result" where
  "index_block_slot fs slot root =
     (if (case fs_finalized_slot fs of Some finalized_slot \<Rightarrow> slot > finalized_slot | None \<Rightarrow> False)
      then and_then (pending_insert (fs_pending fs) slot root) (\<lambda>(_, pending).
           Inr (False, fs\<lparr>fs_pending := pending\<rparr>))
      else Inr (True, fs\<lparr>fs_block_by_slot := hm_insert slot root (fs_block_by_slot fs),
                         fs_index_dirty := True\<rparr>))"

definition live_block_roots :: "'db file_store \<Rightarrow> bytes32 list" where
  "live_block_roots fs =
     remdups (map snd (fs_state_by_slot fs) @ pending_roots (fs_pending fs) @ somes (pinned_roots fs))"

fun rebuild_roots_loop ::
    "('db, 'tx) redb \<Rightarrow> ssz_lib \<Rightarrow> 'db file_store \<Rightarrow> bytes32 list \<Rightarrow> (bytes32, bytes32) hmap \<Rightarrow>
     (bytes32, bytes32) hmap result" where
  "rebuild_roots_loop R L fs [] live_index = Inr live_index"
| "rebuild_roots_loop R L fs (broot # roots) live_index =
     and_then (load_block_by_root R L fs broot) (\<lambda>b.
     case b of
       Some block \<Rightarrow> rebuild_roots_loop R L fs roots (hm_insert (b_state_root block) broot live_index)
     | None \<Rightarrow>
         and_then (load_state_by_block_root R L fs broot) (\<lambda>s.
         rebuild_roots_loop R L fs roots
           (if s \<noteq> None then hm_insert broot broot live_index else live_index)))"

definition rebuild_live_state_root_index ::
    "('db, 'tx) redb \<Rightarrow> ssz_lib \<Rightarrow> 'db file_store \<Rightarrow> (bytes32, bytes32) hmap result" where
  "rebuild_live_state_root_index R L fs = rebuild_roots_loop R L fs (live_block_roots fs) []"

section \<open>Writes\<close>

definition fs_persist_state_index :: "('db, 'tx) redb \<Rightarrow> 'db file_store \<Rightarrow> 'db file_store result" where
  "fs_persist_state_index R fs =
     and_then (db_persist_state_index R (fs_db fs) (fs_state_by_slot fs)) (\<lambda>db. Inr (fs\<lparr>fs_db := db\<rparr>))"

definition fs_persist_block_index :: "('db, 'tx) redb \<Rightarrow> 'db file_store \<Rightarrow> 'db file_store result" where
  "fs_persist_block_index R fs =
     and_then (db_persist_block_index R (fs_db fs) (fs_block_by_slot fs)) (\<lambda>db. Inr (fs\<lparr>fs_db := db\<rparr>))"

definition persist_state ::
    "('db, 'tx) redb \<Rightarrow> ssz_lib \<Rightarrow> (u8 list \<Rightarrow> u8 list) \<Rightarrow> 'db file_store \<Rightarrow> bytes32 \<Rightarrow> state \<Rightarrow> 'db result" where
  "persist_state R L sha256 fs root s =
     and_then (state_encode L s) (\<lambda>payload.
     persist_state_blob R (fs_db fs) root (encode_blob sha256 BLOB_KIND_STATE payload))"

definition persist_block ::
    "('db, 'tx) redb \<Rightarrow> ssz_lib \<Rightarrow> (u8 list \<Rightarrow> u8 list) \<Rightarrow> 'db file_store \<Rightarrow> bytes32 \<Rightarrow> block \<Rightarrow> 'db result" where
  "persist_block R L sha256 fs root b =
     and_then (block_encode L b) (\<lambda>payload.
     persist_block_blob R (fs_db fs) root (encode_blob sha256 BLOB_KIND_BLOCK payload))"

definition fs_put_state ::
    "('db, 'tx) redb \<Rightarrow> ssz_lib \<Rightarrow> (u8 list \<Rightarrow> u8 list) \<Rightarrow> 'db file_store \<Rightarrow> bytes32 \<Rightarrow> state \<Rightarrow> 'db file_store result" where
  "fs_put_state R L sha256 fs root s =
     (let slot = st_slot s; sroot = state_root L s in
      and_then (ok_value (persist_state R L sha256 fs root s)) (\<lambda>r.
      case r of
        None \<Rightarrow> Inr fs
      | Some db \<Rightarrow>
          (let fs = fs\<lparr>fs_db := db\<rparr> in
           and_then (ok_value (persist_state_root_mapping R db sroot root)) (\<lambda>r.
           case r of
             None \<Rightarrow> Inr fs
           | Some db \<Rightarrow>
               Inr (index_state_slot (fs\<lparr>fs_db := db, fs_state_root_to_block_root :=
                      hm_insert sroot root (fs_state_root_to_block_root fs)\<rparr>) slot root)))))"

definition fs_put_block ::
    "('db, 'tx) redb \<Rightarrow> ssz_lib \<Rightarrow> (u8 list \<Rightarrow> u8 list) \<Rightarrow> 'db file_store \<Rightarrow> bytes32 \<Rightarrow> block \<Rightarrow> 'db file_store result" where
  "fs_put_block R L sha256 fs root b =
     (let slot = b_slot b in
      and_then (ok_value (persist_block R L sha256 fs root b)) (\<lambda>r.
      case r of
        None \<Rightarrow> Inr fs
      | Some db \<Rightarrow> and_then (index_block_slot (fs\<lparr>fs_db := db\<rparr>) slot root) (\<lambda>(_, fs). Inr fs)))"

definition next_meta :: "'db file_store \<Rightarrow> bytes32 \<Rightarrow> checkpoint \<Rightarrow> checkpoint \<Rightarrow> bool \<Rightarrow> fc_meta" where
  "next_meta fs root meta_justified meta_finalized update_head =
     (if update_head
      then \<lparr>fm_head = Some root, fm_finalized = Some (cp_root meta_finalized),
            fm_finalized_slot = Some (cp_slot meta_finalized), fm_justified = Some (cp_root meta_justified)\<rparr>
      else fs_meta fs)"

definition persist_signed_block_bundle_inner ::
    "('db, 'tx) redb \<Rightarrow> ssz_lib \<Rightarrow> (u8 list \<Rightarrow> u8 list) \<Rightarrow> 'db file_store \<Rightarrow> bytes32 \<Rightarrow> signed_block \<Rightarrow>
     state \<Rightarrow> checkpoint \<Rightarrow> checkpoint \<Rightarrow> bool \<Rightarrow> 'db file_store result" where
  "persist_signed_block_bundle_inner R L sha256 fs root sblock persisted_state
       meta_justified meta_finalized update_head =
     (let block = bwa_block (sb_message sblock); slot = b_slot block; sroot = b_state_root block;
          m = next_meta fs root meta_justified meta_finalized update_head in
      and_then (block_encode L block) (\<lambda>block_ssz.
      and_then (signed_block_encode L sblock) (\<lambda>signed_ssz.
      and_then (state_encode L persisted_state) (\<lambda>state_ssz.
      let fin_slot = (case fm_finalized_slot m of None \<Rightarrow> 0 | Some x \<Rightarrow> x);
          block_canonical = \<not> (case fm_finalized_slot m of Some x \<Rightarrow> slot > x | None \<Rightarrow> False);
          pending_promotions = entries_leq (fs_pending fs) fin_slot;
          promoted = map (\<lambda>value. (pe_slot value, pe_block_root value)) pending_promotions;
          state_upserts = (slot, root) # promoted;
          block_upserts = (if block_canonical then [(slot, root)] else []) @ promoted in
      and_then (persist_signed_block_bundle R (fs_db fs) root
                  (encode_blob sha256 BLOB_KIND_BLOCK block_ssz)
                  (encode_blob sha256 BLOB_KIND_SIGNED_BLOCK signed_ssz) sroot
                  (encode_blob sha256 BLOB_KIND_STATE state_ssz) state_upserts block_upserts m) (\<lambda>db.
      let fs = fs\<lparr>fs_db := db, fs_state_root_to_block_root :=
                 hm_insert sroot root (fs_state_root_to_block_root fs)\<rparr>;
          fs = (if update_head
                then fs\<lparr>fs_head := fm_head m, fs_justified := fm_justified m,
                        fs_finalized := fm_finalized m, fs_finalized_slot := fm_finalized_slot m\<rparr>
                else fs) in
      and_then (if block_canonical
                then Inr (fs\<lparr>fs_block_by_slot := hm_insert slot root (fs_block_by_slot fs)\<rparr>)
                else and_then (pending_insert (fs_pending fs) slot root) (\<lambda>(_, pending).
                     Inr (fs\<lparr>fs_pending := pending\<rparr>))) (\<lambda>fs.
      let fs = fs\<lparr>fs_state_by_slot := hm_insert slot root (fs_state_by_slot fs)\<rparr> in
      and_then (promote_finalized_slot_in_memory fs fin_slot) (\<lambda>fs.
      Inr (fs\<lparr>fs_index_dirty := False, fs_meta_dirty := False\<rparr>))))))))"

definition persist_signed_block_bundle_from_state ::
    "('db, 'tx) redb \<Rightarrow> ssz_lib \<Rightarrow> (u8 list \<Rightarrow> u8 list) \<Rightarrow> 'db file_store \<Rightarrow> bytes32 \<Rightarrow> signed_block \<Rightarrow>
     state \<Rightarrow> checkpoint \<Rightarrow> checkpoint \<Rightarrow> 'db file_store result" where
  "persist_signed_block_bundle_from_state R L sha256 fs root sblock persisted_state
       meta_justified meta_finalized =
     persist_signed_block_bundle_inner R L sha256 fs root sblock persisted_state
       meta_justified meta_finalized True"

definition replay_signed_block_from_parent ::
    "('db, 'tx) redb \<Rightarrow> ssz_lib \<Rightarrow> ('pk, 'sk, 'sig, 'agg) pq_lib \<Rightarrow> 'db file_store \<Rightarrow> signed_block \<Rightarrow> state result" where
  "replay_signed_block_from_parent R L Q fs sblock =
     and_then (load_state_by_block_root R L fs (b_parent_root (bwa_block (sb_message sblock)))) (\<lambda>p.
     case p of
       None \<Rightarrow> Inl (Err ''parent state root missing in store'')
     | Some parent_state \<Rightarrow>
         (case process_signed_block L Q parent_state sblock of
            (Inl e, _) \<Rightarrow> Inl e
          | (Inr _, post) \<Rightarrow> Inr post))"

text \<open>The checkpoint with the higher slot; on a tie the first one.\<close>

definition later_checkpoint :: "checkpoint \<Rightarrow> checkpoint \<Rightarrow> checkpoint" where
  "later_checkpoint post pre = (if cp_slot post < cp_slot pre then pre else post)"

definition put_signed_block_inner ::
    "('db, 'tx) redb \<Rightarrow> ssz_lib \<Rightarrow> ('pk, 'sk, 'sig, 'agg) pq_lib \<Rightarrow> (u8 list \<Rightarrow> u8 list) \<Rightarrow>
     'db file_store \<Rightarrow> bytes32 \<Rightarrow> signed_block \<Rightarrow> state \<Rightarrow> ('db file_store \<times> state) result" where
  "put_signed_block_inner R L Q sha256 fs root sblock s =
     and_then (replay_signed_block_from_parent R L Q fs sblock) (\<lambda>replayed.
     let meta_finalized = later_checkpoint (st_latest_finalized replayed) (st_latest_finalized s);
         meta_justified = later_checkpoint (st_latest_justified replayed) (st_latest_justified s);
         promotes_head = (st_slot replayed \<ge> st_slot s) in
     and_then (persist_signed_block_bundle_inner R L sha256 fs root sblock replayed
                 meta_justified meta_finalized promotes_head) (\<lambda>fs.
     Inr (fs, if promotes_head
              then replayed\<lparr>st_latest_finalized := meta_finalized, st_latest_justified := meta_justified\<rparr>
              else
                let s = (if cp_slot meta_justified > cp_slot (st_latest_justified s)
                         then s\<lparr>st_latest_justified := meta_justified\<rparr> else s)
                in if cp_slot meta_finalized > cp_slot (st_latest_finalized s)
                   then s\<lparr>st_latest_finalized := meta_finalized\<rparr> else s)))"

definition put_backfill_signed_block ::
    "('db, 'tx) redb \<Rightarrow> ssz_lib \<Rightarrow> ('pk, 'sk, 'sig, 'agg) pq_lib \<Rightarrow> (u8 list \<Rightarrow> u8 list) \<Rightarrow>
     'db file_store \<Rightarrow> bytes32 \<Rightarrow> signed_block \<Rightarrow> state \<Rightarrow> ('db file_store \<times> state) result" where
  "put_backfill_signed_block R L Q sha256 fs root sblock s =
     and_then (replay_signed_block_from_parent R L Q fs sblock) (\<lambda>replayed.
     if st_slot replayed < st_slot s
     then Inl (Err ''imported block would regress local state slot'')
     else and_then (persist_signed_block_bundle_from_state R L sha256 fs root sblock replayed
                      (st_latest_justified replayed) (st_latest_finalized replayed)) (\<lambda>fs.
          Inr (fs, replayed)))"

definition put_anchor_signed_block ::
    "('db, 'tx) redb \<Rightarrow> ssz_lib \<Rightarrow> (u8 list \<Rightarrow> u8 list) \<Rightarrow> 'db file_store \<Rightarrow> bytes32 \<Rightarrow> signed_block \<Rightarrow>
     state \<Rightarrow> 'db file_store result" where
  "put_anchor_signed_block R L sha256 fs root sblock s =
     persist_signed_block_bundle_from_state R L sha256 fs root sblock s
       (st_latest_justified s) (st_latest_finalized s)"

definition put_prevalidated_signed_block ::
    "('db, 'tx) redb \<Rightarrow> ssz_lib \<Rightarrow> (u8 list \<Rightarrow> u8 list) \<Rightarrow> 'db file_store \<Rightarrow> bytes32 \<Rightarrow> signed_block \<Rightarrow>
     state \<Rightarrow> state \<Rightarrow> ('db file_store \<times> state) result" where
  "put_prevalidated_signed_block R L sha256 fs root sblock s post_state =
     (let block = bwa_block (sb_message sblock) in
      and_then (if b_slot block > st_slot s then process_slots L s (b_slot block) else Inr s) (\<lambda>expected.
      let expected_parent = block_header_root L (st_latest_block_header expected) in
      if b_parent_root block \<noteq> expected_parent
      then Inl (Err ''block parent root does not match latest header root'')
      else
        let computed_post_root = state_root L post_state;
            header_root = bh_state_root (st_latest_block_header post_state) in
        if header_root \<noteq> b_state_root block \<and> computed_post_root \<noteq> b_state_root block
        then Inl (Err ''post_state root does not match block.state_root'')
        else
          let meta_finalized = later_checkpoint (st_latest_finalized post_state) (st_latest_finalized s);
              meta_justified = later_checkpoint (st_latest_justified post_state) (st_latest_justified s) in
          and_then (persist_signed_block_bundle_from_state R L sha256 fs root sblock post_state
                      meta_justified meta_finalized) (\<lambda>fs.
          Inr (fs, post_state\<lparr>st_latest_finalized := meta_finalized,
                              st_latest_justified := meta_justified\<rparr>))))"

section \<open>Metadata operations\<close>

definition fs_set_head :: "'db file_store \<Rightarrow> bytes32 \<Rightarrow> 'db file_store" where
  "fs_set_head fs root = fs\<lparr>fs_head := Some root, fs_meta_dirty := True\<rparr>"

definition fs_set_justified :: "'db file_store \<Rightarrow> bytes32 \<Rightarrow> 'db file_store" where
  "fs_set_justified fs root = fs\<lparr>fs_justified := Some root, fs_meta_dirty := True\<rparr>"

definition apply_finalized ::
    "('db, 'tx) redb \<Rightarrow> 'db file_store \<Rightarrow> bytes32 \<Rightarrow> u64 \<Rightarrow> 'db file_store result" where
  "apply_finalized R fs root slot =
     (if (case fs_finalized_slot fs of Some current \<Rightarrow> slot < current | None \<Rightarrow> False) then Inr fs
      else and_then (promote_finalized_slot_in_memory (fs\<lparr>fs_finalized := Some root,
             fs_finalized_slot := Some slot, fs_meta_dirty := True\<rparr>) slot) (\<lambda>fs. try_flush R fs))"

definition fs_set_finalized ::
    "('db, 'tx) redb \<Rightarrow> ssz_lib \<Rightarrow> 'db file_store \<Rightarrow> bytes32 \<Rightarrow> 'db file_store result" where
  "fs_set_finalized R L fs root =
     and_then (load_block_by_root R L fs root) (\<lambda>b.
     case b of None \<Rightarrow> Inr fs | Some block \<Rightarrow> apply_finalized R fs root (b_slot block))"

definition fs_set_finalized_checkpoint ::
    "('db, 'tx) redb \<Rightarrow> 'db file_store \<Rightarrow> checkpoint \<Rightarrow> 'db file_store result" where
  "fs_set_finalized_checkpoint R fs c = apply_finalized R fs (cp_root c) (cp_slot c)"

section \<open>Pruning\<close>

record prune_report =
  pr_removed_states :: nat
  pr_removed_blocks :: nat
  pr_removed_state_blobs :: nat
  pr_removed_block_blobs :: nat
  pr_removed_signed_blocks :: nat
  pr_kept_pinned :: nat

definition retained :: "u64 \<Rightarrow> bytes32 option list \<Rightarrow> u64 \<times> bytes32 \<Rightarrow> bool" where
  "retained prune_before pinned = (\<lambda>(slot, root). slot \<ge> prune_before \<or> is_pinned pinned root)"

definition pinned_below :: "u64 \<Rightarrow> bytes32 option list \<Rightarrow> u64 \<times> bytes32 \<Rightarrow> bool" where
  "pinned_below prune_before pinned = (\<lambda>(slot, root). \<not> slot \<ge> prune_before \<and> is_pinned pinned root)"

definition fs_prune ::
    "('db, 'tx) redb \<Rightarrow> ssz_lib \<Rightarrow> 'db file_store \<Rightarrow> u64 \<Rightarrow> u64 \<Rightarrow> (prune_report result \<times> 'db file_store) result" where
  "fs_prune R L fs finalized_slot keep_recent_slots =
     (let prune_before = (if finalized_slot < keep_recent_slots then 0 else finalized_slot - keep_recent_slots);
          pinned = pinned_roots fs;
          states = filter (retained prune_before pinned) (fs_state_by_slot fs);
          blocks = filter (retained prune_before pinned) (fs_block_by_slot fs);
          report = \<lparr>pr_removed_states = length (fs_state_by_slot fs) - length states,
            pr_removed_blocks = length (fs_block_by_slot fs) - length blocks,
            pr_removed_state_blobs = 0, pr_removed_block_blobs = 0, pr_removed_signed_blocks = 0,
            pr_kept_pinned = length (filter (pinned_below prune_before pinned) (fs_state_by_slot fs)) +
              length (filter (pinned_below prune_before pinned) (fs_block_by_slot fs))\<rparr>;
          fs = fs\<lparr>fs_state_by_slot := states, fs_block_by_slot := blocks\<rparr> in
      and_then (rebuild_live_state_root_index R L fs) (\<lambda>live_index.
      let fs = fs\<lparr>fs_state_root_to_block_root := live_index, fs_index_dirty := True\<rparr> in
      case flush_canonical_with_state_root_index R fs True of
        Inl e \<Rightarrow> Inr (Inl e, fs)
      | Inr fs \<Rightarrow>
          let pinned_set = set (somes pinned);
              keep_state = set (map snd states) \<union> pinned_set;
              keep_block = set (map snd blocks) \<union> pinned_set;
              (keep_block, keep_state) = extend_referenced_roots (fs_pending fs) keep_block keep_state in
          (case gc_unreferenced_blobs R (fs_db fs) keep_state keep_block of
             Inl e \<Rightarrow> Inr (Inl e, fs)
           | Inr (gc, db) \<Rightarrow>
               Inr (Inr (report\<lparr>pr_removed_state_blobs := gc_state_blobs gc,
                       pr_removed_block_blobs := gc_block_blobs gc,
                       pr_removed_signed_blocks := gc_signed_block_blobs gc\<rparr>),
                    fs\<lparr>fs_db := db\<rparr>))))"

end
