(* ===== verification/DbEffects.thy ===== *)
theory DbEffects
  imports CanonicalDb
begin

text \<open>
  What the methods of \<^verbatim>\<open>src/storage/canonical_db.rs\<close> do to the content of the database, from the
  laws of the external library: the tables a committed method writes, the rows it removes,
  that clearing a table ends, and what the loading methods return. A blob written with
  its envelope is read back.
\<close>

section \<open>Envelopes\<close>

lemma encode_blob_parts:
  assumes "length (sha256 payload) = 32"
  shows "length (encode_blob sha256 kind payload) = BLOB_HEADER_LEN + length payload"
    and "drop BLOB_HEADER_LEN (encode_blob sha256 kind payload) = payload"
    and "take 8 (encode_blob sha256 kind payload) = BLOB_MAGIC"
    and "encode_blob sha256 kind payload ! 8 = BLOB_VERSION"
    and "encode_blob sha256 kind payload ! 9 = kind"
    and "take 4 (drop 10 (encode_blob sha256 kind payload)) = le32 (of_nat (length payload))"
  using assms by (simp_all add: encode_blob_def BLOB_HEADER_LEN_def BLOB_MAGIC_def)

lemma decode_encode_blob:
  assumes "length (sha256 payload) = 32" "length payload < 2 ^ 32"
  shows "decode_blob_offset kind (encode_blob sha256 kind payload) = Some BLOB_HEADER_LEN"
  using assms by (simp add: decode_blob_offset_def encode_blob_parts unat_of_nat_u32 Let_def)

lemma root_bytes_inj: "root_bytes a = root_bytes b \<longleftrightarrow> a = b"
proof
  assume "root_bytes a = root_bytes b"
  then have "(from_be_bytes (root_bytes a) :: bytes32) = from_be_bytes (root_bytes b)" by simp
  then show "a = b" by simp
qed simp

lemma bytes_to_root_bytes [simp]: "bytes_to_root (root_bytes r) = Inr r"
  by (simp add: bytes_to_root_def)

lemma bytes_to_root_Inr: "bytes_to_root raw = Inr r \<longleftrightarrow> raw = root_bytes r"
proof
  assume "bytes_to_root raw = Inr r"
  then have "length raw = 32" "r = from_be_bytes raw" by (auto simp: bytes_to_root_def split: if_splits)
  then show "raw = root_bytes r" by (simp add: be_from_be_bytes)
qed simp

lemma bytes_to_u64_bytes [simp]: "bytes_to_u64 (le64 v) = Inr v"
  by (simp add: bytes_to_u64_def)

section \<open>Tables\<close>

text \<open>Selector and update of one family of tables.\<close>

definition table_lens ::
    "(contents \<Rightarrow> string \<Rightarrow> 'k \<rightharpoonup> u8 list) \<Rightarrow>
     (((string \<Rightarrow> 'k \<rightharpoonup> u8 list) \<Rightarrow> (string \<Rightarrow> 'k \<rightharpoonup> u8 list)) \<Rightarrow> contents \<Rightarrow> contents) \<Rightarrow> bool" where
  "table_lens sel upd \<longleftrightarrow> (\<forall>f c. sel (upd f c) = f (sel c)) \<and>
     (\<forall>f g c. upd f (upd g c) = upd (\<lambda>x. f (g x)) c) \<and> (\<forall>f g c. f (sel c) = g (sel c) \<longrightarrow> upd f c = upd g c) \<and>
     (\<forall>c. upd (\<lambda>x. x) c = c)"

lemma contents_lenses:
  "table_lens ct_slots ct_slots_update" "table_lens ct_meta ct_meta_update"
  "table_lens ct_blobs ct_blobs_update"
  by (simp_all add: table_lens_def comp_def)

lemma table_upd_cong: "table_lens sel upd \<Longrightarrow> f (sel c) = g (sel c) \<Longrightarrow> upd f c = upd g c"
  unfolding table_lens_def by blast

lemmas table_law = table_laws_def [THEN iffD1]

lemmas table_open_view = table_law [THEN conjunct1, rule_format]
lemmas table_get_view = table_law [THEN conjunct2, THEN conjunct1, rule_format]
lemmas table_iter_view = table_law [THEN conjunct2, THEN conjunct2, THEN conjunct1, rule_format]
lemmas table_insert_view = table_law [THEN conjunct2, THEN conjunct2, THEN conjunct2, THEN conjunct1, rule_format]
lemmas table_remove_view = table_law [THEN conjunct2, THEN conjunct2, THEN conjunct2, THEN conjunct2, THEN conjunct1, rule_format]
lemmas table_pop_none = table_law [THEN conjunct2, THEN conjunct2, THEN conjunct2, THEN conjunct2, THEN conjunct2, THEN conjunct1, rule_format]
lemmas table_pop_some = table_law [THEN conjunct2, THEN conjunct2, THEN conjunct2, THEN conjunct2, THEN conjunct2, THEN conjunct2, THEN conjunct1, rule_format]
lemmas table_finite = table_law [THEN conjunct2, THEN conjunct2, THEN conjunct2, THEN conjunct2, THEN conjunct2, THEN conjunct2, THEN conjunct2, rule_format]

lemma clear_loop_spec:
  assumes laws: "table_laws T view sel upd" and lens: "table_lens sel upd"
  shows "\<exists>r. clear_loop T tx n = Some r \<and>
    (\<forall>tx'. r = Inr tx' \<longrightarrow> view tx' = upd (\<lambda>c. c(n := Map.empty)) (view tx))"
proof (induction "card (dom (sel (view tx) n))" arbitrary: tx rule: less_induct)
  case less
  note sel_upd = lens [unfolded table_lens_def, THEN conjunct1, rule_format]
  note upd_upd = lens [unfolded table_lens_def, THEN conjunct2, THEN conjunct1, rule_format]
  note upd_cong = lens [unfolded table_lens_def, THEN conjunct2, THEN conjunct2, THEN conjunct1, rule_format]
  note upd_id = lens [unfolded table_lens_def, THEN conjunct2, THEN conjunct2, THEN conjunct2, rule_format]
  show ?case
  proof (cases "tb_pop_first T tx n")
    case (Inl e)
    then show ?thesis by (subst clear_loop.simps) simp
  next
    case (Inr p)
    obtain row tx1 where p: "p = (row, tx1)" by (cases p)
    show ?thesis
    proof (cases row)
      case None
      with Inr p have "tb_pop_first T tx n = Inr (None, tx1)" by simp
      from table_pop_none [OF laws this] have "sel (view tx) n = Map.empty" "view tx1 = view tx" by simp_all
      then have "view tx1 = upd (\<lambda>c. c(n := Map.empty)) (view tx)"
        using upd_cong [of "\<lambda>c. c(n := Map.empty)" "view tx" "\<lambda>c. c"] upd_id by (simp add: fun_upd_idem)
      then show ?thesis using Inr p None by (subst clear_loop.simps) simp
    next
      case (Some kv)
      obtain k v where kv: "kv = (k, v)" by (cases kv)
      have pop: "sel (view tx) n k = Some v" "view tx1 = upd (\<lambda>c. c(n := (c n)(k := None))) (view tx)"
        using table_pop_some [OF laws, of tx n k v tx1] Inr p Some kv by simp_all
      have "k \<in> dom (sel (view tx) n)" using pop(1) by blast
      then have "card (dom (sel (view tx1) n)) < card (dom (sel (view tx) n))"
        using card_Diff1_less [of "dom (sel (view tx) n)" k] table_finite [OF laws]
        by (simp add: pop(2) sel_upd del: card_Diff_insert)
      from less [OF this] show ?thesis
        using Inr p Some by (subst clear_loop.simps) (auto simp: pop(2) upd_upd)
    qed
  qed
qed

lemma clear_table_view:
  assumes "table_laws T view sel upd" "table_lens sel upd" "clear_table T tx n = Inr tx'"
  shows "view tx' = upd (\<lambda>c. c(n := Map.empty)) (view tx)"
  using clear_loop_spec [OF assms(1, 2), of tx n] assms(3) by (auto simp: clear_table_def)

text \<open>The rows that a list of upserts leaves in a table.\<close>

definition upd_slots :: "(u64 \<times> bytes32) list \<Rightarrow> (u64 \<rightharpoonup> u8 list) \<Rightarrow> u64 \<rightharpoonup> u8 list" where
  "upd_slots rows m = fold (\<lambda>(s, r) m. m(s \<mapsto> root_bytes r)) rows m"

definition upd_roots :: "(bytes32 \<times> bytes32) list \<Rightarrow> (u8 list \<rightharpoonup> u8 list) \<Rightarrow> u8 list \<rightharpoonup> u8 list" where
  "upd_roots rows m = fold (\<lambda>(s, r) m. m(root_bytes s \<mapsto> root_bytes r)) rows m"

definition set_meta :: "fc_meta \<Rightarrow> (string \<rightharpoonup> u8 list) \<Rightarrow> string \<rightharpoonup> u8 list" where
  "set_meta m rows = rows(''head'' := map_option root_bytes (fm_head m),
     ''finalized'' := map_option root_bytes (fm_finalized m),
     ''finalized_slot'' := map_option le64 (fm_finalized_slot m),
     ''justified'' := map_option root_bytes (fm_justified m))"

lemma upd_slots_simps [simp]:
  "upd_slots [] m = m" "upd_slots ((s, r) # rows) m = upd_slots rows (m(s \<mapsto> root_bytes r))"
  by (simp_all add: upd_slots_def)

lemma upd_roots_simps [simp]:
  "upd_roots [] m = m" "upd_roots ((s, r) # rows) m = upd_roots rows (m(root_bytes s \<mapsto> root_bytes r))"
  by (simp_all add: upd_roots_def)

lemma insert_slot_rows_view:
  assumes "table_laws T view ct_slots ct_slots_update" "insert_slot_rows T tx n rows = Inr tx'"
  shows "view tx' = ct_slots_update (\<lambda>c. c(n := upd_slots rows (c n))) (view tx)"
  using assms
proof (induction T tx n rows rule: insert_slot_rows.induct)
  case (2 T tx n s r rows)
  then obtain tx1 where tx1: "tb_insert T tx n s (root_bytes r) = Inr tx1" "insert_slot_rows T tx1 n rows = Inr tx'"
    by (auto simp: and_then_eq_Inr)
  show ?case
    using "2.IH" [OF tx1(1) "2.prems"(1) tx1(2)] table_insert_view [OF "2.prems"(1) tx1(1)] by (cases "view tx") (simp add: fun_eq_iff)
qed simp

lemma insert_root_rows_view:
  assumes "table_laws T view ct_blobs ct_blobs_update" "insert_root_rows T tx n rows = Inr tx'"
  shows "view tx' = ct_blobs_update (\<lambda>c. c(n := upd_roots rows (c n))) (view tx)"
  using assms
proof (induction T tx n rows rule: insert_root_rows.induct)
  case (2 T tx n s r rows)
  then obtain tx1 where tx1: "tb_insert T tx n (root_bytes s) (root_bytes r) = Inr tx1"
    "insert_root_rows T tx1 n rows = Inr tx'"
    by (auto simp: and_then_eq_Inr)
  show ?case
    using "2.IH" [OF tx1(1) "2.prems"(1) tx1(2)] table_insert_view [OF "2.prems"(1) tx1(1)] by (cases "view tx") (simp add: fun_eq_iff)
qed simp

lemma upd_slots_apply:
  "distinct (map fst rows) \<Longrightarrow>
   upd_slots rows m s = (case map_of rows s of None \<Rightarrow> m s | Some r \<Rightarrow> Some (root_bytes r))"
proof (induction rows arbitrary: m)
  case (Cons p rows)
  then have "map_of rows (fst p) = None" by (simp add: map_of_eq_None_iff)
  with Cons show ?case by (cases p) (auto split: option.splits)
qed simp

lemma upd_slots_index: "hm_wf index \<Longrightarrow> upd_slots index Map.empty = map_option root_bytes \<circ> hm_get index"
  by (auto simp: upd_slots_apply hm_wf_def fun_eq_iff split: option.splits)

lemma upd_roots_apply:
  "distinct (map fst rows) \<Longrightarrow>
   upd_roots rows m (root_bytes s) = (case map_of rows s of None \<Rightarrow> m (root_bytes s) | Some r \<Rightarrow> Some (root_bytes r))"
proof (induction rows arbitrary: m)
  case (Cons p rows)
  then have "map_of rows (fst p) = None" by (simp add: map_of_eq_None_iff)
  with Cons show ?case by (cases p) (auto split: option.splits simp: root_bytes_inj)
qed simp

lemma upd_roots_other: "length k \<noteq> 32 \<Longrightarrow> upd_roots rows m k = m k"
  by (induction rows arbitrary: m) auto

text \<open>The laws of \<open>R\<close> by component, and the effect of one elementary operation each.\<close>

lemma redb_table_laws:
  assumes "redb_laws R view content"
  shows "table_laws (rd_slots R) view ct_slots ct_slots_update"
    "table_laws (rd_meta R) view ct_meta ct_meta_update"
    "table_laws (rd_blobs R) view ct_blobs ct_blobs_update"
  using assms unfolding redb_laws_def by simp_all

lemma redb_begin_read: "redb_laws R view content \<Longrightarrow> rd_begin_read R db = Inr tx \<Longrightarrow> view tx = content db"
  unfolding redb_laws_def by simp

lemma redb_begin_write: "redb_laws R view content \<Longrightarrow> rd_begin_write R db = Inr tx \<Longrightarrow> view tx = content db"
  unfolding redb_laws_def by simp

lemma redb_commit: "redb_laws R view content \<Longrightarrow> rd_commit R tx = Inr db \<Longrightarrow> content db = view tx"
  unfolding redb_laws_def by simp

lemma upsert_meta_view:
  assumes laws: "table_laws T view ct_meta ct_meta_update"
  shows "upsert_or_remove_meta T tx key v = Inr tx' \<Longrightarrow>
      view tx' = ct_meta_update (\<lambda>c. c(META_TABLE := (c META_TABLE)(key := map_option root_bytes v))) (view tx)"
    and "upsert_or_remove_meta_u64 T tx key w = Inr tx' \<Longrightarrow>
      view tx' = ct_meta_update (\<lambda>c. c(META_TABLE := (c META_TABLE)(key := map_option le64 w))) (view tx)"
  by (auto simp: upsert_or_remove_meta_def upsert_or_remove_meta_u64_def split: option.splits
      dest!: table_insert_view [OF laws] table_remove_view [OF laws])

lemma persist_meta_view:
  assumes laws: "redb_laws R view content" and ok: "persist_meta R tx m = Inr tx'"
  shows "view tx' = ct_meta_update (\<lambda>c. c(META_TABLE := set_meta m (c META_TABLE))) (view tx)"
  using ok redb_table_laws(2) [OF laws]
  by (auto simp: persist_meta_def and_then_eq_Inr set_meta_def comp_def
      dest!: upsert_meta_view [OF redb_table_laws(2) [OF laws]] table_open_view [OF redb_table_laws(2) [OF laws]])

section \<open>Committed methods\<close>

lemmas table_names = STATE_SLOT_TABLE_def BLOCK_SLOT_TABLE_def META_TABLE_def STATE_ROOT_INDEX_TABLE_def
  STATE_BLOB_TABLE_def BLOCK_BLOB_TABLE_def SIGNED_BLOCK_BLOB_TABLE_def

lemma table_names_distinct [simp]:
  "STATE_SLOT_TABLE \<noteq> BLOCK_SLOT_TABLE" "BLOCK_SLOT_TABLE \<noteq> STATE_SLOT_TABLE"
  "distinct [STATE_ROOT_INDEX_TABLE, STATE_BLOB_TABLE, BLOCK_BLOB_TABLE, SIGNED_BLOCK_BLOB_TABLE]"
  "STATE_ROOT_INDEX_TABLE \<noteq> STATE_BLOB_TABLE" "STATE_BLOB_TABLE \<noteq> STATE_ROOT_INDEX_TABLE"
  "STATE_ROOT_INDEX_TABLE \<noteq> BLOCK_BLOB_TABLE" "BLOCK_BLOB_TABLE \<noteq> STATE_ROOT_INDEX_TABLE"
  "STATE_ROOT_INDEX_TABLE \<noteq> SIGNED_BLOCK_BLOB_TABLE" "SIGNED_BLOCK_BLOB_TABLE \<noteq> STATE_ROOT_INDEX_TABLE"
  "STATE_BLOB_TABLE \<noteq> BLOCK_BLOB_TABLE" "BLOCK_BLOB_TABLE \<noteq> STATE_BLOB_TABLE"
  "STATE_BLOB_TABLE \<noteq> SIGNED_BLOCK_BLOB_TABLE" "SIGNED_BLOCK_BLOB_TABLE \<noteq> STATE_BLOB_TABLE"
  "BLOCK_BLOB_TABLE \<noteq> SIGNED_BLOCK_BLOB_TABLE" "SIGNED_BLOCK_BLOB_TABLE \<noteq> BLOCK_BLOB_TABLE"
  by (simp_all add: table_names)

lemma persist_blob_content:
  assumes laws: "redb_laws R view content" and ok: "persist_blob R db n root bs = Inr db'"
  shows "content db' = ct_blobs_update (\<lambda>c. c(n := (c n)(root_bytes root \<mapsto> bs))) (content db)"
  using ok unfolding persist_blob_def
  by (auto simp: and_then_eq_Inr dest!: redb_begin_write [OF laws] redb_commit [OF laws]
      table_open_view [OF redb_table_laws(3) [OF laws]] table_insert_view [OF redb_table_laws(3) [OF laws]])

lemma persist_state_root_mapping_content:
  assumes laws: "redb_laws R view content" and ok: "persist_state_root_mapping R db sroot root = Inr db'"
  shows "content db' = ct_blobs_update (\<lambda>c. c(STATE_ROOT_INDEX_TABLE :=
    (c STATE_ROOT_INDEX_TABLE)(root_bytes sroot \<mapsto> root_bytes root))) (content db)"
  using ok unfolding persist_state_root_mapping_def
  by (auto simp: and_then_eq_Inr dest!: redb_begin_write [OF laws] redb_commit [OF laws]
      table_open_view [OF redb_table_laws(3) [OF laws]] table_insert_view [OF redb_table_laws(3) [OF laws]])

lemma persist_snapshot_content:
  assumes laws: "redb_laws R view content" and ok: "persist_snapshot R db si bi ri True m = Inr db'"
  shows "ct_slots (content db') = (ct_slots (content db))(STATE_SLOT_TABLE := upd_slots si Map.empty,
      BLOCK_SLOT_TABLE := upd_slots bi Map.empty)"
    and "ct_blobs (content db') = (ct_blobs (content db))(STATE_ROOT_INDEX_TABLE := upd_roots ri Map.empty)"
    and "ct_meta (content db') = (ct_meta (content db))(META_TABLE := set_meta m (ct_meta (content db) META_TABLE))"
  using ok unfolding persist_snapshot_def
  by (auto simp: and_then_eq_Inr dest!: redb_begin_write [OF laws] redb_commit [OF laws]
      table_open_view [OF redb_table_laws(1) [OF laws]] table_open_view [OF redb_table_laws(3) [OF laws]]
      clear_table_view [OF redb_table_laws(1) [OF laws] contents_lenses(1)]
      clear_table_view [OF redb_table_laws(3) [OF laws] contents_lenses(3)]
      insert_slot_rows_view [OF redb_table_laws(1) [OF laws]]
      insert_root_rows_view [OF redb_table_laws(3) [OF laws]] persist_meta_view [OF laws])

lemma persist_bundle_content:
  assumes laws: "redb_laws R view content"
    and ok: "persist_signed_block_bundle R db root bb gb sroot sb su bu m = Inr db'"
  shows "ct_slots (content db') = (ct_slots (content db))(
      STATE_SLOT_TABLE := upd_slots su (ct_slots (content db) STATE_SLOT_TABLE),
      BLOCK_SLOT_TABLE := upd_slots bu (ct_slots (content db) BLOCK_SLOT_TABLE))"
    and "ct_blobs (content db') = (ct_blobs (content db))(
      STATE_ROOT_INDEX_TABLE := (ct_blobs (content db) STATE_ROOT_INDEX_TABLE)(root_bytes sroot \<mapsto> root_bytes root),
      STATE_BLOB_TABLE := (ct_blobs (content db) STATE_BLOB_TABLE)(root_bytes root \<mapsto> sb),
      BLOCK_BLOB_TABLE := (ct_blobs (content db) BLOCK_BLOB_TABLE)(root_bytes root \<mapsto> bb),
      SIGNED_BLOCK_BLOB_TABLE := (ct_blobs (content db) SIGNED_BLOCK_BLOB_TABLE)(root_bytes root \<mapsto> gb))"
    and "ct_meta (content db') = (ct_meta (content db))(META_TABLE := set_meta m (ct_meta (content db) META_TABLE))"
  using ok unfolding persist_signed_block_bundle_def
  by (auto simp: and_then_eq_Inr dest!: redb_begin_write [OF laws] redb_commit [OF laws]
      table_open_view [OF redb_table_laws(1) [OF laws]] table_open_view [OF redb_table_laws(3) [OF laws]]
      table_insert_view [OF redb_table_laws(3) [OF laws]]
      insert_slot_rows_view [OF redb_table_laws(1) [OF laws]] persist_meta_view [OF laws])

section \<open>Garbage collection\<close>

lemma gc_remove_view:
  assumes "table_laws T view ct_blobs ct_blobs_update" "gc_remove T tx n roots = Inr tx'"
  shows "view tx' = ct_blobs_update (\<lambda>c. c(n := (\<lambda>k. if k \<in> root_bytes ` set roots then None else c n k))) (view tx)"
  using assms
proof (induction T tx n roots rule: gc_remove.induct)
  case (2 T tx n r roots)
  then obtain tx1 where tx1: "tb_remove T tx n (root_bytes r) = Inr tx1" "gc_remove T tx1 n roots = Inr tx'"
    by (auto simp: and_then_eq_Inr)
  show ?case
    using "2.IH" [OF tx1(1) "2.prems"(1) tx1(2)] table_remove_view [OF "2.prems"(1) tx1(1)]
    by (cases "view tx") (auto simp: fun_eq_iff)
qed simp

lemma gc_collect_rows:
  "gc_collect rows keep = Inr ds \<Longrightarrow>
   \<exists>kvs. rows = map Inr kvs \<and> set ds \<inter> keep = {} \<and> (\<forall>(k, v) \<in> set kvs. \<exists>r. k = root_bytes r \<and> (r \<in> keep \<or> r \<in> set ds))"
proof (induction rows keep arbitrary: ds rule: gc_collect.induct)
  case (2 row rows keep)
  then obtain k v r rest where row: "row = Inr (k, v)" "bytes_to_root k = Inr r" "gc_collect rows keep = Inr rest"
    "ds = (if r \<notin> keep then r # rest else rest)"
    by (auto simp: and_then_eq_Inr)
  from "2.IH" [OF row(1) refl row(2, 3)] obtain kvs where kvs: "rows = map Inr kvs" "set rest \<inter> keep = {}"
    "\<forall>(k, v) \<in> set kvs. \<exists>r. k = root_bytes r \<and> (r \<in> keep \<or> r \<in> set rest)" by blast
  have "row # rows = map Inr ((k, v) # kvs)" using row(1) kvs(1) by simp
  moreover have "\<forall>(k, v) \<in> set ((k, v) # kvs). \<exists>r. k = root_bytes r \<and> (r \<in> keep \<or> r \<in> set ds)"
    using kvs(3) row(2, 4) by (auto simp: bytes_to_root_Inr)
  ultimately show ?case using kvs(2) row(4) by (intro exI [of _ "(k, v) # kvs"]) auto
qed simp

lemma gc_blob_table_view:
  assumes laws: "table_laws T view ct_blobs ct_blobs_update" and ok: "gc_blob_table T tx n keep = Inr (g, tx')"
  shows "view tx' = ct_blobs_update (\<lambda>c. c(n := c n |` (root_bytes ` keep))) (view tx)"
proof -
  from ok obtain rows ds where gc: "tb_iter T tx n = Inr rows" "gc_collect rows keep = Inr ds"
    "gc_remove T tx n ds = Inr tx'"
    unfolding gc_blob_table_def by (auto simp: and_then_eq_Inr)
  from gc_collect_rows [OF gc(2)] obtain kvs where kvs: "rows = map Inr kvs" "set ds \<inter> keep = {}"
    "\<forall>(k, v) \<in> set kvs. \<exists>r. k = root_bytes r \<and> (r \<in> keep \<or> r \<in> set ds)" by blast
  have rows: "map_of kvs = ct_blobs (view tx) n" using table_iter_view [OF laws gc(1) kvs(1)] by simp
  have "(if k \<in> root_bytes ` set ds then None else ct_blobs (view tx) n k) = (ct_blobs (view tx) n |` (root_bytes ` keep)) k" for k
  proof (cases "map_of kvs k")
    case None
    then show ?thesis using rows by (simp add: restrict_map_def)
  next
    case (Some v)
    then obtain r where r: "k = root_bytes r" "r \<in> keep \<or> r \<in> set ds" using kvs(3) by (fastforce dest: map_of_SomeD)
    then have "k \<in> root_bytes ` set ds \<longleftrightarrow> k \<notin> root_bytes ` keep" using kvs(2) by (auto simp: root_bytes_inj)
    then show ?thesis by (simp add: restrict_map_def)
  qed
  then have "(\<lambda>k. if k \<in> root_bytes ` set ds then None else ct_blobs (view tx) n k) =
    ct_blobs (view tx) n |` (root_bytes ` keep)" by (rule ext)
  then show ?thesis unfolding gc_remove_view [OF laws gc(3)]
    by (intro table_upd_cong [OF contents_lenses(3)]) (simp only:)
qed

lemma gc_content:
  assumes laws: "redb_laws R view content" and ok: "gc_unreferenced_blobs R db ks kb = Inr (g, db')"
  shows "ct_slots (content db') = ct_slots (content db)" "ct_meta (content db') = ct_meta (content db)"
    "ct_blobs (content db') = (ct_blobs (content db))(
      STATE_BLOB_TABLE := ct_blobs (content db) STATE_BLOB_TABLE |` (root_bytes ` ks),
      BLOCK_BLOB_TABLE := ct_blobs (content db) BLOCK_BLOB_TABLE |` (root_bytes ` kb),
      SIGNED_BLOCK_BLOB_TABLE := ct_blobs (content db) SIGNED_BLOCK_BLOB_TABLE |` (root_bytes ` kb))"
  using ok unfolding gc_unreferenced_blobs_def
  by (auto simp: and_then_eq_Inr dest!: redb_begin_write [OF laws] redb_commit [OF laws]
      table_open_view [OF redb_table_laws(3) [OF laws]] gc_blob_table_view [OF redb_table_laws(3) [OF laws]])

section \<open>Reads\<close>

text \<open>A healthy database: every read transaction, table and row can be read.\<close>

definition reads_work :: "('db, 'tx) redb \<Rightarrow> bool" where
  "reads_work R \<longleftrightarrow> (\<forall>db. \<exists>tx. rd_begin_read R db = Inr tx) \<and>
     (\<forall>tx n. \<exists>tx'. tb_open (rd_slots R) tx n = Inr tx') \<and> (\<forall>tx n. \<exists>tx'. tb_open (rd_meta R) tx n = Inr tx') \<and>
     (\<forall>tx n. \<exists>tx'. tb_open (rd_blobs R) tx n = Inr tx') \<and>
     (\<forall>tx n. \<exists>kvs. tb_iter (rd_slots R) tx n = Inr (map Inr kvs)) \<and>
     (\<forall>tx n. \<exists>kvs. tb_iter (rd_blobs R) tx n = Inr (map Inr kvs)) \<and>
     (\<forall>tx n k. \<exists>v. tb_get (rd_meta R) tx n k = Inr v) \<and> (\<forall>tx n k. \<exists>v. tb_get (rd_blobs R) tx n k = Inr v)"

lemma with_blob_eq:
  assumes laws: "redb_laws R view content" and "reads_work R"
  shows "with_blob R db n root f =
    (case ct_blobs (content db) n (root_bytes root) of Some value \<Rightarrow> f value | None \<Rightarrow> Inr None)"
proof -
  obtain tx tx' v where tx: "rd_begin_read R db = Inr tx" "tb_open (rd_blobs R) tx n = Inr tx'"
    "tb_get (rd_blobs R) tx' n (root_bytes root) = Inr v"
    using \<open>reads_work R\<close> unfolding reads_work_def by metis
  then have "v = ct_blobs (content db) n (root_bytes root)"
    using redb_begin_read [OF laws tx(1)] table_open_view [OF redb_table_laws(3) [OF laws] tx(2)]
      table_get_view [OF redb_table_laws(3) [OF laws] tx(3)] by simp
  with tx show ?thesis by (simp add: with_blob_def)
qed

lemma load_slot_rows_eq:
  "\<forall>(s, v) \<in> set kvs. \<exists>r. v = root_bytes r \<Longrightarrow> distinct (map fst kvs) \<Longrightarrow> hm_wf out \<Longrightarrow>
   \<exists>index. load_slot_rows (map Inr kvs) out = Inr index \<and> hm_wf index \<and>
     (\<forall>s. map_option root_bytes (hm_get index s) =
        (case map_of kvs s of None \<Rightarrow> map_option root_bytes (hm_get out s) | Some v \<Rightarrow> Some v))"
proof (induction kvs arbitrary: out)
  case (Cons kv kvs)
  obtain s r where kv: "kv = (s, root_bytes r)" using Cons.prems(1) by (cases kv) auto
  then have "map_of kvs s = None" using Cons.prems(2) by (simp add: map_of_eq_None_iff)
  moreover obtain index where "load_slot_rows (map Inr kvs) (hm_insert s r out) = Inr index" "hm_wf index"
    "\<forall>s'. map_option root_bytes (hm_get index s') =
       (case map_of kvs s' of None \<Rightarrow> map_option root_bytes (hm_get (hm_insert s r out) s') | Some v \<Rightarrow> Some v)"
    using Cons.IH [of "hm_insert s r out"] Cons.prems by auto
  ultimately show ?case by (auto simp: kv split: option.splits)
qed simp

lemma load_slot_index_eq:
  assumes laws: "redb_laws R view content" and "reads_work R"
    and rows: "ct_slots (content db) n = map_option root_bytes \<circ> m"
  obtains index where "load_slot_index R db n = Inr index" "hm_wf index" "hm_get index = m"
proof -
  obtain tx tx' kvs where tx: "rd_begin_read R db = Inr tx" "tb_open (rd_slots R) tx n = Inr tx'"
    "tb_iter (rd_slots R) tx' n = Inr (map Inr kvs)"
    using \<open>reads_work R\<close> unfolding reads_work_def by metis
  have kvs: "distinct (map fst kvs)" "map_of kvs = map_option root_bytes \<circ> m"
    using table_iter_view [OF redb_table_laws(1) [OF laws] tx(3) refl] rows redb_begin_read [OF laws tx(1)]
      table_open_view [OF redb_table_laws(1) [OF laws] tx(2)] by simp_all
  then have "\<exists>r. v = root_bytes r" if "(s, v) \<in> set kvs" for s v
    using map_of_is_SomeI [OF kvs(1) that] by (auto simp: comp_def)
  then have "\<forall>(s, v) \<in> set kvs. \<exists>r. v = root_bytes r" by blast
  from load_slot_rows_eq [OF this kvs(1) hm_wf_empty]
  obtain index where index: "load_slot_rows (map Inr kvs) [] = Inr index" "hm_wf index"
    "\<forall>s. map_option root_bytes (hm_get index s) = (case map_of kvs s of
       None \<Rightarrow> map_option root_bytes (hm_get [] s) | Some v \<Rightarrow> Some v)"
    by blast
  have "hm_get index s = m s" for s
    using index(3) [rule_format, of s] by (auto simp: kvs(2) root_bytes_inj split: option.splits)
  then show ?thesis using that index(1, 2) tx by (auto simp: load_slot_index_def)
qed

text \<open>The rows of the state-root table for a map of roots.\<close>

definition root_rows :: "(bytes32 \<rightharpoonup> bytes32) \<Rightarrow> u8 list \<rightharpoonup> u8 list" where
  "root_rows m k = (if length k = 32 then map_option root_bytes (m (from_be_bytes k)) else None)"

lemma root_rows_simps [simp]: "root_rows m (root_bytes r) = map_option root_bytes (m r)"
  by (simp add: root_rows_def)

lemma root_key_cases:
  obtains r where "k = root_bytes r" | "length k \<noteq> 32"
proof (cases "length k = 32")
  case True
  then have "k = root_bytes (from_be_bytes k)" by (simp add: be_from_be_bytes)
  then show ?thesis by (rule that(1))
qed (rule that(2))

lemma root_rows_update: "(root_rows m)(root_bytes s \<mapsto> root_bytes r) = root_rows (m(s \<mapsto> r))"
proof
  fix k show "((root_rows m)(root_bytes s \<mapsto> root_bytes r)) k = root_rows (m(s \<mapsto> r)) k"
    by (rule root_key_cases [of k]) (auto simp: root_bytes_inj root_rows_def)
qed

lemma upd_roots_index: "hm_wf index \<Longrightarrow> upd_roots index Map.empty = root_rows (hm_get index)"
proof
  fix k assume "hm_wf index"
  then show "upd_roots index Map.empty k = root_rows (hm_get index) k"
    by (cases k rule: root_key_cases)
      (auto simp: upd_roots_apply upd_roots_other hm_wf_def root_rows_def split: option.splits)
qed

lemma load_root_rows_eq:
  "\<forall>(k, v) \<in> set kvs. \<exists>s r. k = root_bytes s \<and> v = root_bytes r \<Longrightarrow> distinct (map fst kvs) \<Longrightarrow> hm_wf out \<Longrightarrow>
   \<exists>index. load_root_rows (map Inr kvs) out = Inr index \<and> hm_wf index \<and>
     (\<forall>s. map_option root_bytes (hm_get index s) =
        (case map_of kvs (root_bytes s) of None \<Rightarrow> map_option root_bytes (hm_get out s) | Some v \<Rightarrow> Some v))"
proof (induction kvs arbitrary: out)
  case (Cons kv kvs)
  obtain s r where kv: "kv = (root_bytes s, root_bytes r)" using Cons.prems(1) by (cases kv) auto
  then have "map_of kvs (root_bytes s) = None" using Cons.prems(2) by (simp add: map_of_eq_None_iff)
  moreover obtain index where "load_root_rows (map Inr kvs) (hm_insert s r out) = Inr index" "hm_wf index"
    "\<forall>s'. map_option root_bytes (hm_get index s') = (case map_of kvs (root_bytes s') of
       None \<Rightarrow> map_option root_bytes (hm_get (hm_insert s r out) s') | Some v \<Rightarrow> Some v)"
    using Cons.IH [of "hm_insert s r out"] Cons.prems by auto
  ultimately show ?case by (auto simp: kv root_bytes_inj split: option.splits)
qed simp

lemma load_state_root_index_eq:
  assumes laws: "redb_laws R view content" and "reads_work R"
    and rows: "ct_blobs (content db) STATE_ROOT_INDEX_TABLE = root_rows m"
  obtains index where "load_state_root_index R db = Inr index" "hm_wf index" "hm_get index = m"
proof -
  obtain tx tx' kvs where tx: "rd_begin_read R db = Inr tx"
    "tb_open (rd_blobs R) tx STATE_ROOT_INDEX_TABLE = Inr tx'"
    "tb_iter (rd_blobs R) tx' STATE_ROOT_INDEX_TABLE = Inr (map Inr kvs)"
    using \<open>reads_work R\<close> unfolding reads_work_def by metis
  have kvs: "distinct (map fst kvs)" "map_of kvs = root_rows m"
    using table_iter_view [OF redb_table_laws(3) [OF laws] tx(3) refl] rows redb_begin_read [OF laws tx(1)]
      table_open_view [OF redb_table_laws(3) [OF laws] tx(2)] by simp_all
  then have "\<exists>s r. k = root_bytes s \<and> v = root_bytes r" if "(k, v) \<in> set kvs" for k v
    using map_of_is_SomeI [OF kvs(1) that]
    by (cases k rule: root_key_cases) (auto simp: root_rows_def)
  then have "\<forall>(k, v) \<in> set kvs. \<exists>s r. k = root_bytes s \<and> v = root_bytes r" by blast
  from load_root_rows_eq [OF this kvs(1) hm_wf_empty]
  obtain index where index: "load_root_rows (map Inr kvs) [] = Inr index" "hm_wf index"
    "\<forall>s. map_option root_bytes (hm_get index s) =
       (case map_of kvs (root_bytes s) of
         None \<Rightarrow> map_option root_bytes (hm_get [] s) | Some v \<Rightarrow> Some v)"
    by blast
  have "hm_get index s = m s" for s
    using index(3) [rule_format, of s] by (auto simp: kvs(2) root_bytes_inj split: option.splits)
  then show ?thesis using that index(1, 2) tx by (auto simp: load_state_root_index_def)
qed

text \<open>The metadata rows of \<open>m\<close>.\<close>

definition meta_rows :: "fc_meta \<Rightarrow> (string \<rightharpoonup> u8 list) \<Rightarrow> bool" where
  "meta_rows m rows \<longleftrightarrow> rows ''head'' = map_option root_bytes (fm_head m) \<and>
     rows ''finalized'' = map_option root_bytes (fm_finalized m) \<and>
     rows ''finalized_slot'' = map_option le64 (fm_finalized_slot m) \<and>
     rows ''justified'' = map_option root_bytes (fm_justified m)"

lemma meta_rows_set_meta [simp]: "meta_rows m (set_meta m rows)"
  by (simp add: meta_rows_def set_meta_def)

lemma decode_meta_root_bytes [simp]: "decode_meta_root (map_option root_bytes v) = Inr v"
  by (cases v) (simp_all add: decode_meta_root_def)

lemma db_load_meta_eq:
  assumes laws: "redb_laws R view content" and work: "reads_work R"
    and rows: "meta_rows m (ct_meta (content db) META_TABLE)"
  shows "db_load_meta R db = Inr (fm_head m, fm_finalized m, fm_justified m, fm_finalized_slot m)"
proof -
  obtain tx tx' where tx: "rd_begin_read R db = Inr tx" "tb_open (rd_meta R) tx META_TABLE = Inr tx'"
    using work unfolding reads_work_def by metis
  have view: "view tx' = content db"
    using redb_begin_read [OF laws tx(1)] table_open_view [OF redb_table_laws(2) [OF laws] tx(2)] by simp
  have get: "tb_get (rd_meta R) tx' META_TABLE k = Inr (ct_meta (content db) META_TABLE k)" for k
  proof -
    obtain v where v: "tb_get (rd_meta R) tx' META_TABLE k = Inr v" using work unfolding reads_work_def by metis
    from table_get_view [OF redb_table_laws(2) [OF laws] v] v view show ?thesis by simp
  qed
  show ?thesis
    using rows tx by (auto simp: db_load_meta_def get meta_rows_def split: option.splits)
qed

end
