(* ===== verification/FileStoreInv.thy ===== *)
theory FileStoreInv
  imports FileStore DbEffects EventSystem
begin

text \<open>
  The invariant of the disk-backed store: the indexes in memory are maps, the pending window
  is well formed, and the tables of the database hold the indexes, the state-root lookup
  and, unless marked dirty, the fork-choice metadata. Every operation of a running node
  keeps it: the imports of signed blocks, the metadata updates and pruning. The operations
  form an \<open>event_invariant\<close>.
\<close>

section \<open>What the database holds\<close>

definition slot_rows :: "(u64, bytes32) hmap \<Rightarrow> u64 \<rightharpoonup> u8 list" where
  "slot_rows m s = map_option root_bytes (hm_get m s)"

definition index_rows :: "contents \<Rightarrow> (u64, bytes32) hmap \<Rightarrow> (u64, bytes32) hmap \<Rightarrow> (bytes32, bytes32) hmap \<Rightarrow> bool" where
  "index_rows c si bi ri \<longleftrightarrow> ct_slots c STATE_SLOT_TABLE = slot_rows si \<and>
     ct_slots c BLOCK_SLOT_TABLE = slot_rows bi \<and>
     ct_blobs c STATE_ROOT_INDEX_TABLE = root_rows (hm_get ri)"

definition index_durable :: "('db \<Rightarrow> contents) \<Rightarrow> 'db file_store \<Rightarrow> bool" where
  "index_durable content fs \<longleftrightarrow> index_rows (content (fs_db fs)) (fs_state_by_slot fs) (fs_block_by_slot fs)
     (fs_state_root_to_block_root fs)"

definition meta_durable :: "('db \<Rightarrow> contents) \<Rightarrow> 'db file_store \<Rightarrow> bool" where
  "meta_durable content fs \<longleftrightarrow> meta_rows (fs_meta fs) (ct_meta (content (fs_db fs)) META_TABLE)"

definition fs_inv :: "'db file_store \<Rightarrow> bool" where
  "fs_inv fs \<longleftrightarrow> hm_wf (fs_state_by_slot fs) \<and> hm_wf (fs_block_by_slot fs) \<and>
     hm_wf (fs_state_root_to_block_root fs) \<and> pending_inv (fs_pending fs) \<and>
     (fs_finalized_slot fs = None \<longrightarrow> fs_finalized fs = None)"

text \<open>The new slot is less than one turn of the window ahead of every pending slot.\<close>

definition within_window :: "'db file_store \<Rightarrow> u64 \<Rightarrow> bool" where
  "within_window fs slot \<longleftrightarrow> (\<forall>s r. pending_map (fs_pending fs) s = Some r \<longrightarrow>
     unat slot < unat s + length (pc_entries (fs_pending fs)))"

section \<open>Promotion\<close>

abbreviation entry_rows :: "pending_entry list \<Rightarrow> (u64 \<times> bytes32) list" where
  "entry_rows es \<equiv> map (\<lambda>value. (pe_slot value, pe_block_root value)) es"

lemma upd_slots_append: "upd_slots (xs @ ys) m = upd_slots ys (upd_slots xs m)"
  by (simp add: upd_slots_def)

lemma slot_rows_insert: "slot_rows (hm_insert s r m) = (slot_rows m)(s \<mapsto> root_bytes r)"
  by (auto simp: slot_rows_def fun_eq_iff)

lemma slot_rows_promoted: "slot_rows (insert_promoted es m) = upd_slots (entry_rows es) (slot_rows m)"
  unfolding insert_promoted_def by (induction es arbitrary: m) (simp_all add: slot_rows_insert)

lemma upd_slots_empty: "hm_wf m \<Longrightarrow> upd_slots m Map.empty = slot_rows m"
  by (simp add: upd_slots_index slot_rows_def fun_eq_iff)

lemma insert_promoted_wf: "hm_wf m \<Longrightarrow> hm_wf (insert_promoted es m)"
  by (induction es arbitrary: m) (simp_all add: insert_promoted_def)

lemma filter_somes_update:
  "i < length es \<Longrightarrow> \<not> P v \<Longrightarrow> (\<And>e. es ! i = Some e \<Longrightarrow> \<not> P e) \<Longrightarrow>
   filter P (somes (es[i := Some v])) = filter P (somes es)"
proof (induction es arbitrary: i)
  case (Cons e es)
  show ?case
  proof (cases i)
    case 0
    with Cons.prems show ?thesis by (cases e) auto
  next
    case (Suc j)
    then have "filter P (somes (es[j := Some v])) = filter P (somes es)"
      using Cons.prems by (intro Cons.IH) auto
    with Suc show ?thesis by (cases e) auto
  qed
qed simp

lemma entries_leq_insert:
  assumes inv: "pending_inv c" and ins: "pending_insert c slot root = Inr (prev, c')" and "u < slot"
    and window: "\<forall>s r. pending_map c s = Some r \<longrightarrow> unat slot < unat s + length (pc_entries c)"
  shows "entries_leq c' u = entries_leq c u"
proof -
  let ?n = "length (pc_entries c)" let ?i = "unat slot mod ?n"
  have "\<not> pe_slot e \<le> u" if e: "pc_entries c ! ?i = Some e" for e
  proof
    assume le: "pe_slot e \<le> u"
    have "Some e \<in> set (pc_entries c)" using e nth_mem [OF pending_bucket [OF inv, of slot]] by simp
    then have "unat slot < unat (pe_slot e) + ?n" "unat (pe_slot e) mod ?n = ?i"
      using window inv e pending_bucket [OF inv, of slot] unfolding pending_entry_iff [OF inv]
      by (auto simp: pending_inv_def)
    moreover have "unat (pe_slot e) < unat slot" using le \<open>u < slot\<close> by (simp add: word_less_nat_alt word_le_nat_alt)
    ultimately have "(unat slot - unat (pe_slot e)) mod ?n = 0" "0 < unat slot - unat (pe_slot e)"
      "unat slot - unat (pe_slot e) < ?n"
      by (auto simp: mod_eq_dvd_iff_nat [symmetric] dvd_eq_mod_eq_0 [symmetric] mod_eq_dvd_iff_nat)
    then show False by simp
  qed
  then show ?thesis
    using ins \<open>u < slot\<close> pending_bucket [OF inv, of slot]
    by (auto simp: pending_insert_def pending_index_eq [OF inv] Let_def entries_leq_def intro!: filter_somes_update)
qed

section \<open>Imports\<close>

text \<open>The finalized slot and the routing decision of an import.\<close>

definition import_fin :: "fc_meta \<Rightarrow> u64" where
  "import_fin m = (case fm_finalized_slot m of None \<Rightarrow> 0 | Some x \<Rightarrow> x)"

definition import_canonical :: "fc_meta \<Rightarrow> u64 \<Rightarrow> bool" where
  "import_canonical m slot \<longleftrightarrow> \<not> (case fm_finalized_slot m of Some x \<Rightarrow> slot > x | None \<Rightarrow> False)"

lemma bundle_inner_cases:
  assumes b: "b = bwa_block (sb_message sblock)" and m: "m = next_meta fs root mj mf uh"
    and ok: "persist_signed_block_bundle_inner R L sha256 fs root sblock s mj mf uh = Inr fs'"
  obtains bs gs ss db pending drained pending' where
    "block_encode L b = Inr bs" "signed_block_encode L sblock = Inr gs" "state_encode L s = Inr ss"
    "persist_signed_block_bundle R (fs_db fs) root (encode_blob sha256 BLOB_KIND_BLOCK bs)
       (encode_blob sha256 BLOB_KIND_SIGNED_BLOCK gs) (b_state_root b) (encode_blob sha256 BLOB_KIND_STATE ss)
       ((b_slot b, root) # entry_rows (entries_leq (fs_pending fs) (import_fin m)))
       ((if import_canonical m (b_slot b) then [(b_slot b, root)] else []) @
          entry_rows (entries_leq (fs_pending fs) (import_fin m))) m = Inr db"
    "if import_canonical m (b_slot b) then pending = fs_pending fs
     else \<exists>prev. pending_insert (fs_pending fs) (b_slot b) root = Inr (prev, pending)"
    "drain_leq_with pending (import_fin m) = Inr (drained, pending')"
    "fs' = fs\<lparr>fs_db := db,
       fs_state_root_to_block_root := hm_insert (b_state_root b) root (fs_state_root_to_block_root fs),
       fs_state_by_slot := insert_promoted drained (hm_insert (b_slot b) root (fs_state_by_slot fs)),
       fs_block_by_slot := insert_promoted drained
         (if import_canonical m (b_slot b) then hm_insert (b_slot b) root (fs_block_by_slot fs) else fs_block_by_slot fs),
       fs_pending := pending', fs_head := fm_head m, fs_justified := fm_justified m,
       fs_finalized := fm_finalized m, fs_finalized_slot := fm_finalized_slot m,
       fs_index_dirty := False, fs_meta_dirty := False\<rparr>"
proof -
  have upd: "(if uh then g\<lparr>fs_head := fm_head m, fs_justified := fm_justified m,
        fs_finalized := fm_finalized m, fs_finalized_slot := fm_finalized_slot m\<rparr> else g) =
      g\<lparr>fs_head := fm_head m, fs_justified := fm_justified m,
        fs_finalized := fm_finalized m, fs_finalized_slot := fm_finalized_slot m\<rparr>"
    if "g = fs\<lparr>fs_db := db, fs_state_root_to_block_root := ri\<rparr>" for g db ri
    using m that by (simp add: next_meta_def fs_meta_def)
  note def = ok [unfolded persist_signed_block_bundle_inner_def Let_def, folded b, folded m,
      folded import_fin_def import_canonical_def, unfolded upd [OF refl] promote_finalized_slot_in_memory_def]
  let ?rows = "entry_rows (entries_leq (fs_pending fs) (import_fin m))"
  let ?canon = "import_canonical m (b_slot b)"
  obtain bs gs ss db where enc: "block_encode L b = Inr bs" "signed_block_encode L sblock = Inr gs"
    "state_encode L s = Inr ss"
    and db: "persist_signed_block_bundle R (fs_db fs) root (encode_blob sha256 BLOB_KIND_BLOCK bs)
       (encode_blob sha256 BLOB_KIND_SIGNED_BLOCK gs) (b_state_root b) (encode_blob sha256 BLOB_KIND_STATE ss)
       ((b_slot b, root) # ?rows) ((if ?canon then [(b_slot b, root)] else []) @ ?rows) m = Inr db"
    using def unfolding and_then_eq_Inr by blast
  show ?thesis
  proof (cases ?canon)
    case True
    then obtain drained pending' where "drain_leq_with (fs_pending fs) (import_fin m) = Inr (drained, pending')"
      using def enc db by (auto simp: and_then_eq_Inr)
    with True show ?thesis using def enc db by (intro that [OF enc db]) (auto simp: and_then_eq_Inr)
  next
    case False
    then obtain prev pending where ins: "pending_insert (fs_pending fs) (b_slot b) root = Inr (prev, pending)"
      using def enc db by (auto simp: and_then_eq_Inr)
    with False obtain drained pending' where "drain_leq_with pending (import_fin m) = Inr (drained, pending')"
      using def enc db by (auto simp: and_then_eq_Inr)
    with False ins show ?thesis using def enc db by (intro that [OF enc db]) (auto simp: and_then_eq_Inr)
  qed
qed

lemma not_canonical_fin: "\<not> import_canonical m slot \<Longrightarrow> import_fin m < slot"
  by (auto simp: import_canonical_def import_fin_def split: option.splits)

lemma fs_meta_next [simp]:
  "fs_finalized_slot fs = None \<longrightarrow> fs_finalized fs = None \<Longrightarrow>
   fm_finalized_slot (next_meta fs root mj mf uh) = None \<longrightarrow> fm_finalized (next_meta fs root mj mf uh) = None"
  by (simp add: next_meta_def fs_meta_def)

lemma import_pending:
  assumes inv: "pending_inv (fs_pending fs)" and win: "within_window fs slot"
    and pending: "if import_canonical m slot then pending = fs_pending fs
      else \<exists>prev. pending_insert (fs_pending fs) slot root = Inr (prev, pending)"
  shows "pending_inv pending" "entries_leq pending (import_fin m) = entries_leq (fs_pending fs) (import_fin m)"
proof -
  show "pending_inv pending"
  proof (cases "import_canonical m slot")
    case False
    then obtain prev where "pending_insert (fs_pending fs) slot root = Inr (prev, pending)" using pending by auto
    then show ?thesis by (rule_tac pending_insert_spec [OF inv, of slot root]) auto
  qed (use pending inv in auto)
  show "entries_leq pending (import_fin m) = entries_leq (fs_pending fs) (import_fin m)"
  proof (cases "import_canonical m slot")
    case False
    then obtain prev where "pending_insert (fs_pending fs) slot root = Inr (prev, pending)" using pending by auto
    from entries_leq_insert [OF inv this not_canonical_fin [OF False]] show ?thesis
      using win unfolding within_window_def by blast
  qed (use pending in auto)
qed

lemma bundle_inner_inv:
  assumes laws: "redb_laws R view content" and inv: "fs_inv fs" and dur: "index_durable content fs"
    and win: "within_window fs (b_slot (bwa_block (sb_message sblock)))"
    and ok: "persist_signed_block_bundle_inner R L sha256 fs root sblock s mj mf uh = Inr fs'"
  shows "fs_inv fs' \<and> index_durable content fs' \<and> meta_durable content fs' \<and> \<not> fs_index_dirty fs' \<and> \<not> fs_meta_dirty fs'"
proof -
  define b m where b: "b = bwa_block (sb_message sblock)" and m: "m = next_meta fs root mj mf uh"
  let ?canon = "import_canonical m (b_slot b)"
  let ?rows = "entry_rows (entries_leq (fs_pending fs) (import_fin m))"
  obtain bs gs ss db pending drained pending' where
    db: "persist_signed_block_bundle R (fs_db fs) root (encode_blob sha256 BLOB_KIND_BLOCK bs)
       (encode_blob sha256 BLOB_KIND_SIGNED_BLOCK gs) (b_state_root b) (encode_blob sha256 BLOB_KIND_STATE ss)
       ((b_slot b, root) # ?rows) ((if ?canon then [(b_slot b, root)] else []) @ ?rows) m = Inr db"
    and pending: "if ?canon then pending = fs_pending fs
      else \<exists>prev. pending_insert (fs_pending fs) (b_slot b) root = Inr (prev, pending)"
    and drain: "drain_leq_with pending (import_fin m) = Inr (drained, pending')"
    and fs': "fs' = fs\<lparr>fs_db := db,
       fs_state_root_to_block_root := hm_insert (b_state_root b) root (fs_state_root_to_block_root fs),
       fs_state_by_slot := insert_promoted drained (hm_insert (b_slot b) root (fs_state_by_slot fs)),
       fs_block_by_slot := insert_promoted drained
         (if ?canon then hm_insert (b_slot b) root (fs_block_by_slot fs) else fs_block_by_slot fs),
       fs_pending := pending', fs_head := fm_head m, fs_justified := fm_justified m,
       fs_finalized := fm_finalized m, fs_finalized_slot := fm_finalized_slot m,
       fs_index_dirty := False, fs_meta_dirty := False\<rparr>"
    by (rule bundle_inner_cases [OF b m ok]) blast
  have inv': "pending_inv (fs_pending fs)" using inv unfolding fs_inv_def by simp
  note pend = import_pending [OF inv' win [folded b] pending]
  obtain drained_eq: "drained = entries_leq (fs_pending fs) (import_fin m)" and "pending_inv pending'"
    using drain pend(2) by (rule_tac drain_leq_with_spec [OF pend(1), of "import_fin m"]) auto
  then have "fs_inv fs'"
    using inv unfolding fs_inv_def fs' by (auto simp: insert_promoted_wf m)
  moreover have "index_durable content fs'"
    using dur unfolding index_durable_def index_rows_def fs' drained_eq
    by (simp add: persist_bundle_content [OF laws db] slot_rows_promoted slot_rows_insert root_rows_update)
  moreover have "meta_durable content fs'"
    unfolding meta_durable_def fs' fs_meta_def by (simp add: persist_bundle_content [OF laws db] meta_rows_def set_meta_def)
  ultimately show ?thesis by (simp add: fs')
qed

section \<open>Flushing\<close>

lemma flush_durable:
  assumes laws: "redb_laws R view content" and inv: "fs_inv fs"
    and dirty: "fs_index_dirty fs \<or> fs_meta_dirty fs"
    and ok: "flush_canonical_with_state_root_index R fs True = Inr fs'"
  obtains db where "fs' = fs\<lparr>fs_db := db, fs_index_dirty := False, fs_meta_dirty := False\<rparr>"
    "index_durable content fs'" "meta_durable content fs'"
    "ct_blobs (content db) = (ct_blobs (content (fs_db fs)))
       (STATE_ROOT_INDEX_TABLE := root_rows (hm_get (fs_state_root_to_block_root fs)))"
proof -
  obtain db where db: "persist_snapshot R (fs_db fs) (fs_state_by_slot fs) (fs_block_by_slot fs)
      (fs_state_root_to_block_root fs) True (fs_meta fs) = Inr db"
    and fs': "fs' = fs\<lparr>fs_db := db, fs_index_dirty := False, fs_meta_dirty := False\<rparr>"
    using ok dirty by (auto simp: flush_canonical_with_state_root_index_def and_then_eq_Inr)
  note content = persist_snapshot_content [OF laws db]
  have "index_durable content fs'"
    using inv by (simp add: index_durable_def index_rows_def fs' content upd_slots_empty upd_roots_index fs_inv_def)
  moreover have "meta_durable content fs'"
    by (simp add: meta_durable_def fs' content fs_meta_def meta_rows_def set_meta_def)
  ultimately show ?thesis using fs' inv content(2) by (intro that) (auto simp: upd_roots_index fs_inv_def)
qed

lemma promote_inv:
  assumes inv: "fs_inv fs"
  obtains fs' pending where "promote_finalized_slot_in_memory fs slot = Inr fs'" "fs_inv fs'"
    "fs' = fs\<lparr>fs_block_by_slot := insert_promoted (entries_leq (fs_pending fs) slot) (fs_block_by_slot fs),
       fs_state_by_slot := insert_promoted (entries_leq (fs_pending fs) slot) (fs_state_by_slot fs),
       fs_pending := pending\<rparr>"
proof -
  have "pending_inv (fs_pending fs)" using inv by (simp add: fs_inv_def)
  then obtain pending where "drain_leq_with (fs_pending fs) slot = Inr (entries_leq (fs_pending fs) slot, pending)"
    "pending_inv pending" by (rule drain_leq_with_spec)
  then show ?thesis
    using inv by (intro that [OF _ _ refl])
      (auto simp: promote_finalized_slot_in_memory_def fs_inv_def insert_promoted_wf)
qed

text \<open>An ignored error of a flush leaves the metadata marked dirty.\<close>

lemma try_flush_cases:
  assumes "try_flush R fs = Inr fs'"
  shows "flush_canonical R fs = Inr fs' \<or> fs' = fs"
  using assms by (auto simp: try_flush_def and_then_eq_Inr ok_value_def split: sum.splits if_splits)

lemma apply_finalized_inv:
  assumes laws: "redb_laws R view content" and inv: "fs_inv fs" and ok: "apply_finalized R fs root slot = Inr fs'"
    and flushed: "fs' = fs \<or> \<not> fs_meta_dirty fs'"
  shows "fs' = fs \<or> fs_inv fs' \<and> \<not> fs_index_dirty fs' \<and> index_durable content fs' \<and> meta_durable content fs'"
proof (cases "case fs_finalized_slot fs of Some current \<Rightarrow> slot < current | None \<Rightarrow> False")
  case False
  let ?fs = "fs\<lparr>fs_finalized := Some root, fs_finalized_slot := Some slot, fs_meta_dirty := True\<rparr>"
  have "fs_inv ?fs" using inv by (simp add: fs_inv_def)
  then obtain fs1 pending where fs1: "promote_finalized_slot_in_memory ?fs slot = Inr fs1" "fs_inv fs1"
    "fs1 = ?fs\<lparr>fs_block_by_slot := insert_promoted (entries_leq (fs_pending ?fs) slot) (fs_block_by_slot ?fs),
       fs_state_by_slot := insert_promoted (entries_leq (fs_pending ?fs) slot) (fs_state_by_slot ?fs),
       fs_pending := pending\<rparr>" by (rule promote_inv)
  then have dirty: "fs_meta_dirty fs1" by simp
  have "try_flush R fs1 = Inr fs'" using ok False fs1(1) by (simp add: apply_finalized_def)
  then consider "flush_canonical R fs1 = Inr fs'" | "fs' = fs1" using try_flush_cases by blast
  then show ?thesis
  proof cases
    case 1
    then obtain db where "fs' = fs1\<lparr>fs_db := db, fs_index_dirty := False, fs_meta_dirty := False\<rparr>"
      "index_durable content fs'" "meta_durable content fs'"
      using flush_durable [OF laws fs1(2)] dirty unfolding flush_canonical_def by metis
    then show ?thesis using fs1(2) by (simp add: fs_inv_def)
  qed (use dirty flushed in auto)
qed (use ok in \<open>simp add: apply_finalized_def\<close>)

section \<open>Pruning\<close>

lemma rebuild_roots_loop_wf:
  "rebuild_roots_loop R L fs roots m = Inr m' \<Longrightarrow> hm_wf m \<Longrightarrow> hm_wf m'"
proof (induction roots arbitrary: m)
  case (Cons root roots)
  then obtain b where b: "load_block_by_root R L fs root = Inr b" by (auto simp: and_then_eq_Inr)
  show ?case
  proof (cases b)
    case None
    with b Cons.prems obtain s :: "state option" where "rebuild_roots_loop R L fs roots
        (if s \<noteq> None then hm_insert root root m else m) = Inr m'" by (auto simp: and_then_eq_Inr)
    then show ?thesis by (rule Cons.IH) (use Cons.prems(2) in auto)
  next
    case (Some block)
    with b Cons.prems show ?thesis by (intro Cons.IH [of "hm_insert (b_state_root block) root m"]) auto
  qed
qed simp

lemma flush_not_dirty:
  "flush_canonical_with_state_root_index R fs b = Inr fs' \<Longrightarrow> \<not> fs_index_dirty fs'"
  by (auto simp: flush_canonical_with_state_root_index_def and_then_eq_Inr split: if_splits)

lemma prune_ok_flushed:
  assumes "fs_prune R L fs fin keep = Inr (Inr report, fs')"
  shows "\<not> fs_index_dirty fs'"
proof -
  define before where "before = (if fin < keep then 0 else fin - keep)"
  let ?fs0 = "fs\<lparr>fs_state_by_slot := filter (retained before (pinned_roots fs)) (fs_state_by_slot fs),
    fs_block_by_slot := filter (retained before (pinned_roots fs)) (fs_block_by_slot fs)\<rparr>"
  note ok = assms [unfolded fs_prune_def Let_def, folded before_def]
  obtain live where live: "rebuild_live_state_root_index R L ?fs0 = Inr live"
    using ok by (auto simp: and_then_eq_Inr)
  let ?fs1 = "?fs0\<lparr>fs_state_root_to_block_root := live, fs_index_dirty := True\<rparr>"
  show ?thesis
  proof (cases "flush_canonical_with_state_root_index R ?fs1 True")
    case (Inr fs2)
    with ok show ?thesis
      using flush_not_dirty [OF Inr]
      by (auto simp: live extend_referenced_roots_def Let_def split: sum.splits prod.splits)
  qed (use ok live in simp)
qed

lemma prune_cases:
  assumes laws: "redb_laws R view content" and inv: "fs_inv fs"
    and ok: "fs_prune R L fs fin keep = Inr (r, fs')" and flushed: "\<not> fs_index_dirty fs'"
    and before: "before = (if fin < keep then 0 else fin - keep)"
    and states: "states = filter (retained before (pinned_roots fs)) (fs_state_by_slot fs)"
    and blocks: "blocks = filter (retained before (pinned_roots fs)) (fs_block_by_slot fs)"
  obtains fs1 live db where "fs_inv fs1" "index_durable content fs1" "meta_durable content fs1"
    "fs1 = fs\<lparr>fs_db := db, fs_state_by_slot := states, fs_block_by_slot := blocks,
       fs_state_root_to_block_root := live, fs_index_dirty := False, fs_meta_dirty := False\<rparr>"
    "ct_blobs (content db) = (ct_blobs (content (fs_db fs)))(STATE_ROOT_INDEX_TABLE := root_rows (hm_get live))"
    "(\<exists>e. r = Inl e) \<and> fs' = fs1 \<or> (\<exists>g db'. fs' = fs1\<lparr>fs_db := db'\<rparr> \<and> gc_unreferenced_blobs R db
       (snd ` set states \<union> set (somes (pinned_roots fs)) \<union> set (map pe_block_root (somes (pc_entries (fs_pending fs)))))
       (snd ` set blocks \<union> set (somes (pinned_roots fs)) \<union> set (map pe_block_root (somes (pc_entries (fs_pending fs))))) =
       Inr (g, db'))"
proof -
  let ?fs0 = "fs\<lparr>fs_state_by_slot := states, fs_block_by_slot := blocks\<rparr>"
  obtain live where live: "rebuild_live_state_root_index R L ?fs0 = Inr live"
    using ok unfolding fs_prune_def Let_def before [symmetric] states [symmetric] blocks [symmetric]
    by (auto simp: and_then_eq_Inr)
  let ?fs1 = "?fs0\<lparr>fs_state_root_to_block_root := live, fs_index_dirty := True\<rparr>"
  have inv1: "fs_inv ?fs1"
    using inv live rebuild_roots_loop_wf [of R L ?fs0 "live_block_roots ?fs0" "[]" live]
    by (simp add: fs_inv_def states blocks rebuild_live_state_root_index_def)
  note def = ok [unfolded fs_prune_def Let_def, folded before, folded states blocks, unfolded live, simplified]
  obtain fs2 where fs2: "flush_canonical_with_state_root_index R ?fs1 True = Inr fs2"
    using def flushed by (auto split: sum.splits)
  obtain db where db: "fs2 = ?fs1\<lparr>fs_db := db, fs_index_dirty := False, fs_meta_dirty := False\<rparr>"
    "index_durable content fs2" "meta_durable content fs2"
    "ct_blobs (content db) = (ct_blobs (content (fs_db ?fs1)))
       (STATE_ROOT_INDEX_TABLE := root_rows (hm_get (fs_state_root_to_block_root ?fs1)))"
    by (rule flush_durable [OF laws inv1 _ fs2]) auto
  show ?thesis
  proof (rule that [of fs2 live db])
    show "fs_inv fs2" using inv1 by (simp add: db(1) fs_inv_def)
    show "(\<exists>e. r = Inl e) \<and> fs' = fs2 \<or> (\<exists>g db'. fs' = fs2\<lparr>fs_db := db'\<rparr> \<and> gc_unreferenced_blobs R db
       (snd ` set states \<union> set (somes (pinned_roots fs)) \<union> set (map pe_block_root (somes (pc_entries (fs_pending fs)))))
       (snd ` set blocks \<union> set (somes (pinned_roots fs)) \<union> set (map pe_block_root (somes (pc_entries (fs_pending fs))))) =
       Inr (g, db'))"
      using def fs2 db(1) by (auto simp: extend_referenced_roots_def Let_def split: sum.splits prod.splits)
  qed (use db in simp_all)
qed

section \<open>Restart\<close>

definition store_inv :: "('db, 'tx) redb \<Rightarrow> ('tx \<Rightarrow> contents) \<Rightarrow> ('db \<Rightarrow> contents) \<Rightarrow> 'db file_store \<Rightarrow> bool" where
  "store_inv R view content fs \<longleftrightarrow> redb_laws R view content \<and> fs_inv fs \<and> \<not> fs_index_dirty fs \<and>
     index_durable content fs \<and> (fs_meta_dirty fs \<or> meta_durable content fs)"

text \<open>Two stores with the same indexes and metadata.\<close>

definition same_store :: "'db file_store \<Rightarrow> 'db file_store \<Rightarrow> bool" where
  "same_store fs fs' \<longleftrightarrow> hm_get (fs_state_by_slot fs') = hm_get (fs_state_by_slot fs) \<and>
     hm_get (fs_block_by_slot fs') = hm_get (fs_block_by_slot fs) \<and>
     hm_get (fs_state_root_to_block_root fs') = hm_get (fs_state_root_to_block_root fs) \<and>
     fs_head fs' = fs_head fs \<and> fs_justified fs' = fs_justified fs \<and>
     fs_finalized fs' = fs_finalized fs \<and> fs_finalized_slot fs' = fs_finalized_slot fs"

lemma reopen_spec:
  assumes laws: "redb_laws R view content" and work: "reads_work R" and inv: "fs_inv fs"
    and dur: "index_durable content fs" "meta_durable content fs"
  obtains fs' where "file_store_open R L (Inr ()) (Inr (fs_db fs)) = Inr fs'" "same_store fs fs'"
    "store_inv R view content fs'" "fs_pending fs' = pending_new PENDING_WINDOW_CAP" "fs_db fs' = fs_db fs"
    "\<not> fs_meta_dirty fs'"
proof -
  let ?db = "fs_db fs"
  have rows: "ct_slots (content ?db) STATE_SLOT_TABLE = map_option root_bytes \<circ> hm_get (fs_state_by_slot fs)"
    "ct_slots (content ?db) BLOCK_SLOT_TABLE = map_option root_bytes \<circ> hm_get (fs_block_by_slot fs)"
    "ct_blobs (content ?db) STATE_ROOT_INDEX_TABLE = root_rows (hm_get (fs_state_root_to_block_root fs))"
    using dur(1) by (simp_all add: index_durable_def index_rows_def slot_rows_def fun_eq_iff)
  obtain si where si: "load_slot_index R ?db STATE_SLOT_TABLE = Inr si" "hm_wf si" "hm_get si = hm_get (fs_state_by_slot fs)"
    using load_slot_index_eq [OF laws work rows(1)] .
  obtain bi where bi: "load_slot_index R ?db BLOCK_SLOT_TABLE = Inr bi" "hm_wf bi" "hm_get bi = hm_get (fs_block_by_slot fs)"
    using load_slot_index_eq [OF laws work rows(2)] .
  obtain ri where ri: "load_state_root_index R ?db = Inr ri" "hm_wf ri" "hm_get ri = hm_get (fs_state_root_to_block_root fs)"
    using load_state_root_index_eq [OF laws work rows(3)] .
  note m = db_load_meta_eq [OF laws work dur(2) [unfolded meta_durable_def]]
  let ?fs = "\<lparr>fs_db = ?db, fs_state_by_slot = si, fs_state_root_to_block_root = ri, fs_block_by_slot = bi,
    fs_pending = pending_new PENDING_WINDOW_CAP, fs_head = fs_head fs, fs_finalized = fs_finalized fs,
    fs_finalized_slot = fs_finalized_slot fs, fs_justified = fs_justified fs,
    fs_recovery = \<lparr>rr_loaded_states = length si, rr_loaded_blocks = length bi, rr_loaded_signed_blocks = 0,
      rr_skipped_corrupt = 0\<rparr>, fs_index_dirty = False, fs_meta_dirty = False\<rparr>"
  show ?thesis
  proof (rule that [of ?fs])
    have "derive_finalized_slot R L (?fs\<lparr>fs_recovery := r\<rparr>) = Inr (fs_finalized_slot fs)" for r
      using inv by (simp add: derive_finalized_slot_def fs_inv_def)
    then show "file_store_open R L (Inr ()) (Inr ?db) = Inr ?fs"
      by (simp add: file_store_open_def load_from_disk_def fs_load_state_index_def fs_load_block_index_def
          db_load_state_index_def db_load_block_index_def fs_load_state_root_index_def fs_load_meta_def
          ok_value_def si bi ri m fs_meta_def)
    show "same_store fs ?fs" by (simp add: same_store_def si bi ri)
    have "pending_inv (pending_new PENDING_WINDOW_CAP)" by (simp add: pending_inv_new PENDING_WINDOW_CAP_def)
    then have "fs_inv ?fs" using inv by (simp add: fs_inv_def si bi ri)
    moreover have "index_durable content ?fs"
      using dur(1) by (simp add: index_durable_def index_rows_def slot_rows_def fun_eq_iff si bi ri)
    moreover have "meta_durable content ?fs" using dur(2) by (simp add: meta_durable_def fs_meta_def)
    ultimately show "store_inv R view content ?fs" using laws by (simp add: store_inv_def)
  qed simp_all
qed

section \<open>Sequences of operations\<close>

datatype store_event =
    Put_Signed bytes32 signed_block state
  | Put_Backfill bytes32 signed_block state
  | Put_Anchor bytes32 signed_block state
  | Put_Prevalidated bytes32 signed_block state state
  | Set_Head bytes32
  | Set_Justified bytes32
  | Set_Finalized bytes32
  | Set_Finalized_Checkpoint checkpoint
  | Prune_Before u64 u64
  | Restart

text \<open>An error that the method returns leaves the store to the next operation.\<close>

definition or_keep :: "'a \<Rightarrow> 'a result \<Rightarrow> 'a result" where
  "or_keep fs r = and_then (ok_value r) (\<lambda>x. Inr (case x of None \<Rightarrow> fs | Some fs' \<Rightarrow> fs'))"

fun store_step ::
    "('db, 'tx) redb \<Rightarrow> ssz_lib \<Rightarrow> ('pk, 'sk, 'sig, 'agg) pq_lib \<Rightarrow> (u8 list \<Rightarrow> u8 list) \<Rightarrow>
     'db file_store \<Rightarrow> store_event \<Rightarrow> 'db file_store result" where
  "store_step R L Q sha256 fs (Put_Signed root b s) =
     or_keep fs (and_then (put_signed_block_inner R L Q sha256 fs root b s) (\<lambda>(fs', _). Inr fs'))"
| "store_step R L Q sha256 fs (Put_Backfill root b s) =
     or_keep fs (and_then (put_backfill_signed_block R L Q sha256 fs root b s) (\<lambda>(fs', _). Inr fs'))"
| "store_step R L Q sha256 fs (Put_Anchor root b s) =
     or_keep fs (put_anchor_signed_block R L sha256 fs root b s)"
| "store_step R L Q sha256 fs (Put_Prevalidated root b s post) =
     or_keep fs (and_then (put_prevalidated_signed_block R L sha256 fs root b s post) (\<lambda>(fs', _). Inr fs'))"
| "store_step R L Q sha256 fs (Set_Head root) = Inr (fs_set_head fs root)"
| "store_step R L Q sha256 fs (Set_Justified root) = Inr (fs_set_justified fs root)"
| "store_step R L Q sha256 fs (Set_Finalized root) = fs_set_finalized R L fs root"
| "store_step R L Q sha256 fs (Set_Finalized_Checkpoint c) = fs_set_finalized_checkpoint R fs c"
| "store_step R L Q sha256 fs (Prune_Before finalized_slot keep) =
     and_then (fs_prune R L fs finalized_slot keep) (\<lambda>(_, fs'). Inr fs')"
| "store_step R L Q sha256 fs Restart =
     and_then (file_store_drop R fs) (\<lambda>db. file_store_open R L (Inr ()) (Inr db))"

text \<open>
  The imported slot stays within one turn of the pending window; the flush that an
  operation attempts succeeds, which shows in the dirty flags; a restart finds a database
  that can be read.
\<close>

fun store_guard ::
    "('db, 'tx) redb \<Rightarrow> ssz_lib \<Rightarrow> 'db file_store \<Rightarrow> store_event \<Rightarrow> bool" where
  "store_guard R L fs (Put_Signed root b s) = within_window fs (b_slot (bwa_block (sb_message b)))"
| "store_guard R L fs (Put_Backfill root b s) = within_window fs (b_slot (bwa_block (sb_message b)))"
| "store_guard R L fs (Put_Anchor root b s) = within_window fs (b_slot (bwa_block (sb_message b)))"
| "store_guard R L fs (Put_Prevalidated root b s post) = within_window fs (b_slot (bwa_block (sb_message b)))"
| "store_guard R L fs (Set_Finalized root) =
     (\<forall>fs'. fs_set_finalized R L fs root = Inr fs' \<longrightarrow> fs' = fs \<or> \<not> fs_meta_dirty fs')"
| "store_guard R L fs (Set_Finalized_Checkpoint c) =
     (\<forall>fs'. fs_set_finalized_checkpoint R fs c = Inr fs' \<longrightarrow> fs' = fs \<or> \<not> fs_meta_dirty fs')"
| "store_guard R L fs (Prune_Before finalized_slot keep) =
     (\<forall>r fs'. fs_prune R L fs finalized_slot keep = Inr (r, fs') \<longrightarrow> \<not> fs_index_dirty fs')"
| "store_guard R L fs Restart =
     (reads_work R \<and> (fs_meta_dirty fs \<longrightarrow> (\<exists>fs'. flush_canonical R fs = Inr fs')))"
| "store_guard R L fs _ = True"

lemma or_keep_cases: "or_keep fs r = Inr fs' \<Longrightarrow> r = Inr fs' \<or> fs' = fs"
  by (auto simp: or_keep_def and_then_eq_Inr ok_value_def split: sum.splits if_splits)

lemma import_store_inv:
  assumes "store_inv R view content fs" "within_window fs (b_slot (bwa_block (sb_message sblock)))"
    and "persist_signed_block_bundle_inner R L sha256 fs root sblock s mj mf uh = Inr fs'"
  shows "store_inv R view content fs'"
  using assms bundle_inner_inv [of R view content fs sblock L sha256 root s mj mf uh fs']
  unfolding store_inv_def by simp

lemma put_signed_block_bundle:
  assumes "put_signed_block_inner R L Q sha256 fs root sblock s = Inr (fs', s')"
  obtains post mj mf uh where "replay_signed_block_from_parent R L Q fs sblock = Inr post"
    "persist_signed_block_bundle_inner R L sha256 fs root sblock post mj mf uh = Inr fs'"
  using assms unfolding put_signed_block_inner_def Let_def and_then_eq_Inr by auto

lemma put_step_inv:
  assumes inv: "store_inv R view content fs" and win: "within_window fs (b_slot (bwa_block (sb_message b)))"
  shows "put_signed_block_inner R L Q sha256 fs root b s = Inr (fs', s') \<Longrightarrow> store_inv R view content fs'"
    "put_backfill_signed_block R L Q sha256 fs root b s = Inr (fs', s') \<Longrightarrow> store_inv R view content fs'"
    "put_anchor_signed_block R L sha256 fs root b s = Inr fs' \<Longrightarrow> store_inv R view content fs'"
    "put_prevalidated_signed_block R L sha256 fs root b s post = Inr (fs', s') \<Longrightarrow> store_inv R view content fs'"
  using import_store_inv [OF inv win]
  by (auto simp: put_signed_block_inner_def put_backfill_signed_block_def put_anchor_signed_block_def
      put_prevalidated_signed_block_def persist_signed_block_bundle_from_state_def Let_def and_then_eq_Inr
      split: if_splits)

lemma finalized_step_inv:
  assumes inv: "store_inv R view content fs" and ok: "apply_finalized R fs root slot = Inr fs'"
    and "fs' = fs \<or> \<not> fs_meta_dirty fs'"
  shows "store_inv R view content fs'"
  using apply_finalized_inv [of R view content fs root slot fs'] assms unfolding store_inv_def by blast

lemma prune_step_inv:
  assumes inv: "store_inv R view content fs" and ok: "fs_prune R L fs fin keep = Inr (r, fs')"
    and flushed: "\<not> fs_index_dirty fs'"
  shows "store_inv R view content fs'"
proof -
  have laws: "redb_laws R view content" and fs: "fs_inv fs" using inv by (simp_all add: store_inv_def)
  show ?thesis
  proof (rule prune_cases [OF laws fs ok flushed refl refl refl], elim disjE exE conjE, goal_cases)
    case (1 fs1 live db e)
    then show ?case using laws by (simp add: store_inv_def)
  next
    case (2 fs1 live db g db')
    have "index_durable content fs'" "meta_durable content fs'"
      using 2(2, 3) gc_content [OF laws 2(7)] unfolding 2(4, 6)
      by (simp_all add: index_durable_def index_rows_def meta_durable_def fs_meta_def)
    moreover have "fs_inv fs'" "\<not> fs_index_dirty fs'" using 2(1, 4, 6) by (simp_all add: fs_inv_def)
    ultimately show ?case using laws by (simp add: store_inv_def)
  qed
qed

lemma restart_step:
  assumes inv: "store_inv R view content fs" and guard: "store_guard R L fs Restart"
  obtains fs' where "store_step R L Q sha256 fs Restart = Inr fs'" "same_store fs fs'"
    "store_inv R view content fs'" "fs_pending fs' = pending_new PENDING_WINDOW_CAP"
proof -
  have laws: "redb_laws R view content" and work: "reads_work R" and fs: "fs_inv fs" "\<not> fs_index_dirty fs"
    "index_durable content fs" "fs_meta_dirty fs \<or> meta_durable content fs"
    using inv guard by (simp_all add: store_inv_def)
  obtain db where drop: "file_store_drop R fs = Inr db"
    and dur: "index_durable content (fs\<lparr>fs_db := db\<rparr>)" "meta_durable content (fs\<lparr>fs_db := db\<rparr>)"
  proof (cases "fs_meta_dirty fs")
    case False
    then show ?thesis using fs by (intro that [of "fs_db fs"]) (simp_all add: file_store_drop_def)
  next
    case True
    then obtain fs1 where fs1: "flush_canonical R fs = Inr fs1" using guard by auto
    obtain db where "fs1 = fs\<lparr>fs_db := db, fs_index_dirty := False, fs_meta_dirty := False\<rparr>"
      "index_durable content fs1" "meta_durable content fs1"
      using flush_durable [OF laws fs(1) _ fs1 [unfolded flush_canonical_def]] True by metis
    with True fs1 show ?thesis
      by (intro that [of db]) (simp_all add: file_store_drop_def try_flush_def ok_value_def
        index_durable_def meta_durable_def fs_meta_def)
  qed
  have "fs_inv (fs\<lparr>fs_db := db\<rparr>)" using fs(1) by (simp add: fs_inv_def)
  from reopen_spec [OF laws work this dur, of L] obtain fs' where
    "file_store_open R L (Inr ()) (Inr db) = Inr fs'" "same_store (fs\<lparr>fs_db := db\<rparr>) fs'"
    "store_inv R view content fs'" "fs_pending fs' = pending_new PENDING_WINDOW_CAP" by auto
  with drop show ?thesis by (intro that [of fs']) (simp_all add: same_store_def)
qed

lemma store_step_inv:
  assumes inv: "store_inv R view content fs" and guard: "store_guard R L fs e"
    and step: "store_step R L Q sha256 fs e = Inr fs'"
  shows "store_inv R view content fs'"
proof (cases e)
  case (Put_Signed root b s)
  with guard step show ?thesis
    using put_step_inv(1) [OF inv] inv by (auto dest!: or_keep_cases simp: and_then_eq_Inr)
next
  case (Put_Backfill root b s)
  with guard step show ?thesis
    using put_step_inv(2) [OF inv] inv by (auto dest!: or_keep_cases simp: and_then_eq_Inr)
next
  case (Put_Anchor root b s)
  with guard step show ?thesis
    using put_step_inv(3) [OF inv] inv by (auto dest!: or_keep_cases)
next
  case (Put_Prevalidated root b s post)
  with guard step show ?thesis
    using put_step_inv(4) [OF inv] inv by (auto dest!: or_keep_cases simp: and_then_eq_Inr)
next
  case (Set_Finalized root)
  with guard step show ?thesis
    using finalized_step_inv [OF inv] inv
    by (auto simp: fs_set_finalized_def and_then_eq_Inr split: option.splits)
next
  case (Set_Finalized_Checkpoint c)
  with guard step show ?thesis
    using finalized_step_inv [OF inv] by (auto simp: fs_set_finalized_checkpoint_def)
next
  case (Prune_Before f k)
  with guard step show ?thesis using prune_step_inv [OF inv] by (auto simp: and_then_eq_Inr)
next
  case Restart
  then show ?thesis using restart_step [OF inv guard [unfolded Restart], of Q sha256] step by (metis sum.inject(2))
qed (use inv step in \<open>auto simp: fs_set_head_def fs_set_justified_def store_inv_def fs_inv_def
  index_durable_def\<close>)

interpretation store_events: event_invariant "store_step R L Q sha256" "store_guard R L"
  "store_inv R view content" "\<lambda>_ _. True"
  by unfold_locales (auto intro: store_step_inv)

end
