(* ===== verification/SampleDb.thy ===== *)
theory SampleDb
  imports DbEffects
begin

text \<open>
  A database that satisfies the laws the wrapper relies on: tables are association lists, a
  transaction is a copy of the database and every operation succeeds. It shows that the
  hypotheses of the storage theorems can hold.
\<close>

record sample_db =
  sd_slots :: "string \<Rightarrow> (u64 \<times> u8 list) list"
  sd_meta :: "string \<Rightarrow> (string \<times> u8 list) list"
  sd_blobs :: "string \<Rightarrow> (u8 list \<times> u8 list) list"

definition sample_rows :: "('k \<times> u8 list) list \<Rightarrow> ('k \<times> u8 list) list" where
  "sample_rows l = map (\<lambda>k. (k, the (map_of l k))) (remdups (map fst l))"

definition sample_table ::
    "('t \<Rightarrow> string \<Rightarrow> ('k \<times> u8 list) list) \<Rightarrow>
     (((string \<Rightarrow> ('k \<times> u8 list) list) \<Rightarrow> string \<Rightarrow> ('k \<times> u8 list) list) \<Rightarrow> 't \<Rightarrow> 't) \<Rightarrow> ('t, 'k) table_ops" where
  "sample_table sel upd = \<lparr>
     tb_open = (\<lambda>tx n. Inr tx),
     tb_get = (\<lambda>tx n k. Inr (map_of (sel tx n) k)),
     tb_iter = (\<lambda>tx n. Inr (map Inr (sample_rows (sel tx n)))),
     tb_insert = (\<lambda>tx n k v. Inr (upd (\<lambda>c. c(n := (k, v) # c n)) tx)),
     tb_remove = (\<lambda>tx n k. Inr (upd (\<lambda>c. c(n := AList.delete k (c n))) tx)),
     tb_pop_first = (\<lambda>tx n. case sel tx n of
        [] \<Rightarrow> Inr (None, tx)
      | (k, v) # _ \<Rightarrow> Inr (Some (k, v), upd (\<lambda>c. c(n := AList.delete k (c n))) tx))\<rparr>"

definition sample_redb :: "(sample_db, sample_db) redb" where
  "sample_redb = \<lparr>rd_begin_read = Inr, rd_begin_write = Inr, rd_commit = Inr,
     rd_slots = sample_table sd_slots sd_slots_update, rd_meta = sample_table sd_meta sd_meta_update,
     rd_blobs = sample_table sd_blobs sd_blobs_update\<rparr>"

definition sample_content :: "sample_db \<Rightarrow> contents" where
  "sample_content db = \<lparr>ct_slots = (\<lambda>n. map_of (sd_slots db n)), ct_meta = (\<lambda>n. map_of (sd_meta db n)),
     ct_blobs = (\<lambda>n. map_of (sd_blobs db n))\<rparr>"

definition empty_db :: sample_db where
  "empty_db = \<lparr>sd_slots = (\<lambda>_. []), sd_meta = (\<lambda>_. []), sd_blobs = (\<lambda>_. [])\<rparr>"

lemma map_of_sample_rows: "map_of (sample_rows l) = map_of l"
proof
  fix k show "map_of (sample_rows l) k = map_of l k"
  proof (cases "map_of l k")
    case None
    then have "k \<notin> set (remdups (map fst l))" by (simp add: map_of_eq_None_iff)
    with None show ?thesis by (simp add: sample_rows_def map_of_map_restrict)
  next
    case (Some v)
    then have "k \<in> set (remdups (map fst l))" by (force dest: map_of_SomeD)
    with Some show ?thesis by (simp add: sample_rows_def map_of_map_restrict)
  qed
qed

lemma distinct_sample_rows: "distinct (map fst (sample_rows l))"
  by (simp add: sample_rows_def comp_def)

lemma sample_table_laws:
  assumes sel: "\<And>tx n. csel (view tx) n = map_of (sel tx n)"
    and upd: "\<And>tx f g. (\<And>c n. map_of (f c n) = g (\<lambda>n. map_of (c n)) n) \<Longrightarrow> view (upd f tx) = cupd g (view tx)"
  shows "table_laws (sample_table sel upd) view csel cupd"
  unfolding table_laws_def
  by (intro conjI allI impI)
    (auto simp: sample_table_def sel finite_dom_map_of map_of_sample_rows distinct_sample_rows
      split: list.splits intro!: upd)

lemma sample_redb_laws: "redb_laws sample_redb sample_content sample_content"
  unfolding redb_laws_def sample_redb_def
  by (auto intro!: sample_table_laws simp: sample_content_def fun_eq_iff)

lemma sample_reads_work: "reads_work sample_redb"
  by (auto simp: reads_work_def sample_redb_def sample_table_def)

text \<open>Every write of the wrapper succeeds on it.\<close>

lemma sample_ops [simp]:
  "rd_begin_write sample_redb db = Inr db" "rd_commit sample_redb db = Inr db"
  "tb_open (rd_slots sample_redb) db n = Inr db" "tb_open (rd_blobs sample_redb) db n = Inr db"
  "tb_open (rd_meta sample_redb) db n = Inr db"
  by (simp_all add: sample_redb_def sample_table_def)

lemma sample_writes:
  "\<exists>db'. tb_insert (rd_slots sample_redb) db n k v = Inr db'" "\<exists>db'. tb_insert (rd_blobs sample_redb) db n k2 v = Inr db'"
  "\<exists>db'. tb_insert (rd_meta sample_redb) db n k3 v = Inr db'" "\<exists>db'. tb_remove (rd_meta sample_redb) db n k3 = Inr db'"
  by (simp_all add: sample_redb_def sample_table_def)

lemma sample_insert_slot_rows: "\<exists>db'. insert_slot_rows (rd_slots sample_redb) db n rows = Inr db'"
proof (induction rows arbitrary: db)
  case (Cons row rows)
  then show ?case by (cases row) (auto intro: and_then_total sample_writes)
qed simp

lemma sample_insert_root_rows: "\<exists>db'. insert_root_rows (rd_blobs sample_redb) db n rows = Inr db'"
proof (induction rows arbitrary: db)
  case (Cons row rows)
  then show ?case by (cases row) (auto intro: and_then_total sample_writes)
qed simp

lemma sample_persist_meta: "\<exists>db'. persist_meta sample_redb db m = Inr db'"
  by (auto simp: persist_meta_def upsert_or_remove_meta_def upsert_or_remove_meta_u64_def
      intro!: and_then_total sample_writes split: option.splits)

lemma sample_clear_loop:
  assumes "\<And>f tx. sel (upd f tx) = f (sel tx)"
  shows "\<exists>tx'. clear_loop (sample_table sel upd) tx n = Some (Inr tx')"
proof (induction "length (sel tx n)" arbitrary: tx rule: less_induct)
  case less
  show ?case
  proof (cases "sel tx n")
    case Nil
    then show ?thesis by (subst clear_loop.simps) (simp add: sample_table_def)
  next
    case (Cons kv rest)
    obtain k v where kv: "kv = (k, v)" by (cases kv)
    let ?tx = "upd (\<lambda>c. c(n := AList.delete k (c n))) tx"
    have "length (sel ?tx n) < length (sel tx n)"
      using length_delete_le [of k rest] by (simp add: assms Cons kv)
    from less [OF this] show ?thesis
      using Cons kv by (subst clear_loop.simps) (simp add: sample_table_def)
  qed
qed

lemma sample_clear_table:
  "\<exists>db'. clear_table (rd_slots sample_redb) db n = Inr db'" "\<exists>db'. clear_table (rd_blobs sample_redb) db n = Inr db'"
  using sample_clear_loop [of sd_slots sd_slots_update db n] sample_clear_loop [of sd_blobs sd_blobs_update db n]
  by (auto simp: clear_table_def sample_redb_def)

lemma sample_bundle_ok:
  "\<exists>db'. persist_signed_block_bundle sample_redb db root bb gb sroot sb su bu m = Inr db'"
  unfolding persist_signed_block_bundle_def
  by (auto intro!: and_then_total sample_writes sample_insert_slot_rows sample_persist_meta)

lemma sample_snapshot_ok: "\<exists>db'. persist_snapshot sample_redb db si bi ri rw m = Inr db'"
  unfolding persist_snapshot_def
  by (auto intro!: and_then_total sample_writes sample_insert_slot_rows sample_insert_root_rows
      sample_persist_meta sample_clear_table)

end
