(* ===== verification/FileStoreProps.thy ===== *)
theory FileStoreProps
  imports FileStoreInv SampleDb
begin

text \<open>
  The properties of the disk-backed store: what survives a restart, that an imported block
  is read back, what pruning may remove, and two reads and writes that do not do what they
  should.
\<close>

section \<open>Reading stored blobs\<close>

lemma read_blob_eq:
  assumes "redb_laws R view content" "reads_work R"
  shows "read_blob R db n root f = (case ct_blobs (content db) n (root_bytes root) of
    None \<Rightarrow> Inr None | Some v \<Rightarrow> and_then (ok_value (f v)) (\<lambda>r. Inr (Option.bind r id)))"
  by (simp add: read_blob_def with_blob_eq [OF assms] ok_value_def split: option.splits)

lemma load_block_stored:
  assumes "redb_laws R view content" "reads_work R"
    and "ct_blobs (content (fs_db fs)) BLOCK_BLOB_TABLE (root_bytes root) = Some (encode_blob sha256 BLOB_KIND_BLOCK bs)"
    and "length (sha256 bs) = 32" "length bs < 2 ^ 32" "block_encode L b = Inr bs" "block_body_valid L (b_body b)"
  shows "load_block_by_root R L fs root = Inr (Some b)"
  using assms(3-5) block_codec.dec_of_enc [OF assms(7, 6)]
  by (simp add: load_block_by_root_def read_blob_eq [OF assms(1, 2)] decode_encode_blob encode_blob_parts
      decode_block_safe_def ok_value_def)

lemma load_state_stored:
  assumes "redb_laws R view content" "reads_work R"
    and "ct_blobs (content (fs_db fs)) STATE_BLOB_TABLE (root_bytes root) = Some (encode_blob sha256 BLOB_KIND_STATE bs)"
    and "length (sha256 bs) = 32" "length bs < 2 ^ 32" "state_encode L s = Inr bs" "state_valid L s"
  shows "load_state_by_block_root R L fs root = Inr (Some s)"
  using assms(3-5) state_codec.dec_of_enc [OF assms(7, 6)]
  by (simp add: load_state_by_block_root_def read_blob_eq [OF assms(1, 2)] decode_encode_blob encode_blob_parts
      decode_state_safe_def ok_value_def)

lemma load_signed_block_stored:
  assumes "redb_laws R view content" "reads_work R"
    and "ct_blobs (content (fs_db fs)) SIGNED_BLOCK_BLOB_TABLE (root_bytes root) =
      Some (encode_blob sha256 BLOB_KIND_SIGNED_BLOCK bs)"
    and "length (sha256 bs) = 32" "length bs < 2 ^ 32"
  shows "load_signed_block_by_root R L fs root =
    and_then (ok_value (signed_block_decode L bs)) Inr"
  using assms(3-5)
  by (auto simp: load_signed_block_by_root_def read_blob_eq [OF assms(1, 2)] decode_encode_blob encode_blob_parts
      decode_signed_block_safe_def ok_value_def split: sum.splits)

text \<open>The blobs that an import leaves in the database.\<close>

lemma bundle_blobs:
  assumes laws: "redb_laws R view content"
    and ok: "persist_signed_block_bundle_inner R L sha256 fs root sblock s mj mf uh = Inr fs'"
  obtains bs gs ss where "block_encode L (bwa_block (sb_message sblock)) = Inr bs"
    "signed_block_encode L sblock = Inr gs" "state_encode L s = Inr ss"
    "ct_blobs (content (fs_db fs')) BLOCK_BLOB_TABLE (root_bytes root) = Some (encode_blob sha256 BLOB_KIND_BLOCK bs)"
    "ct_blobs (content (fs_db fs')) SIGNED_BLOCK_BLOB_TABLE (root_bytes root) =
       Some (encode_blob sha256 BLOB_KIND_SIGNED_BLOCK gs)"
    "ct_blobs (content (fs_db fs')) STATE_BLOB_TABLE (root_bytes root) = Some (encode_blob sha256 BLOB_KIND_STATE ss)"
    "hm_get (fs_state_root_to_block_root fs') (b_state_root (bwa_block (sb_message sblock))) = Some root"
  by (rule bundle_inner_cases [OF refl refl ok], rule that) (simp_all add: persist_bundle_content [OF laws])

lemma signed_block_decode_panics:
  assumes valid: "block_with_attestation_valid L (sb_message sb)"
    and i: "att_bits (bwa_proposer_attestation (sb_message sb)) = proposer_bits i" "140 \<le> i" "i < 224"
    and enc: "signed_block_encode L sb = Inr gs" and len: "length gs < 2 ^ 32"
  shows "signed_block_decode L gs = Inl Panic"
proof -
  obtain msg where msg: "block_with_attestation_encode L (sb_message sb) = Inr msg"
    "block_with_attestation_decode L msg = Inl Panic"
    by (rule trusting_decode_panics [OF valid i])
  then obtain sg where gs: "gs = le32 8 @ le32 (of_nat (8 + length msg)) @ msg @ sg"
    using enc by (auto simp: signed_block_encode_eq and_then_eq_Inr)
  have "8 + length msg < 2 ^ 32" using len by (simp add: gs)
  then have "unat (of_nat (8 + length msg) :: u32) = 8 + length msg" by (rule unat_of_nat_u32)
  then show ?thesis
    using msg(2) unfolding gs signed_block_decode_def
    by (simp add: offset_at_def slice_def del: of_nat_add)
qed

text \<open>
  \<^verbatim>\<open>promote_finalized\<close> moves the pending rows in memory without marking the indexes dirty, so on
  a clean store the flush that follows writes nothing: the promoted rows are lost by a
  restart unless something else rewrites the tables.
\<close>

lemma promote_finalized_writes_nothing:
  assumes "fs_inv fs" "\<not> fs_index_dirty fs" "\<not> fs_meta_dirty fs"
  obtains fs' where "promote_finalized R fs slot = Inr (Inr (), fs')" "fs_db fs' = fs_db fs"
    "\<not> fs_index_dirty fs'" "\<not> fs_meta_dirty fs'"
    "fs_block_by_slot fs' = insert_promoted (entries_leq (fs_pending fs) slot) (fs_block_by_slot fs)"
proof (rule promote_inv [OF assms(1), of slot], goal_cases)
  case (1 fs' pending)
  then show ?thesis
    using assms(2, 3) by (intro that [of fs']) (simp_all add: promote_finalized_def flush_canonical_def
      flush_canonical_with_state_root_index_def)
qed

text \<open>The roots that a list of rows, the pinned roots and the pending window refer to.\<close>

definition live_roots :: "'db file_store \<Rightarrow> (u64, bytes32) hmap \<Rightarrow> bytes32 set" where
  "live_roots fs rows = snd ` set rows \<union> set (somes (pinned_roots fs)) \<union> ran (pending_map (fs_pending fs))"

lemma pending_roots_ran:
  assumes "pending_inv c"
  shows "set (map pe_block_root (somes (pc_entries c))) = ran (pending_map c)"
proof (intro set_eqI iffI)
  fix r assume "r \<in> ran (pending_map c)"
  then obtain s where "pending_map c s = Some r" by (auto simp: ran_def)
  then have "Some \<lparr>pe_slot = s, pe_block_root = r\<rparr> \<in> set (pc_entries c)"
    using pending_entry_iff [OF assms, of "\<lparr>pe_slot = s, pe_block_root = r\<rparr>"] by simp
  then show "r \<in> set (map pe_block_root (somes (pc_entries c)))" by (force simp: set_somes)
qed (auto simp: set_somes pending_entry_iff [OF assms] ran_def)

section \<open>A concrete store\<close>

definition sample_sha :: "u8 list \<Rightarrow> u8 list" where "sample_sha _ = replicate 32 0"

definition fresh_store :: "'db \<Rightarrow> 'db file_store" where
  "fresh_store db = \<lparr>fs_db = db, fs_state_by_slot = [], fs_state_root_to_block_root = [], fs_block_by_slot = [],
     fs_pending = pending_new PENDING_WINDOW_CAP, fs_head = None, fs_finalized = None,
     fs_finalized_slot = None, fs_justified = None,
     fs_recovery = \<lparr>rr_loaded_states = 0, rr_loaded_blocks = 0, rr_loaded_signed_blocks = 0, rr_skipped_corrupt = 0\<rparr>,
     fs_index_dirty = False, fs_meta_dirty = False\<rparr>"

definition no_rows :: contents where
  "no_rows = \<lparr>ct_slots = \<lambda>_. Map.empty, ct_meta = \<lambda>_. Map.empty, ct_blobs = \<lambda>_. Map.empty\<rparr>"

abbreviation plain_state :: state where
  "plain_state \<equiv> sample_state\<lparr>st_validators := []\<rparr>"

lemma fresh_store_inv: "fs_inv (fresh_store db)"
  by (simp add: fs_inv_def fresh_store_def pending_inv_new PENDING_WINDOW_CAP_def)

lemma fresh_store_durable:
  "content db = no_rows \<Longrightarrow> index_durable content (fresh_store db) \<and> meta_durable content (fresh_store db)"
  by (simp add: index_durable_def meta_durable_def index_rows_def slot_rows_def root_rows_def fun_eq_iff
      fresh_store_def no_rows_def fs_meta_def meta_rows_def)

lemma open_empty_store:
  assumes "redb_laws R view content" "reads_work R" "content db = no_rows"
    "file_store_open R L (Inr ()) (Inr db) = Inr fs"
  shows "store_inv R view content fs"
  using reopen_spec [OF assms(1, 2) fresh_store_inv [of db], of L] fresh_store_durable [of content db] assms(3, 4)
  by (auto simp: fresh_store_def)

lemma sample_import:
  assumes "fs_inv fs" "block_encode sample_lib (bwa_block (sb_message b)) = Inr bs" "signed_block_encode sample_lib b = Inr gs"
    "state_encode sample_lib s = Inr ss"
  shows "\<exists>fs'. persist_signed_block_bundle_inner sample_redb sample_lib sha256 fs root b s mj mf uh = Inr fs'"
proof -
  have ins: "\<exists>prev c'. pending_insert (fs_pending fs) slot root = Inr (prev, c') \<and> pending_inv c'" for slot
    by (rule pending_insert_spec [of "fs_pending fs" slot root]) (use assms(1) in \<open>auto simp: fs_inv_def\<close>)
  have drain: "\<exists>d c'. drain_leq_with c u = Inr (d, c')" if "pending_inv c" for c u
    by (rule drain_leq_with_spec [OF that, of u]) blast
  obtain prev c where c: "pending_insert (fs_pending fs) (b_slot (bwa_block (sb_message b))) root = Inr (prev, c)"
    "pending_inv c" using ins by blast
  have inv: "pending_inv (fs_pending fs)" using assms(1) by (simp add: fs_inv_def)
  show ?thesis
    unfolding persist_signed_block_bundle_inner_def Let_def assms(2-4) and_then_simps promote_finalized_slot_in_memory_def
    apply (rule and_then_total, rule sample_bundle_ok)
    using drain [OF inv] drain [OF c(2)] c(1)
    by (auto simp: and_then_eq_Inr split: if_splits)
qed

lemma sample_flush: "\<exists>fs'. flush_canonical sample_redb fs = Inr fs'"
  using sample_snapshot_ok by (auto simp: flush_canonical_def flush_canonical_with_state_root_index_def
      and_then_eq_Inr)

lemma plain_state_encode: "\<exists>ss. state_encode sample_lib plain_state = Inr ss \<and> length ss < 2 ^ 32"
proof -
  have "state_encode sample_lib plain_state = Inr (state_fixed_bytes plain_state @ state_offset_bytes
      [228, 228 + length ([] :: u8 list), 228 + length ([] :: u8 list) + length (le64 0),
       228 + length ([] :: u8 list) + length (le64 0) + length ([] :: u8 list),
       228 + length ([] :: u8 list) + length (le64 0) + length ([] :: u8 list) + length ([] :: u8 list)] @
      [] @ le64 0 @ [] @ [] @ le64 0)"
    by (rule state_encode_eq) (simp_all add: sample_defs sample_state_def bitlist_default_def)
  then show ?thesis by (rule_tac exI, intro conjI, assumption) simp
qed

lemma sample_block_encode:
  "\<exists>bs. block_encode sample_lib (bwa_block (sb_message (sample_signed_block i))) = Inr bs \<and> length bs < 2 ^ 32"
  "i < VALIDATOR_REGISTRY_LIMIT \<Longrightarrow>
   \<exists>gs. signed_block_encode sample_lib (sample_signed_block i) = Inr gs \<and> length gs < 2 ^ 32"
  by (simp_all add: codec_simps sample_signed_block_def sample_defs single_set_bit_proposer_bits)

lemma sample_import_ok:
  assumes "fs_inv fs" "i < VALIDATOR_REGISTRY_LIMIT"
  shows "\<exists>fs'. persist_signed_block_bundle_inner sample_redb sample_lib sample_sha fs root
    (sample_signed_block i) plain_state mj mf uh = Inr fs'"
  using sample_import [OF assms(1)] plain_state_encode sample_block_encode(1) [of i] sample_block_encode(2) [OF assms(2)]
  by blast

section \<open>Properties\<close>

text \<open>
  C5 (an imported block is read back). All four imports of signed blocks end in
  \<^verbatim>\<open>persist_signed_block_bundle_inner\<close>. When it succeeds, reading the block by its root gives
  the block, and looking up the state by the state root that the block names gives the
  state that was stored: the SSZ encoding, the blob envelope, the database tables and the
  index of state roots fit together. The hypotheses bound the encodings to what the
  32-bit length field of the envelope can hold.
\<close>

theorem imported_block_is_read_back:
  assumes "redb_laws R view content" "reads_work R" "\<And>p. length (sha256 p) = 32"
    and "persist_signed_block_bundle_inner R L sha256 fs root sblock s mj mf uh = Inr fs'"
    and "block_body_valid L (b_body (bwa_block (sb_message sblock)))" "state_valid L s"
    and "\<And>bs. block_encode L (bwa_block (sb_message sblock)) = Inr bs \<Longrightarrow> length bs < 2 ^ 32"
    and "\<And>ss. state_encode L s = Inr ss \<Longrightarrow> length ss < 2 ^ 32"
  shows "fs_get_block R L fs' root = Inr (Some (bwa_block (sb_message sblock))) \<and>
    fs_get_state R L fs' (b_state_root (bwa_block (sb_message sblock))) = Inr (Some s)"
proof (rule bundle_blobs [OF assms(1, 4)], goal_cases)
  case (1 bs gs ss)
  have "load_block_by_root R L fs' root = Inr (Some (bwa_block (sb_message sblock)))"
    by (rule load_block_stored [OF assms(1, 2) 1(4) assms(3) assms(7) [OF 1(1)] 1(1) assms(5)])
  moreover have "load_state_by_block_root R L fs' root = Inr (Some s)"
    by (rule load_state_stored [OF assms(1, 2) 1(6) assms(3) assms(8) [OF 1(3)] 1(3) assms(6)])
  ultimately show ?case
    using 1(7) by (simp add: fs_get_block_def fs_get_state_def load_state_by_identifier_def)
qed

theorem imported_block_is_read_back_witness:
  "\<exists>fs'. persist_signed_block_bundle_inner sample_redb sample_lib sample_sha (fresh_store empty_db) 77
      (sample_signed_block 3) plain_state \<lparr>cp_root = 1, cp_slot = 2\<rparr> \<lparr>cp_root = 0, cp_slot = 0\<rparr> True = Inr fs' \<and>
    fs_get_block sample_redb sample_lib fs' 77 = Inr (Some (bwa_block (sb_message (sample_signed_block 3)))) \<and>
    fs_get_state sample_redb sample_lib fs' 9 = Inr (Some plain_state)"
proof -
  have i: "3 < VALIDATOR_REGISTRY_LIMIT" by (simp add: VALIDATOR_REGISTRY_LIMIT_def)
  obtain fs' where fs': "persist_signed_block_bundle_inner sample_redb sample_lib sample_sha (fresh_store empty_db) 77
      (sample_signed_block 3) plain_state \<lparr>cp_root = 1, cp_slot = 2\<rparr> \<lparr>cp_root = 0, cp_slot = 0\<rparr> True = Inr fs'"
    using sample_import_ok [OF fresh_store_inv i] by blast
  have "fs_get_block sample_redb sample_lib fs' 77 = Inr (Some (bwa_block (sb_message (sample_signed_block 3)))) \<and>
    fs_get_state sample_redb sample_lib fs' (b_state_root (bwa_block (sb_message (sample_signed_block 3)))) =
      Inr (Some plain_state)"
  proof (rule imported_block_is_read_back [OF sample_redb_laws sample_reads_work _ fs'])
    show "block_body_valid sample_lib (b_body (bwa_block (sb_message (sample_signed_block 3))))"
      using sample_bwa_valid [OF i] by (simp add: block_with_attestation_valid_def)
  qed (use sample_state_valid plain_state_encode sample_block_encode(1) [of 3] in \<open>auto simp: sample_sha_def\<close>)
  then show ?thesis using fs' by (auto simp: sample_signed_block_def)
qed

text \<open>
  C7 (a stored block that cannot be served). An import writes the signed block in the wire
  format, but reading it back uses the trusting decoder, which guesses the layout from the
  proposer's index. For every proposer index from 140 to 223 the read panics, so a peer
  that asks for such a block by its root crashes the request handler.
\<close>

theorem stored_signed_block_read_panics:
  assumes "redb_laws R view content" "reads_work R" "\<And>p. length (sha256 p) = 32"
    and "persist_signed_block_bundle_inner R L sha256 fs root sblock s mj mf uh = Inr fs'"
    and "block_with_attestation_valid L (sb_message sblock)"
    and "att_bits (bwa_proposer_attestation (sb_message sblock)) = proposer_bits i" "140 \<le> i" "i < 224"
    and "\<And>gs. signed_block_encode L sblock = Inr gs \<Longrightarrow> length gs < 2 ^ 32"
  shows "fs_get_signed_block R L fs' root = Inl Panic"
proof (rule bundle_blobs [OF assms(1, 4)], goal_cases)
  case (1 bs gs ss)
  note len = assms(9) [OF 1(2)]
  have "signed_block_decode L gs = Inl Panic"
    by (rule signed_block_decode_panics [OF assms(5-8) 1(2) len])
  then show ?case
    unfolding fs_get_signed_block_def load_signed_block_stored [OF assms(1, 2) 1(5) assms(3) len]
    by (simp add: ok_value_def)
qed

theorem stored_signed_block_read_panics_witness:
  "\<exists>fs'. persist_signed_block_bundle_inner sample_redb sample_lib sample_sha (fresh_store empty_db) 77
      (sample_signed_block 150) plain_state \<lparr>cp_root = 1, cp_slot = 2\<rparr> \<lparr>cp_root = 0, cp_slot = 0\<rparr> True = Inr fs' \<and>
    fs_get_signed_block sample_redb sample_lib fs' 77 = Inl Panic"
proof -
  have i: "150 < VALIDATOR_REGISTRY_LIMIT" by (simp add: VALIDATOR_REGISTRY_LIMIT_def)
  obtain fs' where fs': "persist_signed_block_bundle_inner sample_redb sample_lib sample_sha (fresh_store empty_db) 77
      (sample_signed_block 150) plain_state \<lparr>cp_root = 1, cp_slot = 2\<rparr> \<lparr>cp_root = 0, cp_slot = 0\<rparr> True = Inr fs'"
    using sample_import_ok [OF fresh_store_inv i] by blast
  have "fs_get_signed_block sample_redb sample_lib fs' 77 = Inl Panic"
    by (rule stored_signed_block_read_panics [OF sample_redb_laws sample_reads_work _ fs' sample_bwa_valid [OF i], of 150])
      (use sample_block_encode(2) [OF i] in \<open>auto simp: sample_sha_def sample_signed_block_def\<close>)
  with fs' show ?thesis by blast
qed

text \<open>
  C4 (a restart restores the store). Take a database without rows, open a store on it and run
  any sequence of block imports, metadata updates, finalizations, prunings and restarts,
  where imported slots stay within one turn of the pending window and the flushes of
  finalization and pruning succeed. Dropping the store and opening it again then gives the
  same slot indexes, the same state-root lookup and the same head, justified and finalized
  checkpoints: the row-by-row writes of the imports and the full rewrites of the flushes
  keep the tables equal to the indexes in memory.
\<close>

theorem restart_restores_store:
  assumes "redb_laws R view content" "reads_work R" "content db0 = no_rows"
    and "file_store_open R L (Inr ()) (Inr db0) = Inr fs0"
    and "reaches (store_step R L Q sha256) (store_guard R L) fs0 fs" "store_guard R L fs Restart"
  shows "\<exists>fs'. store_step R L Q sha256 fs Restart = Inr fs' \<and> same_store fs fs'"
proof -
  have "store_inv R view content fs0" by (rule open_empty_store [OF assms(1-4)])
  then have "store_inv R view content fs" using store_events.reaches_inv [OF assms(5)] by blast
  from restart_step [OF this assms(6), of Q sha256] show ?thesis by blast
qed

theorem restart_restores_store_witness:
  "\<exists>fs0 fs fs'. file_store_open sample_redb sample_lib (Inr ()) (Inr empty_db) = Inr fs0 \<and>
     store_step sample_redb sample_lib sample_pq sample_sha fs0
       (Put_Anchor 77 (sample_signed_block 3) plain_state) = Inr fs \<and>
     store_step sample_redb sample_lib sample_pq sample_sha fs Restart = Inr fs' \<and> same_store fs fs'"
proof -
  have empty: "sample_content empty_db = no_rows" by (simp add: sample_content_def empty_db_def no_rows_def)
  obtain fs0 where fs0: "file_store_open sample_redb sample_lib (Inr ()) (Inr empty_db) = Inr fs0"
    "store_inv sample_redb sample_content sample_content fs0" "fs_pending fs0 = pending_new PENDING_WINDOW_CAP"
    using reopen_spec [OF sample_redb_laws sample_reads_work fresh_store_inv [of empty_db], of sample_lib]
      fresh_store_durable [of sample_content empty_db] empty by (auto simp: fresh_store_def)
  have "fs_inv fs0" using fs0(2) by (simp add: store_inv_def)
  then obtain fs where "put_anchor_signed_block sample_redb sample_lib sample_sha fs0 77 (sample_signed_block 3) plain_state = Inr fs"
    using sample_import_ok [of fs0 3] unfolding put_anchor_signed_block_def persist_signed_block_bundle_from_state_def
    by (fastforce simp: VALIDATOR_REGISTRY_LIMIT_def)
  then have fs: "store_step sample_redb sample_lib sample_pq sample_sha fs0
      (Put_Anchor 77 (sample_signed_block 3) plain_state) = Inr fs"
    by (simp add: or_keep_def ok_value_def)
  have "within_window fs0 slot" for slot
    by (simp add: within_window_def fs0(3) pending_map_new PENDING_WINDOW_CAP_def)
  then have guard: "store_guard sample_redb sample_lib fs0 (Put_Anchor 77 (sample_signed_block 3) plain_state)"
    by simp
  have "reaches (store_step sample_redb sample_lib sample_pq sample_sha) (store_guard sample_redb sample_lib) fs0 fs"
    by (rule reaches.event [OF reaches.start]) (rule guard, rule fs)
  moreover have "store_guard sample_redb sample_lib fs Restart"
    using sample_flush by (simp add: sample_reads_work)
  ultimately show ?thesis
    using restart_restores_store [OF sample_redb_laws sample_reads_work empty fs0(1)] fs0(1) fs by blast
qed

text \<open>
  C6 (pruning). A successful \<^verbatim>\<open>prune\<close> removes exactly the rows below the retention bound whose
  root is not the head, justified or finalized root. Its garbage collection keeps, byte for
  byte, the blobs of every root that a remaining row, the pending window or a pinned root
  refers to, and removes every other blob.
\<close>

theorem prune_keeps_live_blobs:
  assumes "redb_laws R view content" "fs_inv fs" "fs_prune R L fs fin keep = Inr (Inr report, fs')"
  shows "set (fs_state_by_slot fs') = {(slot, r) \<in> set (fs_state_by_slot fs).
      slot \<ge> (if fin < keep then 0 else fin - keep) \<or> is_pinned (pinned_roots fs) r} \<and>
    set (fs_block_by_slot fs') = {(slot, r) \<in> set (fs_block_by_slot fs).
      slot \<ge> (if fin < keep then 0 else fin - keep) \<or> is_pinned (pinned_roots fs) r} \<and>
    ct_blobs (content (fs_db fs')) STATE_BLOB_TABLE =
      ct_blobs (content (fs_db fs)) STATE_BLOB_TABLE |` (root_bytes ` live_roots fs (fs_state_by_slot fs')) \<and>
    ct_blobs (content (fs_db fs')) BLOCK_BLOB_TABLE =
      ct_blobs (content (fs_db fs)) BLOCK_BLOB_TABLE |` (root_bytes ` live_roots fs (fs_block_by_slot fs')) \<and>
    ct_blobs (content (fs_db fs')) SIGNED_BLOCK_BLOB_TABLE =
      ct_blobs (content (fs_db fs)) SIGNED_BLOCK_BLOB_TABLE |` (root_bytes ` live_roots fs (fs_block_by_slot fs'))"
proof (rule prune_cases [OF assms prune_ok_flushed [OF assms(3)] refl refl refl], elim disjE exE conjE, goal_cases)
  case (2 fs1 live db g db')
  have "pending_inv (fs_pending fs)" using assms(2) by (simp add: fs_inv_def)
  then have live: "live_roots fs rows = snd ` set rows \<union> set (somes (pinned_roots fs)) \<union>
      set (map pe_block_root (somes (pc_entries (fs_pending fs))))" for rows
    by (simp only: live_roots_def pending_roots_ran)
  show ?case
    unfolding live unfolding 2(4, 6)
    by (intro conjI) (simp_all add: gc_content [OF assms(1) 2(7)] 2(5) retained_def, auto)
qed simp

lemma somes_replicate [simp]: "somes (replicate n None) = []"
  by (induction n) simp_all

lemma sample_gc_empty: "sd_blobs db n = [] \<Longrightarrow> gc_blob_table (rd_blobs sample_redb) db n keep = Inr (0, db)"
  by (simp add: gc_blob_table_def sample_redb_def sample_table_def sample_rows_def)

lemma sample_prune:
  "\<exists>report fs'. fs_prune sample_redb sample_lib (fresh_store empty_db) 9 4 = Inr (Inr report, fs')"
proof -
  have live: "rebuild_live_state_root_index sample_redb sample_lib (fresh_store empty_db) = Inr []"
    by (simp add: rebuild_live_state_root_index_def live_block_roots_def fresh_store_def pending_roots_def
        pending_new_def pinned_roots_def)
  let ?fs = "(fresh_store empty_db)\<lparr>fs_index_dirty := True\<rparr>"
  have clear: "clear_table (rd_slots sample_redb) empty_db n = Inr empty_db"
    "clear_table (rd_blobs sample_redb) empty_db n = Inr empty_db" for n
    by (simp_all add: clear_table_def clear_loop.simps sample_redb_def sample_table_def empty_db_def)
  have remove: "tb_remove (rd_meta sample_redb) empty_db n k = Inr empty_db" for n k
    by (simp add: sample_redb_def sample_table_def empty_db_def fun_eq_iff)
  have "persist_snapshot sample_redb empty_db [] [] [] True (fs_meta ?fs) = Inr empty_db"
    by (simp add: persist_snapshot_def clear persist_meta_def upsert_or_remove_meta_def
        upsert_or_remove_meta_u64_def remove fs_meta_def fresh_store_def)
  then show ?thesis
    using live by (simp add: fs_prune_def Let_def fresh_store_def flush_canonical_with_state_root_index_def
      extend_referenced_roots_def gc_unreferenced_blobs_def sample_gc_empty empty_db_def fs_meta_def)
qed

theorem prune_keeps_live_blobs_witness:
  "\<exists>report fs'. fs_prune sample_redb sample_lib (fresh_store empty_db) 9 4 = Inr (Inr report, fs') \<and>
     fs_state_by_slot fs' = []"
proof -
  obtain report fs' where ok: "fs_prune sample_redb sample_lib (fresh_store empty_db) 9 4 = Inr (Inr report, fs')"
    using sample_prune by blast
  from prune_keeps_live_blobs [OF sample_redb_laws fresh_store_inv ok] have "set (fs_state_by_slot fs') = {}"
    by (simp add: fresh_store_def)
  with ok show ?thesis by auto
qed

end
