(* ===== verification/TextOps.thy ===== *)
theory TextOps
  imports Prelude "HOL-Library.Sublist"
begin

text \<open>
  The operations of \<^verbatim>\<open>str\<close> that the protocol and topic names go through: splitting at a
  separator, trimming a leading pattern, and the decimal form of \<^verbatim>\<open>u64\<close>. Strings are lists
  of bytes, and every separator the code uses is an ASCII character, so splitting bytes is
  splitting characters.
\<close>

section \<open>Splitting and trimming\<close>

text \<open>\<^verbatim>\<open>s.split(c)\<close>: the pieces between the separators, empty ones included.\<close>

fun split_on :: "'a \<Rightarrow> 'a list \<Rightarrow> 'a list list" where
  "split_on c [] = [[]]"
| "split_on c (x # xs) =
     (if x = c then [] # split_on c xs
      else (case split_on c xs of [] \<Rightarrow> [[x]] | p # ps \<Rightarrow> (x # p) # ps))"

text \<open>\<^verbatim>\<open>s.trim_start_matches(c)\<close> for a character, and for a non-empty string pattern,
  which is removed as often as it occurs in front.\<close>

definition trim_start_char :: "'a \<Rightarrow> 'a list \<Rightarrow> 'a list" where
  "trim_start_char c s = dropWhile (\<lambda>x. x = c) s"

function trim_start_pattern :: "'a list \<Rightarrow> 'a list \<Rightarrow> 'a list" where
  "trim_start_pattern p s =
     (if p \<noteq> [] \<and> prefix p s then trim_start_pattern p (drop (length p) s) else s)"
  by auto
termination
  by (relation "measure (length \<circ> snd)") (auto simp: prefix_def)

declare trim_start_pattern.simps [simp del]

lemma split_on_not_Nil [simp]: "split_on c xs \<noteq> []"
  by (cases xs) (auto split: list.splits)

lemma split_on_no_sep: "c \<notin> set xs \<Longrightarrow> split_on c xs = [xs]"
  by (induction xs) auto

lemma split_on_append_sep: "c \<notin> set xs \<Longrightarrow> split_on c (xs @ c # ys) = xs # split_on c ys"
  by (induction xs) auto

lemma split_on_pieces: "p \<in> set (split_on c xs) \<Longrightarrow> c \<notin> set p"
  by (induction xs arbitrary: p) (auto split: if_splits list.splits)

lemma trim_start_char_Cons [simp]: "trim_start_char c (c # s) = trim_start_char c s"
  by (simp add: trim_start_char_def)

lemma trim_start_char_other [simp]: "x \<noteq> c \<Longrightarrow> trim_start_char c (x # s) = x # s"
  by (simp add: trim_start_char_def)

lemma trim_start_pattern_prefix: "p \<noteq> [] \<Longrightarrow> trim_start_pattern p (p @ s) = trim_start_pattern p s"
  by (subst trim_start_pattern.simps) simp

lemma trim_start_pattern_stop: "\<not> prefix p s \<Longrightarrow> trim_start_pattern p s = s"
  by (subst trim_start_pattern.simps) simp

section \<open>Decimal numbers\<close>

definition digit_char :: "nat \<Rightarrow> char" where
  "digit_char d = char_of (48 + d)"

fun show_nat :: "nat \<Rightarrow> string" where
  "show_nat n = (if n < 10 then [digit_char n] else show_nat (n div 10) @ [digit_char (n mod 10)])"

declare show_nat.simps [simp del]

definition show_u64 :: "u64 \<Rightarrow> string" where
  "show_u64 w = show_nat (unat w)"

definition digit_value :: "char \<Rightarrow> nat option" where
  "digit_value c = (let n = of_char c :: nat in if 48 \<le> n \<and> n \<le> 57 then Some (n - 48) else None)"

text \<open>\<^verbatim>\<open>from_str_radix\<close>: the running value is multiplied and added with overflow checks, and
  a character that is not a digit is an error.\<close>

fun parse_digits :: "nat \<Rightarrow> string \<Rightarrow> nat option" where
  "parse_digits acc [] = Some acc"
| "parse_digits acc (c # cs) =
     (case digit_value c of
        None \<Rightarrow> None
      | Some d \<Rightarrow> if 10 * acc + d \<ge> 2 ^ 64 then None else parse_digits (10 * acc + d) cs)"

text \<open>\<^verbatim>\<open>str::parse::<u64>\<close>: an optional plus sign and at least one digit.\<close>

definition parse_u64 :: "string \<Rightarrow> u64 option" where
  "parse_u64 s =
     (let digits = (case s of c # cs \<Rightarrow> if c = CHR ''+'' then cs else s | [] \<Rightarrow> []) in
      if digits = [] then None else map_option of_nat (parse_digits 0 digits))"

lemma digit_value_char [simp]: "d < 10 \<Longrightarrow> digit_value (digit_char d) = Some d"
  by (simp add: digit_value_def digit_char_def)

lemma digit_char_range: "d < 10 \<Longrightarrow> 48 \<le> (of_char (digit_char d) :: nat) \<and> (of_char (digit_char d) :: nat) \<le> 57"
  by (simp add: digit_char_def)

lemma show_nat_not_Nil [simp]: "show_nat n \<noteq> []"
  by (subst show_nat.simps) simp

lemma show_nat_digits: "c \<in> set (show_nat n) \<Longrightarrow> \<exists>d < 10. c = digit_char d"
  by (induction n rule: show_nat.induct) (subst (asm) show_nat.simps, force split: if_splits)

lemma parse_digits_append:
  "parse_digits acc (xs @ [c]) =
     Option.bind (parse_digits acc xs) (\<lambda>n. parse_digits n [c])"
  by (induction xs arbitrary: acc) (auto split: option.splits)

lemma parse_show_nat: "n < 2 ^ 64 \<Longrightarrow> parse_digits 0 (show_nat n) = Some n"
proof (induction n rule: show_nat.induct)
  case (1 n)
  show ?case
  proof (cases "n < 10")
    case True
    then show ?thesis using 1 by (subst show_nat.simps) simp
  next
    case False
    then have "parse_digits 0 (show_nat (n div 10)) = Some (n div 10)" using 1 by auto
    then show ?thesis using False 1 by (subst show_nat.simps) (simp add: parse_digits_append)
  qed
qed

lemma show_nat_no_char: "of_char c < (48::nat) \<or> of_char c > (57::nat) \<Longrightarrow> c \<notin> set (show_nat n)"
  using show_nat_digits digit_char_range by fastforce

lemma parse_show_u64: "parse_u64 (show_u64 w) = Some w"
proof -
  have "CHR ''+'' \<notin> set (show_nat (unat w))" by (rule show_nat_no_char) simp
  then have "(case show_nat (unat w) of c # cs \<Rightarrow> if c = CHR ''+'' then cs else show_nat (unat w)
      | [] \<Rightarrow> []) = show_nat (unat w)"
    by (auto split: list.split)
  then show ?thesis
    using unat_bound [of w] by (simp add: parse_u64_def show_u64_def parse_show_nat)
qed

end
