(* ===== verification/ReqResp.thy ===== *)
theory ReqResp
  imports VarCodec TextOps
begin

text \<open>
  The request/response messages (\<^verbatim>\<open>src/containers/req_resp.rs\<close>), the gossip wrappers
  (\<^verbatim>\<open>src/containers/gossip.rs\<close>) and the protocol dispatch on top of them
  (\<^verbatim>\<open>src/networking/reqresp_messages.rs\<close>). A request travels as the SSZ bytes of its message
  over a protocol whose name selects the decoder.
\<close>

section \<open>Messages\<close>

definition MAX_BLOCKS_PER_ROOT_REQUEST :: nat where "MAX_BLOCKS_PER_ROOT_REQUEST = 1024"

record status =
  status_finalized_root :: bytes32
  status_finalized_slot :: u64
  status_head_root :: bytes32
  status_head_slot :: u64

record ping = ping_seq_number :: u64
record pong = pong_seq_number :: u64

record blocks_by_range_request =
  range_start_slot :: u64
  range_count :: u64
  range_step :: u64

record blocks_by_range_response = range_blocks :: "signed_block list"
record blocks_by_root_request = req_roots :: "bytes32 list"
record blocks_by_root_response = root_blocks :: "signed_block list"

subsection \<open>Status\<close>

definition status_encode :: "status \<Rightarrow> u8 list result" where
  "status_encode s =
     encode_with (32 + 8 + 32 + 8)
       [(0, be_bytes 32 (status_finalized_root s)), (32, le64 (status_finalized_slot s)),
        (40, be_bytes 32 (status_head_root s)), (72, le64 (status_head_slot s))]"

definition status_decode :: "u8 list \<Rightarrow> status result" where
  "status_decode bytes =
     and_then (slice 0 32 bytes) (\<lambda>b0.
     and_then (slice 32 40 bytes) (\<lambda>b1. and_then (uint64_decode b1) (\<lambda>fslot.
     and_then (slice 40 72 bytes) (\<lambda>b2.
     and_then (slice 72 80 bytes) (\<lambda>b3. and_then (uint64_decode b3) (\<lambda>hslot.
     Inr \<lparr>status_finalized_root = from_be_bytes b0, status_finalized_slot = fslot,
          status_head_root = from_be_bytes b2, status_head_slot = hslot\<rparr>))))))"

definition status_decode_checked :: "u8 list \<Rightarrow> status result" where
  "status_decode_checked = checked_len ''Status expects {} bytes, got {}'' 80 status_decode"

definition status_root :: "ssz_lib \<Rightarrow> status \<Rightarrow> bytes32" where
  "status_root L s =
     merkleize_tree_root_4 (lib_hash L)
       [status_finalized_root s, uint64_root (status_finalized_slot s), status_head_root s, uint64_root (status_head_slot s)]"

subsection \<open>Ping and Pong\<close>

definition ping_encode :: "ping \<Rightarrow> u8 list result" where
  "ping_encode p = encode_with 8 [(0, le64 (ping_seq_number p))]"

definition ping_decode :: "u8 list \<Rightarrow> ping result" where
  "ping_decode bytes = and_then (uint64_decode bytes) (\<lambda>n. Inr \<lparr>ping_seq_number = n\<rparr>)"

definition ping_decode_checked :: "u8 list \<Rightarrow> ping result" where
  "ping_decode_checked = checked_len ''Ping expects {} bytes, got {}'' 8 ping_decode"

definition ping_root :: "ping \<Rightarrow> bytes32" where
  "ping_root p = uint64_root (ping_seq_number p)"

definition pong_encode :: "pong \<Rightarrow> u8 list result" where
  "pong_encode p = encode_with 8 [(0, le64 (pong_seq_number p))]"

definition pong_decode :: "u8 list \<Rightarrow> pong result" where
  "pong_decode bytes = and_then (uint64_decode bytes) (\<lambda>n. Inr \<lparr>pong_seq_number = n\<rparr>)"

definition pong_decode_checked :: "u8 list \<Rightarrow> pong result" where
  "pong_decode_checked = checked_len ''Pong expects {} bytes, got {}'' 8 pong_decode"

definition pong_root :: "pong \<Rightarrow> bytes32" where
  "pong_root p = uint64_root (pong_seq_number p)"

subsection \<open>BlocksByRange\<close>

definition blocks_by_range_request_encode :: "blocks_by_range_request \<Rightarrow> u8 list result" where
  "blocks_by_range_request_encode r =
     encode_with 24 [(0, le64 (range_start_slot r)), (8, le64 (range_count r)), (16, le64 (range_step r))]"

definition blocks_by_range_request_decode :: "u8 list \<Rightarrow> blocks_by_range_request result" where
  "blocks_by_range_request_decode bytes =
     and_then (slice 0 8 bytes) (\<lambda>b0. and_then (uint64_decode b0) (\<lambda>first.
     and_then (slice 8 16 bytes) (\<lambda>b1. and_then (uint64_decode b1) (\<lambda>cnt.
     and_then (slice 16 24 bytes) (\<lambda>b2. and_then (uint64_decode b2) (\<lambda>stp.
     Inr \<lparr>range_start_slot = first, range_count = cnt, range_step = stp\<rparr>))))))"

definition blocks_by_range_request_decode_checked ::
    "u8 list \<Rightarrow> blocks_by_range_request result" where
  "blocks_by_range_request_decode_checked =
     checked_len ''BlocksByRangeRequest expects {} bytes, got {}'' 24 blocks_by_range_request_decode"

definition blocks_by_range_request_root :: "ssz_lib \<Rightarrow> blocks_by_range_request \<Rightarrow> bytes32" where
  "blocks_by_range_request_root L r =
     merkleize_tree_root_3 (lib_hash L)
       [uint64_root (range_start_slot r), uint64_root (range_count r), uint64_root (range_step r)]"

definition blocks_by_range_response_encode ::
    "ssz_lib \<Rightarrow> blocks_by_range_response \<Rightarrow> u8 list result" where
  "blocks_by_range_response_encode L r =
     and_then (sq_encode (lib_blocks L) (range_blocks r)) (\<lambda>body.
     encode_with (4 + length body) [(0, le32 4), (4, body)])"

definition blocks_by_range_response_decode ::
    "ssz_lib \<Rightarrow> u8 list \<Rightarrow> blocks_by_range_response result" where
  "blocks_by_range_response_decode L bytes =
     and_then (offset_at 0 bytes) (\<lambda>offset.
     and_then (slice_from offset bytes) (\<lambda>b.
     and_then (sq_decode (lib_blocks L) MAX_BLOCKS_PER_REQUEST b) (\<lambda>blocks.
     Inr \<lparr>range_blocks = blocks\<rparr>)))"

definition blocks_by_range_response_decode_checked ::
    "ssz_lib \<Rightarrow> u8 list \<Rightarrow> blocks_by_range_response result" where
  "blocks_by_range_response_decode_checked L bytes =
     (if length bytes < 4 then Inl (Err ''BlocksByRangeResponse missing offset table'')
      else and_then (offset_at 0 bytes) (\<lambda>offset.
        if offset \<noteq> 4 \<or> offset > length bytes
        then Inl (Err ''BlocksByRangeResponse offset is invalid'')
        else and_then (slice_from offset bytes) (\<lambda>b.
          and_then (sq_decode_checked (lib_blocks L) MAX_BLOCKS_PER_REQUEST b) (\<lambda>blocks.
          Inr \<lparr>range_blocks = blocks\<rparr>))))"

definition blocks_by_range_response_root :: "ssz_lib \<Rightarrow> blocks_by_range_response \<Rightarrow> bytes32" where
  "blocks_by_range_response_root L r =
     sq_root (lib_blocks L) MAX_BLOCKS_PER_REQUEST (range_blocks r)"

subsection \<open>BlocksByRoot\<close>

definition blocks_by_root_request_encode ::
    "ssz_lib \<Rightarrow> blocks_by_root_request \<Rightarrow> u8 list result" where
  "blocks_by_root_request_encode L r =
     and_then (sq_encode (lib_roots L) (req_roots r)) (\<lambda>body.
     encode_with (4 + length body) [(0, le32 4), (4, body)])"

definition blocks_by_root_request_decode ::
    "ssz_lib \<Rightarrow> u8 list \<Rightarrow> blocks_by_root_request result" where
  "blocks_by_root_request_decode L bytes =
     and_then (offset_at 0 bytes) (\<lambda>offset.
     and_then (slice_from offset bytes) (\<lambda>b.
     and_then (sq_decode (lib_roots L) MAX_BLOCKS_PER_ROOT_REQUEST b) (\<lambda>roots.
     Inr \<lparr>req_roots = roots\<rparr>)))"

definition blocks_by_root_request_decode_checked ::
    "ssz_lib \<Rightarrow> u8 list \<Rightarrow> blocks_by_root_request result" where
  "blocks_by_root_request_decode_checked L bytes =
     (if length bytes < 4 then Inl (Err ''BlocksByRootRequest missing offset table'')
      else and_then (offset_at 0 bytes) (\<lambda>offset.
        if offset \<noteq> 4 \<or> offset > length bytes
        then Inl (Err ''BlocksByRootRequest offset is invalid'')
        else and_then (slice_from offset bytes) (\<lambda>b.
          and_then (sq_decode_checked (lib_roots L) MAX_BLOCKS_PER_ROOT_REQUEST b) (\<lambda>roots.
          Inr \<lparr>req_roots = roots\<rparr>))))"

definition blocks_by_root_request_root :: "ssz_lib \<Rightarrow> blocks_by_root_request \<Rightarrow> bytes32" where
  "blocks_by_root_request_root L r =
     sq_root (lib_roots L) MAX_BLOCKS_PER_ROOT_REQUEST (req_roots r)"

definition blocks_by_root_response_encode ::
    "ssz_lib \<Rightarrow> blocks_by_root_response \<Rightarrow> u8 list result" where
  "blocks_by_root_response_encode L r =
     and_then (sq_encode (lib_blocks L) (root_blocks r)) (\<lambda>body.
     encode_with (4 + length body) [(0, le32 4), (4, body)])"

definition blocks_by_root_response_decode ::
    "ssz_lib \<Rightarrow> u8 list \<Rightarrow> blocks_by_root_response result" where
  "blocks_by_root_response_decode L bytes =
     and_then (offset_at 0 bytes) (\<lambda>offset.
     and_then (slice_from offset bytes) (\<lambda>b.
     and_then (sq_decode (lib_blocks L) MAX_BLOCKS_PER_REQUEST b) (\<lambda>blocks.
     Inr \<lparr>root_blocks = blocks\<rparr>)))"

definition blocks_by_root_response_decode_checked ::
    "ssz_lib \<Rightarrow> u8 list \<Rightarrow> blocks_by_root_response result" where
  "blocks_by_root_response_decode_checked L bytes =
     (if length bytes < 4 then Inl (Err ''BlocksByRootResponse missing offset table'')
      else and_then (offset_at 0 bytes) (\<lambda>offset.
        if offset \<noteq> 4 \<or> offset > length bytes
        then Inl (Err ''BlocksByRootResponse offset is invalid'')
        else and_then (slice_from offset bytes) (\<lambda>b.
          and_then (sq_decode_checked (lib_blocks L) MAX_BLOCKS_PER_REQUEST b) (\<lambda>blocks.
          Inr \<lparr>root_blocks = blocks\<rparr>))))"

definition blocks_by_root_response_root :: "ssz_lib \<Rightarrow> blocks_by_root_response \<Rightarrow> bytes32" where
  "blocks_by_root_response_root L r =
     sq_root (lib_blocks L) MAX_BLOCKS_PER_REQUEST (root_blocks r)"

section \<open>Gossip payloads\<close>

record gossip_block = gb_block :: signed_block
record gossip_block_header = gbh_header :: block_header
record gossip_attestation = ga_attestation :: signed_attestation
record gossip_aggregated_attestation = gaa_attestation :: signed_aggregated_attestation

record voluntary_exit =
  ve_validator_index :: u64
  ve_epoch :: u64

definition gossip_block_encode :: "ssz_lib \<Rightarrow> gossip_block \<Rightarrow> u8 list result" where
  "gossip_block_encode L g = signed_block_encode L (gb_block g)"

definition gossip_block_decode :: "ssz_lib \<Rightarrow> u8 list \<Rightarrow> gossip_block result" where
  "gossip_block_decode L bytes =
     and_then (signed_block_decode L bytes) (\<lambda>b. Inr \<lparr>gb_block = b\<rparr>)"

definition gossip_block_decode_checked :: "ssz_lib \<Rightarrow> u8 list \<Rightarrow> gossip_block result" where
  "gossip_block_decode_checked L bytes =
     and_then (signed_block_decode_checked L bytes) (\<lambda>b. Inr \<lparr>gb_block = b\<rparr>)"

definition gossip_block_header_encode :: "gossip_block_header \<Rightarrow> u8 list result" where
  "gossip_block_header_encode g = block_header_encode (gbh_header g)"

definition gossip_block_header_decode :: "u8 list \<Rightarrow> gossip_block_header result" where
  "gossip_block_header_decode bytes =
     and_then (block_header_decode bytes) (\<lambda>h. Inr \<lparr>gbh_header = h\<rparr>)"

definition gossip_block_header_decode_checked :: "u8 list \<Rightarrow> gossip_block_header result" where
  "gossip_block_header_decode_checked bytes =
     and_then (block_header_decode_checked bytes) (\<lambda>h. Inr \<lparr>gbh_header = h\<rparr>)"

definition gossip_attestation_encode :: "gossip_attestation \<Rightarrow> u8 list result" where
  "gossip_attestation_encode g = signed_attestation_encode (ga_attestation g)"

definition gossip_attestation_decode :: "u8 list \<Rightarrow> gossip_attestation result" where
  "gossip_attestation_decode bytes =
     and_then (signed_attestation_decode bytes) (\<lambda>a. Inr \<lparr>ga_attestation = a\<rparr>)"

definition gossip_attestation_decode_checked :: "u8 list \<Rightarrow> gossip_attestation result" where
  "gossip_attestation_decode_checked bytes =
     and_then (signed_attestation_decode_checked bytes) (\<lambda>a. Inr \<lparr>ga_attestation = a\<rparr>)"

definition gossip_aggregated_attestation_encode ::
    "ssz_lib \<Rightarrow> gossip_aggregated_attestation \<Rightarrow> u8 list result" where
  "gossip_aggregated_attestation_encode L g =
     signed_aggregated_attestation_encode L (gaa_attestation g)"

definition gossip_aggregated_attestation_decode ::
    "ssz_lib \<Rightarrow> u8 list \<Rightarrow> gossip_aggregated_attestation result" where
  "gossip_aggregated_attestation_decode L bytes =
     and_then (signed_aggregated_attestation_decode L bytes) (\<lambda>a. Inr \<lparr>gaa_attestation = a\<rparr>)"

definition gossip_aggregated_attestation_decode_checked ::
    "ssz_lib \<Rightarrow> u8 list \<Rightarrow> gossip_aggregated_attestation result" where
  "gossip_aggregated_attestation_decode_checked L bytes =
     and_then (signed_aggregated_attestation_decode_checked L bytes)
       (\<lambda>a. Inr \<lparr>gaa_attestation = a\<rparr>)"

definition voluntary_exit_encode :: "voluntary_exit \<Rightarrow> u8 list result" where
  "voluntary_exit_encode e =
     encode_with 16 [(0, le64 (ve_validator_index e)), (8, le64 (ve_epoch e))]"

definition voluntary_exit_decode :: "u8 list \<Rightarrow> voluntary_exit result" where
  "voluntary_exit_decode bytes =
     and_then (slice 0 8 bytes) (\<lambda>b0. and_then (validator_index_decode b0) (\<lambda>i.
     and_then (slice 8 16 bytes) (\<lambda>b1. and_then (uint64_decode b1) (\<lambda>epoch.
     Inr \<lparr>ve_validator_index = i, ve_epoch = epoch\<rparr>))))"

definition voluntary_exit_decode_checked :: "u8 list \<Rightarrow> voluntary_exit result" where
  "voluntary_exit_decode_checked =
     checked_len ''VoluntaryExit expects {} bytes, got {}'' 16 voluntary_exit_decode"

definition voluntary_exit_root :: "ssz_lib \<Rightarrow> voluntary_exit \<Rightarrow> bytes32" where
  "voluntary_exit_root L e =
     hash_nodes (lib_hash L) (validator_index_root (ve_validator_index e)) (uint64_root (ve_epoch e))"

definition gossip_block_root :: "ssz_lib \<Rightarrow> gossip_block \<Rightarrow> bytes32" where
  "gossip_block_root L g = signed_block_root L (gb_block g)"

definition gossip_block_header_root :: "ssz_lib \<Rightarrow> gossip_block_header \<Rightarrow> bytes32" where
  "gossip_block_header_root L g = block_header_root L (gbh_header g)"

definition gossip_attestation_root :: "ssz_lib \<Rightarrow> gossip_attestation \<Rightarrow> bytes32" where
  "gossip_attestation_root L g = signed_attestation_root L (ga_attestation g)"

definition gossip_aggregated_attestation_root ::
    "ssz_lib \<Rightarrow> gossip_aggregated_attestation \<Rightarrow> bytes32" where
  "gossip_aggregated_attestation_root L g =
     signed_aggregated_attestation_root L (gaa_attestation g)"

section \<open>Protocols\<close>

datatype lean_supported_protocol = BlocksByRangeV1 | BlocksByRootV1 | StatusV1

fun message_name :: "lean_supported_protocol \<Rightarrow> string" where
  "message_name BlocksByRangeV1 = ''blocks_by_range''"
| "message_name BlocksByRootV1 = ''blocks_by_root''"
| "message_name StatusV1 = ''status''"

definition schema_version :: "lean_supported_protocol \<Rightarrow> string" where
  "schema_version p = ''1''"

definition protocol_id :: "lean_supported_protocol \<Rightarrow> string" where
  "protocol_id p =
     ''/leanconsensus/req/'' @ message_name p @ ''/'' @ schema_version p @ ''/ssz_snappy''"

definition parse_protocol_id :: "string \<Rightarrow> lean_supported_protocol option" where
  "parse_protocol_id protocol =
     (let parts = split_on (CHR ''/'') (trim_start_char (CHR ''/'') protocol) in
      if length parts = 5 \<and> parts ! 0 = ''leanconsensus'' \<and> parts ! 1 = ''req'' \<and>
         parts ! 4 = ''ssz_snappy''
      then
        let name = parts ! 2; version = parts ! 3 in
        if version \<noteq> ''1'' then None
        else if name = ''blocks_by_range'' then Some BlocksByRangeV1
        else if name = ''blocks_by_root'' then Some BlocksByRootV1
        else if name = ''status'' then Some StatusV1
        else None
      else None)"

datatype lean_request_message =
    StatusRequest status
  | BlocksByRangeMessage blocks_by_range_request
  | BlocksByRootMessage blocks_by_root_request

datatype lean_response_message =
    StatusResponse status
  | BlocksByRangeBlock signed_block
  | BlocksByRootBlock signed_block

fun supported_protocols :: "lean_request_message \<Rightarrow> string list" where
  "supported_protocols (StatusRequest _) = [protocol_id StatusV1]"
| "supported_protocols (BlocksByRangeMessage _) = [protocol_id BlocksByRangeV1]"
| "supported_protocols (BlocksByRootMessage _) = [protocol_id BlocksByRootV1]"

fun max_response_chunks :: "lean_request_message \<Rightarrow> u64" where
  "max_response_chunks (StatusRequest _) = 1"
| "max_response_chunks (BlocksByRangeMessage req) = range_count req"
| "max_response_chunks (BlocksByRootMessage req) = of_nat (length (req_roots req))"

text \<open>The two compatibility decoders of block responses try a single block first and then a
  list, of which they take the first block.\<close>

definition decode_blocks_by_root_request_compat ::
    "ssz_lib \<Rightarrow> u8 list \<Rightarrow> blocks_by_root_request result" where
  "decode_blocks_by_root_request_compat L data =
     or_else (blocks_by_root_request_decode L data)
       (and_then (sq_decode (lib_roots L) MAX_BLOCKS_PER_ROOT_REQUEST data)
          (\<lambda>roots. Inr \<lparr>req_roots = roots\<rparr>))"

definition first_block :: "string \<Rightarrow> signed_block list \<Rightarrow> signed_block result" where
  "first_block message blocks = (case blocks of [] \<Rightarrow> Inl (Err message) | b # _ \<Rightarrow> Inr b)"

definition decode_blocks_by_root_response_compat ::
    "ssz_lib \<Rightarrow> u8 list \<Rightarrow> signed_block result" where
  "decode_blocks_by_root_response_compat L data =
     or_else (signed_block_decode L data)
       (and_then (ok_value (blocks_by_root_response_decode L data)) (\<lambda>resp.
        case resp of
          Some resp \<Rightarrow> first_block ''empty BlocksByRoot response payload'' (root_blocks resp)
        | None \<Rightarrow> Inl (Err ''unsupported BlocksByRoot response payload'')))"

definition decode_blocks_by_range_response_compat ::
    "ssz_lib \<Rightarrow> u8 list \<Rightarrow> signed_block result" where
  "decode_blocks_by_range_response_compat L data =
     or_else (signed_block_decode L data)
       (and_then (ok_value (blocks_by_range_response_decode L data)) (\<lambda>resp.
        case resp of
          Some resp \<Rightarrow> first_block ''empty BlocksByRange response payload'' (range_blocks resp)
        | None \<Rightarrow> Inl (Err ''unsupported BlocksByRange response payload'')))"

fun lean_request_encode :: "ssz_lib \<Rightarrow> lean_request_message \<Rightarrow> u8 list result" where
  "lean_request_encode L (StatusRequest s) = status_encode s"
| "lean_request_encode L (BlocksByRangeMessage req) = blocks_by_range_request_encode req"
| "lean_request_encode L (BlocksByRootMessage req) = blocks_by_root_request_encode L req"

fun lean_request_decode ::
    "ssz_lib \<Rightarrow> lean_supported_protocol \<Rightarrow> u8 list \<Rightarrow> lean_request_message result" where
  "lean_request_decode L StatusV1 data =
     and_then (status_decode data) (\<lambda>s. Inr (StatusRequest s))"
| "lean_request_decode L BlocksByRangeV1 data =
     and_then (blocks_by_range_request_decode data) (\<lambda>r. Inr (BlocksByRangeMessage r))"
| "lean_request_decode L BlocksByRootV1 data =
     and_then (decode_blocks_by_root_request_compat L data) (\<lambda>r. Inr (BlocksByRootMessage r))"

fun lean_response_encode :: "ssz_lib \<Rightarrow> lean_response_message \<Rightarrow> u8 list result" where
  "lean_response_encode L (StatusResponse s) = status_encode s"
| "lean_response_encode L (BlocksByRangeBlock b) = signed_block_encode L b"
| "lean_response_encode L (BlocksByRootBlock b) = signed_block_encode L b"

fun lean_response_decode ::
    "ssz_lib \<Rightarrow> lean_supported_protocol \<Rightarrow> u8 list \<Rightarrow> lean_response_message result" where
  "lean_response_decode L StatusV1 data =
     and_then (status_decode data) (\<lambda>s. Inr (StatusResponse s))"
| "lean_response_decode L BlocksByRangeV1 data =
     and_then (decode_blocks_by_range_response_compat L data) (\<lambda>b. Inr (BlocksByRangeBlock b))"
| "lean_response_decode L BlocksByRootV1 data =
     and_then (decode_blocks_by_root_response_compat L data) (\<lambda>b. Inr (BlocksByRootBlock b))"

section \<open>Closed forms of the codecs\<close>

lemma status_encode_eq [codec_simps]:
  "status_encode s =
     Inr (be_bytes 32 (status_finalized_root s) @ le64 (status_finalized_slot s) @
          be_bytes 32 (status_head_root s) @ le64 (status_head_slot s))"
  unfolding status_encode_def by (subst encode_with_tiles) simp_all

lemma ping_encode_eq [codec_simps]: "ping_encode p = Inr (le64 (ping_seq_number p))"
  unfolding ping_encode_def by (subst encode_with_tiles) simp_all

lemma pong_encode_eq [codec_simps]: "pong_encode p = Inr (le64 (pong_seq_number p))"
  unfolding pong_encode_def by (subst encode_with_tiles) simp_all

lemma blocks_by_range_request_encode_eq [codec_simps]:
  "blocks_by_range_request_encode r =
     Inr (le64 (range_start_slot r) @ le64 (range_count r) @ le64 (range_step r))"
  unfolding blocks_by_range_request_encode_def by (subst encode_with_tiles) simp_all

lemma voluntary_exit_encode_eq [codec_simps]:
  "voluntary_exit_encode e = Inr (le64 (ve_validator_index e) @ le64 (ve_epoch e))"
  unfolding voluntary_exit_encode_def by (subst encode_with_tiles) simp_all

lemma encode_offset_list: "encode_with (4 + length body) [(0, le32 4), (4, body)] = Inr (le32 4 @ body)"
  by (subst encode_with_tiles) simp_all

lemma blocks_by_root_request_encode_eq [codec_simps]:
  "blocks_by_root_request_encode L r =
     and_then (sq_encode (lib_roots L) (req_roots r)) (\<lambda>body. Inr (le32 4 @ body))"
  by (simp add: blocks_by_root_request_encode_def encode_offset_list)

lemma blocks_by_root_request_decode_bytes [codec_simps]:
  "blocks_by_root_request_decode L (le32 4 @ body) =
     and_then (sq_decode (lib_roots L) MAX_BLOCKS_PER_ROOT_REQUEST body)
       (\<lambda>roots. Inr \<lparr>req_roots = roots\<rparr>)"
  by (simp add: blocks_by_root_request_decode_def offset_read)

interpretation ping_codec: fixed_codec ping_encode ping_decode 8
  by unfold_locales (auto simp: codec_simps ping_decode_def)

interpretation pong_codec: fixed_codec pong_encode pong_decode 8
  by unfold_locales (auto simp: codec_simps pong_decode_def)

lemma status_decode_append [codec_simps]:
  "length f = 32 \<Longrightarrow> length s = 8 \<Longrightarrow> length h = 32 \<Longrightarrow> length t = 8 \<Longrightarrow>
   status_decode (f @ s @ h @ t) =
     Inr \<lparr>status_finalized_root = from_be_bytes f, status_finalized_slot = from_le_bytes s,
          status_head_root = from_be_bytes h, status_head_slot = from_le_bytes t\<rparr>"
  by (simp add: status_decode_def slice_def uint64_decode_def)

lemma blocks_by_range_request_decode_append [codec_simps]:
  "length a = 8 \<Longrightarrow> length b = 8 \<Longrightarrow> length c = 8 \<Longrightarrow>
   blocks_by_range_request_decode (a @ b @ c) =
     Inr \<lparr>range_start_slot = from_le_bytes a, range_count = from_le_bytes b,
          range_step = from_le_bytes c\<rparr>"
  by (simp add: blocks_by_range_request_decode_def slice_def uint64_decode_def)

lemma voluntary_exit_decode_append [codec_simps]:
  "length a = 8 \<Longrightarrow> length b = 8 \<Longrightarrow>
   voluntary_exit_decode (a @ b) =
     Inr \<lparr>ve_validator_index = from_le_bytes a, ve_epoch = from_le_bytes b\<rparr>"
  by (simp add: voluntary_exit_decode_def slice_def uint64_decode_def validator_index_decode_def)

interpretation status_codec: fixed_codec status_encode status_decode 80
proof
  fix bs :: "u8 list" assume "length bs = 80"
  then obtain f s h t where "bs = f @ s @ h @ t"
    "length f = 32" "length s = 8" "length h = 32" "length t = 8"
    by (rule split_bytes4 [of bs 32 8 32 8, simplified])
  then show "\<exists>x. status_decode bs = Inr x \<and> status_encode x = Inr bs"
    by (simp add: codec_simps)
qed (auto simp: codec_simps)

interpretation blocks_by_range_request_codec:
  fixed_codec blocks_by_range_request_encode blocks_by_range_request_decode 24
proof
  fix bs :: "u8 list" assume "length bs = 24"
  then have "length bs = 8 + 8 + 8" by simp
  then obtain a b c where "bs = a @ b @ c" "length a = 8" "length b = 8" "length c = 8"
    by (rule split_bytes3)
  then show "\<exists>x. blocks_by_range_request_decode bs = Inr x \<and> blocks_by_range_request_encode x = Inr bs"
    by (simp add: codec_simps)
qed (auto simp: codec_simps)

interpretation voluntary_exit_codec: fixed_codec voluntary_exit_encode voluntary_exit_decode 16
proof
  fix bs :: "u8 list" assume "length bs = 16"
  then obtain a b where "bs = a @ b" "length a = 8" "length b = 8"
    using split_bytes [of bs 8 8] by auto
  then show "\<exists>x. voluntary_exit_decode bs = Inr x \<and> voluntary_exit_encode x = Inr bs"
    by (simp add: codec_simps)
qed (auto simp: codec_simps)

definition roots_valid :: "ssz_lib \<Rightarrow> bytes32 list \<Rightarrow> bool" where
  "roots_valid L rs \<longleftrightarrow> (\<exists>bs. seq_roundtrip (lib_roots L) MAX_BLOCKS_PER_ROOT_REQUEST rs bs)"

definition blocks_valid :: "ssz_lib \<Rightarrow> signed_block list \<Rightarrow> bool" where
  "blocks_valid L bl \<longleftrightarrow> (\<exists>bs. seq_roundtrip (lib_blocks L) MAX_BLOCKS_PER_REQUEST bl bs)"

interpretation blocks_by_root_request_codec:
  var_codec "blocks_by_root_request_encode L" "blocks_by_root_request_decode L"
    "\<lambda>r. roots_valid L (req_roots r)" for L
  by unfold_locales (auto simp: roots_valid_def seq_roundtrip_def codec_simps)

interpretation blocks_by_root_request_checked:
  var_codec "blocks_by_root_request_encode L" "blocks_by_root_request_decode_checked L"
    "\<lambda>r. roots_valid L (req_roots r)" for L
  by unfold_locales (auto simp: roots_valid_def seq_roundtrip_def codec_simps
      blocks_by_root_request_decode_checked_def offset_read)

interpretation blocks_by_range_response_checked:
  var_codec "blocks_by_range_response_encode L" "blocks_by_range_response_decode_checked L"
    "\<lambda>r. blocks_valid L (range_blocks r)" for L
  by unfold_locales (auto simp: blocks_valid_def seq_roundtrip_def encode_offset_list
      blocks_by_range_response_encode_def blocks_by_range_response_decode_checked_def offset_read)

interpretation blocks_by_root_response_checked:
  var_codec "blocks_by_root_response_encode L" "blocks_by_root_response_decode_checked L"
    "\<lambda>r. blocks_valid L (root_blocks r)" for L
  by unfold_locales (auto simp: blocks_valid_def seq_roundtrip_def encode_offset_list
      blocks_by_root_response_encode_def blocks_by_root_response_decode_checked_def offset_read)

section \<open>Requests on the wire\<close>

fun request_protocol :: "lean_request_message \<Rightarrow> lean_supported_protocol" where
  "request_protocol (StatusRequest _) = StatusV1"
| "request_protocol (BlocksByRangeMessage _) = BlocksByRangeV1"
| "request_protocol (BlocksByRootMessage _) = BlocksByRootV1"

fun request_valid :: "ssz_lib \<Rightarrow> lean_request_message \<Rightarrow> bool" where
  "request_valid L (BlocksByRootMessage req) = roots_valid L (req_roots req)"
| "request_valid L m = True"

lemma parse_protocol_id_inverse: "parse_protocol_id (protocol_id p) = Some p"
  by (cases p) (simp_all add: parse_protocol_id_def protocol_id_def schema_version_def)

lemma status_decode_short: "length bs < 80 \<Longrightarrow> status_decode bs = Inl Panic"
  by (auto simp: status_decode_def slice_def uint64_decode_def)

lemma range_decode_short: "length bs < 24 \<Longrightarrow> blocks_by_range_request_decode bs = Inl Panic"
  by (auto simp: blocks_by_range_request_decode_def slice_def uint64_decode_def)

lemma root_request_decode_outside:
  assumes "length bs < 4 \<or> length bs < unat (from_le_bytes (take 4 bs) :: u32)"
  shows "decode_blocks_by_root_request_compat L bs = Inl Panic"
  using assms
  by (auto simp: decode_blocks_by_root_request_compat_def blocks_by_root_request_decode_def offset_read)

lemma root_request_compat_roundtrip:
  assumes "roots_valid L (req_roots r)"
  shows "and_then (blocks_by_root_request_encode L r) (decode_blocks_by_root_request_compat L) = Inr r"
  using blocks_by_root_request_codec.var_roundtrip [OF assms]
  by (auto simp: and_then_eq_Inr decode_blocks_by_root_request_compat_def)

text \<open>An instance of the list codec of roots: the roots one after the other.\<close>

fun split_roots :: "nat \<Rightarrow> u8 list \<Rightarrow> bytes32 list" where
  "split_roots 0 bs = []"
| "split_roots (Suc n) bs = from_be_bytes (take 32 bs) # split_roots n (drop 32 bs)"

definition plain_roots :: "bytes32 seq_ops" where
  "plain_roots = \<lparr>
     sq_encode = (\<lambda>rs. Inr (concat (map (be_bytes 32) rs))),
     sq_decode = (\<lambda>limit bs. Inr (split_roots (length bs div 32) bs)),
     sq_decode_checked = (\<lambda>limit bs. if length bs mod 32 \<noteq> 0 \<or> length bs div 32 > limit
       then Inl (Err ''malformed list'') else Inr (split_roots (length bs div 32) bs)),
     sq_root = (\<lambda>limit rs. of_nat (length rs))\<rparr>"

definition wire_lib :: ssz_lib where "wire_lib = sample_lib\<lparr>lib_roots := plain_roots\<rparr>"

lemma length_concat_roots: "length (concat (map (be_bytes 32) (rs :: bytes32 list))) = 32 * length rs"
  by (induction rs) simp_all

lemma split_concat_roots: "split_roots (length rs) (concat (map (be_bytes 32) rs)) = rs"
  by (induction rs) simp_all

lemma plain_roots_roundtrip:
  "length rs \<le> limit \<Longrightarrow> seq_roundtrip plain_roots limit rs (concat (map (be_bytes 32) rs))"
  by (simp add: seq_roundtrip_def plain_roots_def length_concat_roots split_concat_roots)

section \<open>Properties\<close>

text \<open>
  C32 (requests survive the wire). A request is sent over one protocol, whose name the
  receiver parses back to the protocol that selects the decoder, and that decoder gives the
  request back from its bytes. The roots of a \<^verbatim>\<open>BlocksByRoot\<close> request must be a list that the
  library's list codec can round-trip.
\<close>

theorem request_wire_roundtrip:
  assumes "request_valid L m"
  shows "\<exists>pid bs. supported_protocols m = [pid] \<and> parse_protocol_id pid = Some (request_protocol m) \<and>
    lean_request_encode L m = Inr bs \<and> lean_request_decode L (request_protocol m) bs = Inr m"
proof (cases m)
  case (StatusRequest s)
  then show ?thesis using status_codec.enc_total [of s] status_codec.dec_enc [of s]
    by (auto simp: parse_protocol_id_inverse)
next
  case (BlocksByRangeMessage r)
  then show ?thesis
    using blocks_by_range_request_codec.enc_total [of r] blocks_by_range_request_codec.dec_enc [of r]
    by (auto simp: parse_protocol_id_inverse)
next
  case (BlocksByRootMessage r)
  then have "roots_valid L (req_roots r)" using assms by simp
  from root_request_compat_roundtrip [OF this] BlocksByRootMessage show ?thesis
    by (auto simp: parse_protocol_id_inverse and_then_eq_Inr)
qed

theorem request_wire_roundtrip_witness:
  "\<exists>pid bs. supported_protocols (BlocksByRootMessage \<lparr>req_roots = [5, 7]\<rparr>) = [pid] \<and>
    parse_protocol_id pid = Some BlocksByRootV1 \<and>
    lean_request_encode wire_lib (BlocksByRootMessage \<lparr>req_roots = [5, 7]\<rparr>) = Inr bs \<and>
    lean_request_decode wire_lib BlocksByRootV1 bs = Inr (BlocksByRootMessage \<lparr>req_roots = [5, 7]\<rparr>)"
proof -
  have "roots_valid wire_lib [5, 7]"
    unfolding roots_valid_def wire_lib_def
    by (rule exI, simp, rule plain_roots_roundtrip) (simp add: MAX_BLOCKS_PER_ROOT_REQUEST_def)
  then show ?thesis
    using request_wire_roundtrip [of wire_lib "BlocksByRootMessage \<lparr>req_roots = [5, 7]\<rparr>"] by simp
qed

text \<open>
  C33 (short requests panic). The dispatcher reads network payloads with the trusting
  decoders: a \<^verbatim>\<open>Status\<close> payload below 80 bytes, a \<^verbatim>\<open>BlocksByRange\<close> payload below 24 bytes and a
  \<^verbatim>\<open>BlocksByRoot\<close> payload whose leading offset lies past its end (or that has no offset) are
  panics, not error values. In particular a bare list of roots, which the compatibility
  decoder means to accept, panics when its first four bytes read as a large number.
\<close>

theorem short_request_panics:
  "(length data < 80 \<longrightarrow> lean_request_decode L StatusV1 data = Inl Panic) \<and>
   (length data < 24 \<longrightarrow> lean_request_decode L BlocksByRangeV1 data = Inl Panic) \<and>
   (length data < 4 \<or> length data < unat (from_le_bytes (take 4 data) :: u32) \<longrightarrow>
      lean_request_decode L BlocksByRootV1 data = Inl Panic)"
  by (simp add: status_decode_short range_decode_short root_request_decode_outside)

theorem short_request_panics_witness:
  "lean_request_decode wire_lib StatusV1 (replicate 79 0) = Inl Panic \<and>
   lean_request_decode wire_lib BlocksByRangeV1 [] = Inl Panic \<and>
   sq_decode (lib_roots wire_lib) MAX_BLOCKS_PER_ROOT_REQUEST (replicate 32 255) =
     Inr [from_be_bytes (replicate 32 255)] \<and>
   lean_request_decode wire_lib BlocksByRootV1 (replicate 32 255) = Inl Panic"
proof -
  have "take 4 (replicate 32 255) = [255, 255, 255, 255 :: u8]"
    by (simp add: eval_nat_numeral)
  then have a: "unat (from_le_bytes (take 4 (replicate 32 255)) :: u32) > 32"
    by (simp add: unat_from_le_bytes)
  have b: "sq_decode (lib_roots wire_lib) MAX_BLOCKS_PER_ROOT_REQUEST (replicate 32 255) =
      Inr [from_be_bytes (replicate 32 255)]"
    by (simp add: wire_lib_def plain_roots_def)
  show ?thesis
    using a b short_request_panics [of "replicate 79 0" wire_lib] short_request_panics [of "[]" wire_lib]
      short_request_panics [of "replicate 32 255" wire_lib] by simp
qed

end
