(* ===== verification/GossipVerify.thy ===== *)
theory GossipVerify
  imports ReqResp Transition
begin

text \<open>
  Signature checks on gossip payloads, \<^verbatim>\<open>src/networking/validate.rs\<close>: the two verifiers, the
  dispatch of \<^verbatim>\<open>validate_gossip\<close>, and that the checks a gossip block passes are the ones
  block import makes.
\<close>

section \<open>Definitions\<close>

datatype gossip_validator_kind =
    KindNone | KindBlock | KindBlockHeader | KindAttestation | KindAggregatedAttestation | KindVoluntaryExit

text \<open>The trait \<^verbatim>\<open>GossipSignatureVerifier\<close>. Its methods return truth values; a panic inside the
  signature crates is outside the model.\<close>

record gossip_verifier =
  verify_block_signature :: "validator_index \<Rightarrow> block_with_attestation \<Rightarrow> bytes3112 \<Rightarrow> bool"
  verify_signed_attestation_signature :: "signed_attestation \<Rightarrow> bool"
  verify_attestation_signature :: "attestation \<Rightarrow> aggregated_signature_proof \<Rightarrow> bool"

definition noop_gossip_verifier :: gossip_verifier where
  "noop_gossip_verifier = \<lparr>
     verify_block_signature = (\<lambda>proposer_index message signature. True),
     verify_signed_attestation_signature = (\<lambda>attestation. True),
     verify_attestation_signature = (\<lambda>attestation proof. True)\<rparr>"

definition participant_is_set :: "bitlist \<Rightarrow> nat \<Rightarrow> bool" where
  "participant_is_set participants idx =
     (if idx \<ge> bl_len participants then False
      else let byte = idx div 8; k = idx mod 8 in
        if byte \<ge> length (bl_data participants) then False
        else byte_bit (bl_data participants ! byte) k)"

text \<open>The loop \<^verbatim>\<open>for idx in 0..total\<close>, with \<open>n\<close> iterations left.\<close>

fun gather_pubkeys_loop ::
    "bytes52 list \<Rightarrow> bitlist \<Rightarrow> nat \<Rightarrow> nat \<Rightarrow> bytes52 list \<Rightarrow> bytes52 list option" where
  "gather_pubkeys_loop registry participants idx 0 out = Some out"
| "gather_pubkeys_loop registry participants idx (Suc n) out =
     (if participant_is_set participants idx
      then
        if idx < length registry
        then gather_pubkeys_loop registry participants (Suc idx) n (out @ [registry ! idx])
        else None
      else gather_pubkeys_loop registry participants (Suc idx) n out)"

definition gather_pubkeys :: "bytes52 list \<Rightarrow> bitlist \<Rightarrow> bytes52 list option" where
  "gather_pubkeys registry participants =
     gather_pubkeys_loop registry participants 0 (bl_len participants) []"

fun set_bits_loop :: "bitlist \<Rightarrow> nat \<Rightarrow> nat \<Rightarrow> nat list \<Rightarrow> nat list" where
  "set_bits_loop participants i 0 out = out"
| "set_bits_loop participants i (Suc n) out =
     set_bits_loop participants (Suc i) n
       (if participant_is_set participants i then out @ [i] else out)"

definition set_bits :: "bitlist \<Rightarrow> nat list" where
  "set_bits participants = set_bits_loop participants 0 (bl_len participants) []"

text \<open>The keys are looked up by validator index; a conversion \<^verbatim>\<open>as u32\<close> keeps the low half of
  the slot.\<close>

definition simple_verify_block ::
    "ssz_lib \<Rightarrow> ('pk, 'sk, 'sig, 'agg) pq_lib \<Rightarrow> bytes52 list \<Rightarrow> validator_index \<Rightarrow>
     block_with_attestation \<Rightarrow> bytes3112 \<Rightarrow> bool" where
  "simple_verify_block L Q pubkeys proposer_index message signature =
     (let proposer_attestation = bwa_proposer_attestation message;
          idx = unat proposer_index
      in if idx < length pubkeys
         then
           let root = attestation_data_root L (att_data proposer_attestation);
               epoch = ucast (ad_slot (att_data proposer_attestation))
           in verify_signature Q (pubkeys ! idx) epoch root signature = Inr ()
         else False)"

definition simple_verify_signed_attestation ::
    "ssz_lib \<Rightarrow> ('pk, 'sk, 'sig, 'agg) pq_lib \<Rightarrow> bytes52 list \<Rightarrow> signed_attestation \<Rightarrow> bool" where
  "simple_verify_signed_attestation L Q pubkeys attestation =
     (let idx = unat (sa_validator_id attestation) in
      if idx < length pubkeys
      then
        let root = attestation_data_root L (sa_message attestation);
            epoch = ucast (ad_slot (sa_message attestation))
        in verify_signature Q (pubkeys ! idx) epoch root (sa_signature attestation) = Inr ()
      else False)"

definition simple_verify_attestation ::
    "ssz_lib \<Rightarrow> ('pk, 'sk, 'sig, 'agg) pq_lib \<Rightarrow> bytes52 list \<Rightarrow> attestation \<Rightarrow>
     aggregated_signature_proof \<Rightarrow> bool" where
  "simple_verify_attestation L Q pubkeys attestation proof =
     (case gather_pubkeys pubkeys (att_bits attestation) of
        None \<Rightarrow> False
      | Some participants \<Rightarrow>
          if participants = [] then False
          else
            let root = attestation_data_root L (att_data attestation);
                epoch = ucast (ad_slot (att_data attestation))
            in verify_aggregate_signature Q participants root (ap_proof_data proof) epoch = Inr ())"

definition simple_gossip_verifier ::
    "ssz_lib \<Rightarrow> ('pk, 'sk, 'sig, 'agg) pq_lib \<Rightarrow> bytes52 list \<Rightarrow> gossip_verifier" where
  "simple_gossip_verifier L Q pubkeys = \<lparr>
     verify_block_signature = simple_verify_block L Q pubkeys,
     verify_signed_attestation_signature = simple_verify_signed_attestation L Q pubkeys,
     verify_attestation_signature = simple_verify_attestation L Q pubkeys\<rparr>"

definition verifier_from_validators ::
    "ssz_lib \<Rightarrow> ('pk, 'sk, 'sig, 'agg) pq_lib \<Rightarrow> validator list \<Rightarrow> gossip_verifier" where
  "verifier_from_validators L Q validators =
     (if validators = [] then noop_gossip_verifier
      else simple_gossip_verifier L Q (map v_pubkey validators))"

text \<open>The loop over the attestations of a block and their proofs.\<close>

fun gossip_proofs_ok ::
    "gossip_verifier \<Rightarrow> (attestation \<times> aggregated_signature_proof) list \<Rightarrow> bool" where
  "gossip_proofs_ok verifier [] = True"
| "gossip_proofs_ok verifier ((attestation, proof) # rest) =
     (if ap_participants proof \<noteq> att_bits attestation then False
      else if \<not> verify_attestation_signature verifier attestation proof then False
      else gossip_proofs_ok verifier rest)"

definition gossip_block_ok :: "gossip_verifier \<Rightarrow> signed_block \<Rightarrow> bool" where
  "gossip_block_ok verifier sb =
     (let message = sb_message sb;
          block_body = b_body (bwa_block message);
          proposer_attestation = bwa_proposer_attestation message
      in if ad_slot (att_data proposer_attestation) \<noteq> b_slot (bwa_block message) then False
         else
           let proposer_bits = set_bits (att_bits proposer_attestation) in
           if length proposer_bits \<noteq> 1 then False
           else if proposer_bits ! 0 \<noteq> unat (b_proposer_index (bwa_block message)) then False
           else if \<not> verify_block_signature verifier (b_proposer_index (bwa_block message)) message
                     (bs_proposer_signature (sb_signature sb)) then False
           else
             let proofs = bs_attestation_signatures (sb_signature sb) in
             if length (bb_attestations block_body) \<noteq> length proofs then False
             else gossip_proofs_ok verifier (zip (bb_attestations block_body) proofs))"

definition gossip_aggregate_ok :: "gossip_verifier \<Rightarrow> signed_aggregated_attestation \<Rightarrow> bool" where
  "gossip_aggregate_ok verifier sa =
     (if set_bits (ap_participants (saa_proof sa)) = [] then False
      else verify_attestation_signature verifier
             \<lparr>att_bits = ap_participants (saa_proof sa), att_data = saa_data sa\<rparr> (saa_proof sa))"

text \<open>\<^verbatim>\<open>let Ok(x) = decode(payload) else { return false }\<close>: an error is the answer no, a panic
  of the decoder is a panic of the validator.\<close>

definition decoded :: "'a result \<Rightarrow> ('a \<Rightarrow> bool) \<Rightarrow> bool result" where
  "decoded r P = and_then (ok_value r) (\<lambda>v. Inr (case v of None \<Rightarrow> False | Some x \<Rightarrow> P x))"

fun validate_gossip :: "ssz_lib \<Rightarrow> gossip_validator_kind \<Rightarrow> u8 list \<Rightarrow> gossip_verifier \<Rightarrow> bool result" where
  "validate_gossip L KindNone payload verifier = Inr True"
| "validate_gossip L KindBlock payload verifier =
     decoded (gossip_block_decode_checked L payload) (\<lambda>g. gossip_block_ok verifier (gb_block g))"
| "validate_gossip L KindBlockHeader payload verifier =
     decoded (gossip_block_header_decode_checked payload) (\<lambda>_. True)"
| "validate_gossip L KindAttestation payload verifier =
     decoded (gossip_attestation_decode_checked payload)
       (\<lambda>g. verify_signed_attestation_signature verifier (ga_attestation g))"
| "validate_gossip L KindAggregatedAttestation payload verifier =
     decoded (gossip_aggregated_attestation_decode_checked L payload)
       (\<lambda>g. gossip_aggregate_ok verifier (gaa_attestation g))"
| "validate_gossip L KindVoluntaryExit payload verifier =
     decoded (voluntary_exit_decode_checked payload) (\<lambda>_. True)"

section \<open>The scan over participants\<close>

lemma participant_is_set_iff: "participant_is_set b i \<longleftrightarrow> i \<in> bits_of b"
  by (auto simp: participant_is_set_def Let_def bits_of_def data_bit_def byte_bit_iff not_le
      div8_less_iff simp flip: not_less)

lemma set_bits_loop_eq:
  "set_bits_loop b i n out = out @ filter (\<lambda>k. k \<in> bits_of b) [i..<i + n]"
proof (induction b i n out rule: set_bits_loop.induct)
  case (2 b i n out)
  then show ?case unfolding filter_upt_Suc by (simp add: participant_is_set_iff del: upt_Suc)
qed simp

lemma bitlist_indices_filter: "bitlist_indices b = filter (\<lambda>k. k \<in> bits_of b) [0..<bl_len b]"
  by (auto simp: bitlist_indices_eq bits_of_def intro: filter_cong)

lemma set_bits_eq: "set_bits b = bitlist_indices b"
  by (simp add: set_bits_def set_bits_loop_eq bitlist_indices_filter)

lemma gather_pubkeys_loop_eq:
  "gather_pubkeys_loop reg b i n out =
     (let ks = filter (\<lambda>k. k \<in> bits_of b) [i..<i + n] in
      if \<forall>k \<in> set ks. k < length reg then Some (out @ map (\<lambda>k. reg ! k) ks) else None)"
proof (induction reg b i n out rule: gather_pubkeys_loop.induct)
  case (2 reg b i n out)
  then show ?case
    unfolding filter_upt_Suc by (auto simp: participant_is_set_iff Let_def simp del: upt_Suc)
qed simp

lemma gather_pubkeys_eq:
  "gather_pubkeys reg b =
     (if \<forall>k \<in> bits_of b. k < length reg then Some (map (\<lambda>k. reg ! k) (bitlist_indices b)) else None)"
  by (simp add: gather_pubkeys_def gather_pubkeys_loop_eq Let_def flip: bitlist_indices_filter)
     (simp add: set_bitlist_indices)

lemma bitlist_indices_Nil: "bitlist_indices b = [] \<longleftrightarrow> bits_of b = {}"
  using set_bitlist_indices [of b] by (metis set_empty)

lemma set_bits_single:
  "length (set_bits b) = 1 \<and> set_bits b ! 0 = i \<longleftrightarrow> bits_of b = {i}"
proof -
  have "length (set_bits b) = 1 \<and> set_bits b ! 0 = i \<longleftrightarrow> bitlist_indices b = [i]"
    by (auto simp: set_bits_eq length_Suc_conv)
  also have "\<dots> \<longleftrightarrow> bits_of b = {i}"
    using distinct_singleton_iff [OF distinct_bitlist_indices, of b i] by (simp add: set_bitlist_indices)
  finally show ?thesis .
qed

lemma simple_verify_attestation_iff:
  "simple_verify_attestation L Q (map v_pubkey vs) att proof \<longleftrightarrow> attestation_verified L Q vs att proof"
proof (cases "\<forall>k \<in> bits_of (att_bits att). k < length vs")
  case True
  then have "gather_pubkeys (map v_pubkey vs) (att_bits att) =
      Some (map (\<lambda>k. v_pubkey (vs ! k)) (bitlist_indices (att_bits att)))"
    by (simp add: gather_pubkeys_eq set_bitlist_indices)
  with True show ?thesis
    by (simp add: simple_verify_attestation_def attestation_verified_def Let_def bitlist_indices_Nil)
next
  case False
  then have "gather_pubkeys (map v_pubkey vs) (att_bits att) = None" by (simp add: gather_pubkeys_eq)
  then show ?thesis using False by (simp only: simple_verify_attestation_def attestation_verified_def) simp
qed

section \<open>Gossip and import agree\<close>

lemma gossip_proofs_ok_iff:
  "gossip_proofs_ok v ps \<longleftrightarrow> (\<forall>(att, proof) \<in> set ps. ap_participants proof = att_bits att \<and>
     verify_attestation_signature v att proof)"
  by (induction v ps rule: gossip_proofs_ok.induct) auto

lemma check_participants_iff:
  "check_participants n ps = Inr () \<longleftrightarrow> (\<forall>(att, proof) \<in> set ps. ap_participants proof = att_bits att)"
  by (induction n ps rule: check_participants.induct) auto

lemma validate_basic_iff:
  "validate_basic sb = Inr () \<longleftrightarrow>
     (let block = bwa_block (sb_message sb); pa = bwa_proposer_attestation (sb_message sb);
          atts = bb_attestations (b_body block); proofs = bs_attestation_signatures (sb_signature sb)
      in length proofs = length atts \<and>
         (\<forall>(att, proof) \<in> set (zip atts proofs). ap_participants proof = att_bits att) \<and>
         ad_slot (att_data pa) = b_slot block \<and> bits_of (att_bits pa) = {unat (b_proposer_index block)})"
  by (auto simp: validate_basic_def Let_def and_then_eq_Inr check_participants_iff
      simp flip: single_set_bit_iff split: option.splits)

lemma gossip_block_ok_iff:
  assumes "st_validators s \<noteq> []"
  shows "gossip_block_ok (verifier_from_validators L Q (st_validators s)) sb \<longleftrightarrow>
    validate_basic sb = Inr () \<and> pq_verify_signed_block L Q sb s = Inr ()"
proof -
  let ?block = "bwa_block (sb_message sb)" and ?pa = "bwa_proposer_attestation (sb_message sb)"
  let ?atts = "bb_attestations (b_body ?block)" and ?proofs = "bs_attestation_signatures (sb_signature sb)"
  let ?v = "verifier_from_validators L Q (st_validators s)"
  have v: "?v = simple_gossip_verifier L Q (map v_pubkey (st_validators s))"
    using assms by (simp add: verifier_from_validators_def)
  have sig: "verify_block_signature ?v (b_proposer_index ?block) (sb_message sb) (bs_proposer_signature (sb_signature sb)) \<longleftrightarrow>
      unat (b_proposer_index ?block) < length (st_validators s) \<and>
      verify_signature Q (v_pubkey (st_validators s ! unat (b_proposer_index ?block))) (ucast (ad_slot (att_data ?pa)))
        (attestation_data_root L (att_data ?pa)) (bs_proposer_signature (sb_signature sb)) = Inr ()"
    by (simp add: v simple_gossip_verifier_def simple_verify_block_def Let_def)
  have agg: "gossip_proofs_ok ?v (zip ?atts ?proofs) \<longleftrightarrow>
      (\<forall>(att, proof) \<in> set (zip ?atts ?proofs). ap_participants proof = att_bits att) \<and>
      (\<forall>i < length ?atts. attestation_verified L Q (st_validators s) (?atts ! i) (?proofs ! i))"
    if "length ?atts = length ?proofs"
    using that by (auto simp: gossip_proofs_ok_iff v simple_gossip_verifier_def simple_verify_attestation_iff
        set_zip)
  show ?thesis
    unfolding gossip_block_ok_def validate_basic_iff pq_verify_signed_block_iff Let_def
    using sig agg set_bits_single [of "att_bits ?pa" "unat (b_proposer_index ?block)"] by auto
qed


lemma decoded_Inr: "decoded r P = Inr True \<longleftrightarrow> (\<exists>x. r = Inr x \<and> P x)"
  by (auto simp: decoded_def ok_value_def and_then_eq_Inr split: sum.splits if_splits option.splits)

lemma decoded_graceful: "graceful r \<Longrightarrow> graceful (decoded r P)"
  by (auto simp: decoded_def ok_value_def graceful_def split: sum.splits)

lemma decoded_panic: "decoded (Inl Panic) P = Inl Panic"
  by (simp add: decoded_def ok_value_def)

lemma graceful_wrap: "graceful r \<Longrightarrow> graceful (and_then r (\<lambda>x. Inr (f x)))"
  by (rule graceful_and_then) simp_all

section \<open>Properties\<close>

text \<open>
  C8 (gossip admits exactly the blocks import can verify). With the verifier built from the
  validators of a state, \<^verbatim>\<open>validate_gossip\<close> accepts a block payload exactly when it decodes
  to a signed block that passes the structural check and the signature check of
  \<^verbatim>\<open>process_signed_block\<close> on that state: the bit-by-bit scan over participants of the one
  and the set-bit scan of the other select the same keys in the same order.
\<close>

theorem gossip_block_matches_import:
  assumes "st_validators s \<noteq> []"
  shows "validate_gossip L KindBlock payload (verifier_from_validators L Q (st_validators s)) = Inr True \<longleftrightarrow>
    (\<exists>sb. signed_block_decode_checked L payload = Inr sb \<and> validate_basic sb = Inr () \<and>
      pq_verify_signed_block L Q sb s = Inr ())"
  by (auto simp: decoded_Inr gossip_block_decode_checked_def and_then_eq_Inr gossip_block_ok_iff [OF assms])

lemma sample_next_checks:
  "validate_basic sample_next = Inr ()"
  "pq_verify_signed_block sample_lib sample_pq sample_next sample_state = Inr ()"
  using sample_accepted
  by (auto simp: process_signed_block_def process_signed_block_with_verifier_def and_then_eq_Inr
      split: sum.splits)

lemma sample_next_valid: "signed_block_valid sample_lib sample_next"
proof -
  have bwa: "block_with_attestation_valid sample_lib (sb_message sample_next)"
    using sample_seq_roundtrip
    by (auto simp: block_with_attestation_valid_def block_body_valid_def sample_next_def
        VALIDATOR_REGISTRY_LIMIT_def intro: exI [of _ "Suc 0"])
  have "offset_fits (block_with_attestation_encode sample_lib (sb_message sample_next))"
    by (simp add: offset_fits_def sample_next_def codec_simps single_set_bit_proposer_bits sample_seq_def)
  then show ?thesis
    using bwa sample_seq_roundtrip by (auto simp: signed_block_valid_def proofs_valid_def sample_next_def)
qed

theorem gossip_block_matches_import_witness:
  "\<exists>payload. signed_block_encode sample_lib sample_next = Inr payload \<and>
     validate_gossip sample_lib KindBlock payload
       (verifier_from_validators sample_lib sample_pq (st_validators sample_state)) = Inr True"
proof -
  obtain payload where "signed_block_encode sample_lib sample_next = Inr payload"
    using signed_block_checked.enc_defined [OF sample_next_valid] by blast
  moreover from this have "signed_block_decode_checked sample_lib payload = Inr sample_next"
    by (rule signed_block_checked.dec_of_enc [OF sample_next_valid])
  moreover have "st_validators sample_state \<noteq> []" by (simp add: sample_state_def)
  ultimately show ?thesis using gossip_block_matches_import sample_next_checks by blast
qed

text \<open>
  C35 (which gossip payloads can bring the validator down). On every payload and with every
  verifier, header, attestation and exit payloads are accepted or refused; the 132 bytes of
  an aggregated attestation whose proof is empty are a panic, because the proof is read by
  the trusting decoder.
\<close>

theorem gossip_validation_panics:
  "graceful (validate_gossip L KindBlockHeader payload v) \<and>
   graceful (validate_gossip L KindAttestation payload v) \<and>
   graceful (validate_gossip L KindVoluntaryExit payload v) \<and>
   validate_gossip L KindAggregatedAttestation (attestation_data_bytes d @ le32 132) v = Inl Panic"
proof -
  have "graceful (block_header_decode_checked payload)" "graceful (signed_attestation_decode_checked payload)"
    "graceful (voluntary_exit_decode_checked payload)"
    unfolding block_header_decode_checked_def signed_attestation_decode_checked_def voluntary_exit_decode_checked_def
    by (rule block_header_codec.checked_graceful signed_attestation_codec.checked_graceful
        voluntary_exit_codec.checked_graceful)+
  then show ?thesis
    by (simp add: decoded_graceful graceful_wrap gossip_block_header_decode_checked_def decoded_panic
        gossip_attestation_decode_checked_def gossip_aggregated_attestation_decode_checked_def
        checked_aggregate_decoder_can_panic)
qed

end
