(* ===== verification/GossipTopics.thy ===== *)
theory GossipTopics
  imports GossipVerify
begin

text \<open>
  Gossip topics and the decoding they select: \<^verbatim>\<open>src/networking/gossipsub/lean/topics.rs\<close>,
  \<^verbatim>\<open>src/networking/gossipsub/lean/message.rs\<close>, \<^verbatim>\<open>src/networking/gossipsub/error.rs\<close> and
  \<^verbatim>\<open>src/networking/gossipsub/mod.rs\<close>. The \<^verbatim>\<open>TopicHash\<close> of \<^verbatim>\<open>libp2p\<close> is the string it carries.
\<close>

section \<open>Topics\<close>

definition TOPIC_PREFIX :: string where "TOPIC_PREFIX = ''leanconsensus''"
definition ENCODING_POSTFIX :: string where "ENCODING_POSTFIX = ''ssz_snappy''"
definition LEAN_BLOCK_TOPIC :: string where "LEAN_BLOCK_TOPIC = ''block''"
definition LEAN_AGGREGATION_TOPIC :: string where "LEAN_AGGREGATION_TOPIC = ''aggregation''"
definition LEAN_ATTESTATION_SUBNET_PREFIX :: string where
  "LEAN_ATTESTATION_SUBNET_PREFIX = ''attestation_''"

lemmas topic_consts = TOPIC_PREFIX_def ENCODING_POSTFIX_def LEAN_BLOCK_TOPIC_def
  LEAN_AGGREGATION_TOPIC_def LEAN_ATTESTATION_SUBNET_PREFIX_def

datatype lean_gossip_topic_kind =
  TopicBlock | TopicAggregatedAttestation | TopicAttestationSubnet u64

record lean_gossip_topic =
  gt_fork :: string
  gt_kind :: lean_gossip_topic_kind

datatype gossipsub_error = InvalidTopic string | DecodeError error

fun topic_kind_display :: "lean_gossip_topic_kind \<Rightarrow> string" where
  "topic_kind_display TopicBlock = LEAN_BLOCK_TOPIC"
| "topic_kind_display TopicAggregatedAttestation = LEAN_AGGREGATION_TOPIC"
| "topic_kind_display (TopicAttestationSubnet subnet_id) =
     LEAN_ATTESTATION_SUBNET_PREFIX @ show_u64 subnet_id"

definition topic_display :: "lean_gossip_topic \<Rightarrow> string" where
  "topic_display t =
     (let topic_name = (case gt_kind t of
            TopicBlock \<Rightarrow> LEAN_BLOCK_TOPIC
          | TopicAggregatedAttestation \<Rightarrow> LEAN_AGGREGATION_TOPIC
          | TopicAttestationSubnet subnet_id \<Rightarrow> LEAN_ATTESTATION_SUBNET_PREFIX @ show_u64 subnet_id)
      in ''/'' @ TOPIC_PREFIX @ ''/'' @ gt_fork t @ ''/'' @ topic_name @ ''/'' @ ENCODING_POSTFIX)"

definition topic_hash :: "lean_gossip_topic \<Rightarrow> string" where
  "topic_hash t =
     (let kind_str = (case gt_kind t of
            TopicBlock \<Rightarrow> LEAN_BLOCK_TOPIC
          | TopicAggregatedAttestation \<Rightarrow> LEAN_AGGREGATION_TOPIC
          | TopicAttestationSubnet subnet_id \<Rightarrow> LEAN_ATTESTATION_SUBNET_PREFIX @ show_u64 subnet_id)
      in ''/'' @ TOPIC_PREFIX @ ''/'' @ gt_fork t @ ''/'' @ kind_str @ ''/'' @ ENCODING_POSTFIX)"

definition from_topic_hash :: "string \<Rightarrow> gossipsub_error + lean_gossip_topic" where
  "from_topic_hash topic =
     (let topic_parts = split_on (CHR ''/'') (trim_start_char (CHR ''/'') topic) in
      if length topic_parts \<noteq> 4 \<or> topic_parts ! 0 \<noteq> TOPIC_PREFIX \<or> topic_parts ! 3 \<noteq> ENCODING_POSTFIX
      then Inl (InvalidTopic ''Invalid topic format: {topic:?}'')
      else
        let fork = topic_parts ! 1;
            topic_name = topic_parts ! 2;
            ok = (\<lambda>kind. Inr \<lparr>gt_fork = fork, gt_kind = kind\<rparr>)
        in if topic_name = LEAN_BLOCK_TOPIC then ok TopicBlock
           else if topic_name = LEAN_AGGREGATION_TOPIC then ok TopicAggregatedAttestation
           else if prefix LEAN_ATTESTATION_SUBNET_PREFIX topic_name
           then
             let subnet_str = trim_start_pattern LEAN_ATTESTATION_SUBNET_PREFIX topic_name in
             (case parse_u64 subnet_str of
                None \<Rightarrow> Inl (InvalidTopic ''Invalid attestation subnet id: {subnet_str:?}, error: {err}'')
              | Some subnet_id \<Rightarrow> ok (TopicAttestationSubnet subnet_id))
           else Inl (InvalidTopic ''Invalid topic: {other:?}''))"

definition kind_from_topic_hash :: "string \<Rightarrow> gossipsub_error + gossip_validator_kind" where
  "kind_from_topic_hash topic =
     (case from_topic_hash topic of
        Inl e \<Rightarrow> Inl e
      | Inr t \<Rightarrow> (case gt_kind t of
            TopicBlock \<Rightarrow> Inr KindBlock
          | TopicAggregatedAttestation \<Rightarrow> Inr KindAggregatedAttestation
          | TopicAttestationSubnet _ \<Rightarrow> Inr KindAttestation))"

section \<open>Messages\<close>

datatype lean_gossipsub_message =
    GossipBlockMsg gossip_block
  | GossipAttestationSubnetMsg u64 gossip_attestation
  | GossipAggregatedMsg gossip_aggregated_attestation

text \<open>\<^verbatim>\<open>map_err(GossipsubError::from)\<close>: an error string becomes a decode error, a panic stays
  one.\<close>

definition decode_err :: "('a \<Rightarrow> 'b) \<Rightarrow> 'a result \<Rightarrow> (gossipsub_error + 'b) result" where
  "decode_err f r =
     (case r of
        Inr x \<Rightarrow> Inr (Inr (f x))
      | Inl e \<Rightarrow> if e \<in> {Panic, UB, Diverge} then Inl e else Inr (Inl (DecodeError e)))"

definition lean_gossipsub_decode ::
    "ssz_lib \<Rightarrow> string \<Rightarrow> u8 list \<Rightarrow> (gossipsub_error + lean_gossipsub_message) result" where
  "lean_gossipsub_decode L topic data =
     (case from_topic_hash topic of
        Inl e \<Rightarrow> Inr (Inl e)
      | Inr t \<Rightarrow> (case gt_kind t of
            TopicBlock \<Rightarrow> decode_err GossipBlockMsg (gossip_block_decode_checked L data)
          | TopicAggregatedAttestation \<Rightarrow>
              decode_err GossipAggregatedMsg (gossip_aggregated_attestation_decode_checked L data)
          | TopicAttestationSubnet subnet_id \<Rightarrow>
              decode_err (GossipAttestationSubnetMsg subnet_id) (gossip_attestation_decode_checked data)))"

section \<open>Parsing what was printed\<close>

lemma topic_hash_eq: "topic_hash t = topic_display t"
  by (simp add: topic_hash_def topic_display_def)

lemma topic_display_kind:
  "topic_display t =
     ''/'' @ TOPIC_PREFIX @ ''/'' @ gt_fork t @ ''/'' @ topic_kind_display (gt_kind t) @ ''/'' @ ENCODING_POSTFIX"
  by (cases "gt_kind t") (simp_all add: topic_display_def)

lemma topic_kind_no_slash: "CHR ''/'' \<notin> set (topic_kind_display k)"
  by (cases k) (simp_all add: topic_consts show_u64_def show_nat_no_char)

lemma split_topic_display:
  assumes "CHR ''/'' \<notin> set (gt_fork t)"
  shows "split_on (CHR ''/'') (trim_start_char (CHR ''/'') (topic_display t)) =
    [TOPIC_PREFIX, gt_fork t, topic_kind_display (gt_kind t), ENCODING_POSTFIX]"
proof -
  have "trim_start_char (CHR ''/'') (topic_display t) =
      TOPIC_PREFIX @ CHR ''/'' # gt_fork t @ CHR ''/'' # topic_kind_display (gt_kind t) @
        CHR ''/'' # ENCODING_POSTFIX"
    by (simp add: topic_display_kind TOPIC_PREFIX_def)
  moreover have "CHR ''/'' \<notin> set TOPIC_PREFIX" "CHR ''/'' \<notin> set ENCODING_POSTFIX"
    by (simp_all add: topic_consts)
  ultimately show ?thesis
    using assms topic_kind_no_slash [of "gt_kind t"] by (simp add: split_on_append_sep split_on_no_sep)
qed

lemma show_nat_no_prefix: "\<not> prefix LEAN_ATTESTATION_SUBNET_PREFIX (show_nat n)"
proof
  assume "prefix LEAN_ATTESTATION_SUBNET_PREFIX (show_nat n)"
  then have "CHR ''a'' \<in> set (show_nat n)"
    by (auto simp: prefix_def LEAN_ATTESTATION_SUBNET_PREFIX_def)
  moreover have "CHR ''a'' \<notin> set (show_nat n)" by (rule show_nat_no_char) simp
  ultimately show False by simp
qed

lemma subnet_parse:
  "parse_u64 (trim_start_pattern LEAN_ATTESTATION_SUBNET_PREFIX
     (LEAN_ATTESTATION_SUBNET_PREFIX @ show_u64 w)) = Some w"
proof -
  have "LEAN_ATTESTATION_SUBNET_PREFIX \<noteq> []" by (simp add: LEAN_ATTESTATION_SUBNET_PREFIX_def)
  then show ?thesis
    by (simp add: trim_start_pattern_prefix trim_start_pattern_stop show_u64_def show_nat_no_prefix)
      (simp add: parse_show_u64 flip: show_u64_def)
qed

lemma from_topic_display:
  assumes "CHR ''/'' \<notin> set (gt_fork t)"
  shows "from_topic_hash (topic_display t) = Inr t"
proof (cases "gt_kind t")
  case (TopicAttestationSubnet w)
  have "LEAN_ATTESTATION_SUBNET_PREFIX @ show_u64 w \<noteq> LEAN_BLOCK_TOPIC"
    "LEAN_ATTESTATION_SUBNET_PREFIX @ show_u64 w \<noteq> LEAN_AGGREGATION_TOPIC"
    by (simp_all add: topic_consts)
  then show ?thesis
    using TopicAttestationSubnet
    by (simp add: from_topic_hash_def split_topic_display [OF assms] subnet_parse)
qed (simp_all add: from_topic_hash_def split_topic_display [OF assms] topic_consts)

section \<open>Properties\<close>

text \<open>The kind, the encodability and the payload of a message.\<close>

fun message_kind :: "lean_gossipsub_message \<Rightarrow> lean_gossip_topic_kind" where
  "message_kind (GossipBlockMsg g) = TopicBlock"
| "message_kind (GossipAttestationSubnetMsg subnet_id g) = TopicAttestationSubnet subnet_id"
| "message_kind (GossipAggregatedMsg g) = TopicAggregatedAttestation"

fun message_valid :: "ssz_lib \<Rightarrow> lean_gossipsub_message \<Rightarrow> bool" where
  "message_valid L (GossipBlockMsg g) = signed_block_valid L (gb_block g)"
| "message_valid L (GossipAttestationSubnetMsg subnet_id g) = True"
| "message_valid L (GossipAggregatedMsg g) = proof_valid L (saa_proof (gaa_attestation g))"

fun message_payload :: "ssz_lib \<Rightarrow> lean_gossipsub_message \<Rightarrow> u8 list result" where
  "message_payload L (GossipBlockMsg g) = gossip_block_encode L g"
| "message_payload L (GossipAttestationSubnetMsg subnet_id g) = gossip_attestation_encode g"
| "message_payload L (GossipAggregatedMsg g) = gossip_aggregated_attestation_encode L g"

text \<open>
  C31 (gossip messages survive the topic and the payload). A message published under the
  topic string of its kind is decoded to the same message, the subnet number included: the
  printed topic parses back to its fork and kind, and that kind selects the decoder of the
  payload. The fork name must not contain a slash.
\<close>

theorem gossip_message_roundtrip:
  assumes "CHR ''/'' \<notin> set fork" "message_valid L m"
  shows "\<exists>payload. message_payload L m = Inr payload \<and>
    from_topic_hash (topic_hash \<lparr>gt_fork = fork, gt_kind = message_kind m\<rparr>) =
      Inr \<lparr>gt_fork = fork, gt_kind = message_kind m\<rparr> \<and>
    lean_gossipsub_decode L (topic_hash \<lparr>gt_fork = fork, gt_kind = message_kind m\<rparr>) payload = Inr (Inr m)"
proof -
  let ?t = "\<lparr>gt_fork = fork, gt_kind = message_kind m\<rparr>"
  have t: "from_topic_hash (topic_hash ?t) = Inr ?t"
    using assms(1) by (simp add: topic_hash_eq from_topic_display)
  show ?thesis
  proof (cases m)
    case (GossipBlockMsg g)
    then have v: "signed_block_valid L (gb_block g)" using assms(2) by simp
    then show ?thesis
      using t GossipBlockMsg signed_block_checked.enc_defined [OF v] signed_block_checked.dec_of_enc [OF v]
      by (auto simp: lean_gossipsub_decode_def decode_err_def gossip_block_encode_def gossip_block_decode_checked_def)
  next
    case (GossipAttestationSubnetMsg w g)
    obtain bs where e: "signed_attestation_encode (ga_attestation g) = Inr bs"
      using signed_attestation_codec.enc_total [of "ga_attestation g"] by blast
    then have "signed_attestation_decode_checked bs = Inr (ga_attestation g)"
      unfolding signed_attestation_decode_checked_def by (rule signed_attestation_codec.checked_iff [THEN iffD2])
    with e show ?thesis
      using t GossipAttestationSubnetMsg
      by (simp add: lean_gossipsub_decode_def decode_err_def gossip_attestation_encode_def
          gossip_attestation_decode_checked_def)
  next
    case (GossipAggregatedMsg g)
    then have v: "proof_valid L (saa_proof (gaa_attestation g))" using assms(2) by simp
    then show ?thesis
      using t GossipAggregatedMsg signed_aggregated_attestation_checked.enc_defined [where x = "gaa_attestation g", OF v]
        signed_aggregated_attestation_checked.dec_of_enc [where x = "gaa_attestation g", OF v]
      by (auto simp: lean_gossipsub_decode_def decode_err_def gossip_aggregated_attestation_encode_def
          gossip_aggregated_attestation_decode_checked_def)
  qed
qed

theorem gossip_message_roundtrip_witness:
  "topic_hash \<lparr>gt_fork = ''devnet0'', gt_kind = TopicBlock\<rparr> = ''/leanconsensus/devnet0/block/ssz_snappy'' \<and>
   (\<exists>payload. gossip_block_encode sample_lib \<lparr>gb_block = sample_next\<rparr> = Inr payload \<and>
     lean_gossipsub_decode sample_lib ''/leanconsensus/devnet0/block/ssz_snappy'' payload =
       Inr (Inr (GossipBlockMsg \<lparr>gb_block = sample_next\<rparr>)))"
proof -
  have "topic_hash \<lparr>gt_fork = ''devnet0'', gt_kind = TopicBlock\<rparr> = ''/leanconsensus/devnet0/block/ssz_snappy''"
    by (simp add: topic_hash_def topic_consts)
  then show ?thesis
    using gossip_message_roundtrip [of "''devnet0''" sample_lib "GossipBlockMsg \<lparr>gb_block = sample_next\<rparr>"]
      sample_next_valid by auto
qed

text \<open>Parsing is not injective: a repeated prefix and a plus sign are accepted.\<close>

lemma subnet_topic_aliases:
  "from_topic_hash ''/leanconsensus/f/attestation_attestation_+5/ssz_snappy'' =
     Inr \<lparr>gt_fork = ''f'', gt_kind = TopicAttestationSubnet 5\<rparr>"
proof -
  have "trim_start_pattern LEAN_ATTESTATION_SUBNET_PREFIX ''attestation_attestation_+5'' = ''+5''"
    using trim_start_pattern_prefix [of LEAN_ATTESTATION_SUBNET_PREFIX "''attestation_+5''"]
      trim_start_pattern_prefix [of LEAN_ATTESTATION_SUBNET_PREFIX "''+5''"]
      trim_start_pattern_stop [of LEAN_ATTESTATION_SUBNET_PREFIX "''+5''"]
    by (simp add: LEAN_ATTESTATION_SUBNET_PREFIX_def)
  moreover have "parse_u64 ''+5'' = Some 5" by (simp add: parse_u64_def digit_value_def)
  ultimately show ?thesis by (simp add: from_topic_hash_def topic_consts)
qed

end
