(* ===== verification/GossipContext.thy ===== *)
theory GossipContext
  imports GossipTopics FileStore SampleDb
begin

text \<open>
  Slot and ancestry checks on decoded gossip messages: \<^verbatim>\<open>src/networking/gossipsub/validate.rs\<close>
  and the context they consult, \<^verbatim>\<open>src/networking/gossipsub/context.rs\<close>, with its cache of recent
  block roots. Locks are not modelled: a validator sees one state and one store. Looking a
  block up in the store decodes it, so the lookup is a result.
\<close>

section \<open>Validators\<close>

datatype validation_result = Accept | Ignore string | Reject string

definition UNKNOWN_CHAIN_ROOTS_IGNORE_REASON :: string where
  "UNKNOWN_CHAIN_ROOTS_IGNORE_REASON = ''attestation references unknown chain roots''"

definition is_retryable_unknown_roots_ignore :: "string \<Rightarrow> bool" where
  "is_retryable_unknown_roots_ignore reason \<longleftrightarrow> reason = UNKNOWN_CHAIN_ROOTS_IGNORE_REASON"

text \<open>The trait \<^verbatim>\<open>GossipContext\<close>.\<close>

record gossip_context =
  ctx_current_slot :: "slot option"
  ctx_finalized_slot :: "slot option"
  ctx_knows_block_root :: "bytes32 \<Rightarrow> bool result"

definition noop_gossip_context :: gossip_context where
  "noop_gossip_context = \<lparr>ctx_current_slot = None, ctx_finalized_slot = None,
     ctx_knows_block_root = (\<lambda>root. Inr True)\<rparr>"

text \<open>The committee count is a runtime setting, read as at least one.\<close>

definition attestation_committee_count :: "u64 \<Rightarrow> u64" where
  "attestation_committee_count setting = max setting 1"

definition set_attestation_committee_count :: "u64 \<Rightarrow> u64" where
  "set_attestation_committee_count cnt = max cnt 1"

definition validate_attestation_fields :: "attestation_data \<Rightarrow> u64 option \<Rightarrow> validation_result" where
  "validate_attestation_fields data max_slot =
     (if cp_slot (ad_target data) < cp_slot (ad_source data) then Reject ''attestation target below source''
      else if cp_slot (ad_head data) < cp_slot (ad_target data) then Reject ''attestation head below target''
      else if ad_slot data < cp_slot (ad_head data) then Reject ''attestation slot below head slot''
      else case max_slot of
          Some m \<Rightarrow> if ad_slot data > m then Ignore ''attestation from future slot'' else Accept
        | None \<Rightarrow> Accept)"

fun validate_body_attestations :: "u64 \<Rightarrow> attestation list \<Rightarrow> validation_result" where
  "validate_body_attestations max_slot [] = Accept"
| "validate_body_attestations max_slot (att # atts) =
     (let res = validate_attestation_fields (att_data att) (Some max_slot) in
      if res \<noteq> Accept then res else validate_body_attestations max_slot atts)"

definition validate_block_basic :: "signed_block \<Rightarrow> validation_result" where
  "validate_block_basic sb =
     (let message = sb_message sb; proposer_attestation = bwa_proposer_attestation message in
      if ad_slot (att_data proposer_attestation) \<noteq> b_slot (bwa_block message)
      then Reject ''proposer attestation slot mismatch''
      else validate_body_attestations (b_slot (bwa_block message)) (bb_attestations (b_body (bwa_block message))))"

definition bitlist_has_any_set :: "bitlist \<Rightarrow> bool" where
  "bitlist_has_any_set bits = list_ex (\<lambda>byte. byte \<noteq> 0) (bl_data bits)"

definition validate_aggregated_attestation_basic :: "signed_aggregated_attestation \<Rightarrow> validation_result" where
  "validate_aggregated_attestation_basic a =
     (if \<not> bitlist_has_any_set (ap_participants (saa_proof a))
      then Reject ''aggregated attestation has no participant bits set''
      else validate_attestation_fields (saa_data a) None)"

definition validate_subnet_attestation_basic :: "u64 \<Rightarrow> u64 \<Rightarrow> signed_attestation \<Rightarrow> validation_result" where
  "validate_subnet_attestation_basic setting subnet_id a =
     (let committee_count = attestation_committee_count setting;
          expected_subnet = (if committee_count \<le> 1 then 0 else sa_validator_id a mod committee_count)
      in if expected_subnet \<noteq> subnet_id then Reject ''attestation published on wrong subnet''
         else validate_attestation_fields (sa_message a) None)"

fun validate_basic_message :: "u64 \<Rightarrow> lean_gossipsub_message \<Rightarrow> validation_result" where
  "validate_basic_message setting (GossipBlockMsg g) = validate_block_basic (gb_block g)"
| "validate_basic_message setting (GossipAggregatedMsg g) =
     validate_aggregated_attestation_basic (gaa_attestation g)"
| "validate_basic_message setting (GossipAttestationSubnetMsg subnet_id g) =
     validate_subnet_attestation_basic setting subnet_id (ga_attestation g)"

definition validate_block_with_context :: "signed_block \<Rightarrow> gossip_context \<Rightarrow> validation_result result" where
  "validate_block_with_context sb context =
     (let block = bwa_block (sb_message sb) in
      and_then (ctx_knows_block_root context (b_parent_root block)) (\<lambda>parent_known.
      Inr (if \<not> parent_known then Ignore ''block parent root unknown locally''
           else if (case ctx_finalized_slot context of Some f \<Rightarrow> b_slot block \<le> f | None \<Rightarrow> False)
           then Ignore ''block at or before finalized slot''
           else if (case ctx_current_slot context of Some c \<Rightarrow> b_slot block > c + 1 | None \<Rightarrow> False)
           then Ignore ''block from future slot''
           else
             let proposer_check = validate_attestation_fields
                   (att_data (bwa_proposer_attestation (sb_message sb))) (Some (b_slot block))
             in if proposer_check \<noteq> Accept then proposer_check else Accept)))"

definition validate_attestation_data_with_context ::
    "attestation_data \<Rightarrow> gossip_context \<Rightarrow> validation_result result" where
  "validate_attestation_data_with_context msg context =
     (if cp_slot (ad_target msg) < cp_slot (ad_source msg)
      then Inr (Reject ''attestation target below source'')
      else if cp_slot (ad_head msg) < cp_slot (ad_target msg)
      then Inr (Reject ''attestation head below target'')
      else
        and_then (ctx_knows_block_root context (cp_root (ad_head msg))) (\<lambda>knows_head.
        and_then (ctx_knows_block_root context (cp_root (ad_source msg))) (\<lambda>knows_source.
        and_then (ctx_knows_block_root context (cp_root (ad_target msg))) (\<lambda>knows_target.
        Inr (if \<not> knows_head \<or> \<not> knows_source \<or> \<not> knows_target
             then Ignore UNKNOWN_CHAIN_ROOTS_IGNORE_REASON
             else if (case ctx_current_slot context of Some c \<Rightarrow> ad_slot msg > c + 1 | None \<Rightarrow> False)
             then Ignore ''attestation from future slot''
             else if (case ctx_finalized_slot context of Some f \<Rightarrow> cp_slot (ad_source msg) < f | None \<Rightarrow> False)
             then Ignore ''attestation source before finalized slot''
             else Accept)))))"

definition validate_attestation_with_context ::
    "signed_attestation \<Rightarrow> gossip_context \<Rightarrow> validation_result result" where
  "validate_attestation_with_context a context =
     validate_attestation_data_with_context (sa_message a) context"

definition validate_aggregated_attestation_with_context ::
    "signed_aggregated_attestation \<Rightarrow> gossip_context \<Rightarrow> validation_result result" where
  "validate_aggregated_attestation_with_context a context =
     (let basic = validate_aggregated_attestation_basic a in
      if basic \<noteq> Accept then Inr basic else validate_attestation_data_with_context (saa_data a) context)"

definition validate_subnet_attestation_with_context ::
    "u64 \<Rightarrow> u64 \<Rightarrow> signed_attestation \<Rightarrow> gossip_context \<Rightarrow> validation_result result" where
  "validate_subnet_attestation_with_context setting subnet_id a context =
     (let basic = validate_subnet_attestation_basic setting subnet_id a in
      if basic \<noteq> Accept then Inr basic else validate_attestation_with_context a context)"

fun validate_with_context ::
    "u64 \<Rightarrow> lean_gossipsub_message \<Rightarrow> gossip_context \<Rightarrow> validation_result result" where
  "validate_with_context setting (GossipBlockMsg g) context =
     validate_block_with_context (gb_block g) context"
| "validate_with_context setting (GossipAggregatedMsg g) context =
     validate_aggregated_attestation_with_context (gaa_attestation g) context"
| "validate_with_context setting (GossipAttestationSubnetMsg subnet_id g) context =
     validate_subnet_attestation_with_context setting subnet_id (ga_attestation g) context"

section \<open>The cache of recent roots\<close>

definition RECENT_ROOT_CACHE_LEN :: nat where "RECENT_ROOT_CACHE_LEN = 200"

record context_snapshot =
  cs_latest_header_root :: bytes32
  cs_latest_header_slot :: u64
  cs_latest_justified_root :: bytes32
  cs_latest_justified_slot :: u64
  cs_latest_finalized_root :: bytes32
  cs_latest_finalized_slot :: u64
  cs_state_slot :: u64

definition snapshot_from_state :: "ssz_lib \<Rightarrow> state \<Rightarrow> context_snapshot" where
  "snapshot_from_state L s = \<lparr>
     cs_latest_header_root = block_header_root L (st_latest_block_header s),
     cs_latest_header_slot = bh_slot (st_latest_block_header s),
     cs_latest_justified_root = cp_root (st_latest_justified s),
     cs_latest_justified_slot = cp_slot (st_latest_justified s),
     cs_latest_finalized_root = cp_root (st_latest_finalized s),
     cs_latest_finalized_slot = cp_slot (st_latest_finalized s),
     cs_state_slot = st_slot s\<rparr>"

definition knows_direct_root :: "context_snapshot \<Rightarrow> bytes32 \<Rightarrow> bool" where
  "knows_direct_root snap root \<longleftrightarrow>
     root = cs_latest_header_root snap \<or> root = cs_latest_justified_root snap \<or>
     root = cs_latest_finalized_root snap"

record recent_root_entry =
  re_slot :: u64
  re_root :: bytes32

record recent_root_cache =
  rc_entries :: "recent_root_entry option list"
  rc_latest_header_slot :: u64
  rc_state_slot :: u64

definition recent_root_cache_default :: recent_root_cache where
  "recent_root_cache_default = \<lparr>rc_entries = replicate RECENT_ROOT_CACHE_LEN None,
     rc_latest_header_slot = - 1, rc_state_slot = - 1\<rparr>"

definition cache_insert :: "recent_root_cache \<Rightarrow> u64 \<Rightarrow> bytes32 \<Rightarrow> recent_root_cache" where
  "cache_insert c slot root =
     (let idx = unat slot mod RECENT_ROOT_CACHE_LEN in
      c\<lparr>rc_entries := (rc_entries c)[idx := Some \<lparr>re_slot = slot, re_root = root\<rparr>]\<rparr>)"

text \<open>The loop over the historical roots from index \<open>slot\<close> on.\<close>

fun insert_historical :: "recent_root_cache \<Rightarrow> nat \<Rightarrow> bytes32 list \<Rightarrow> recent_root_cache" where
  "insert_historical c slot [] = c"
| "insert_historical c slot (root # roots) =
     (if root = zero_root then insert_historical c (Suc slot) roots
      else insert_historical (cache_insert c (of_nat slot) root) (Suc slot) roots)"

definition refresh_from_state :: "ssz_lib \<Rightarrow> recent_root_cache \<Rightarrow> state \<Rightarrow> recent_root_cache" where
  "refresh_from_state L c s =
     (let latest_header_slot = bh_slot (st_latest_block_header s); state_slot = st_slot s in
      if rc_latest_header_slot c = latest_header_slot \<and> rc_state_slot c = state_slot then c
      else
        let c = c\<lparr>rc_entries := replicate RECENT_ROOT_CACHE_LEN None\<rparr>;
            latest_header_root = block_header_root L (st_latest_block_header s);
            c = cache_insert c latest_header_slot latest_header_root;
            historical = st_historical_block_hashes s;
            start = length historical - RECENT_ROOT_CACHE_LEN;
            c = insert_historical c start (drop start historical)
        in c\<lparr>rc_latest_header_slot := latest_header_slot, rc_state_slot := state_slot\<rparr>)"

definition cache_contains :: "recent_root_cache \<Rightarrow> bytes32 \<Rightarrow> bool" where
  "cache_contains c root =
     list_ex (\<lambda>entry. case entry of None \<Rightarrow> False | Some e \<Rightarrow>
       re_root e = root \<and> rc_entries c ! (unat (re_slot e) mod RECENT_ROOT_CACHE_LEN) \<noteq> None)
       (rc_entries c)"

section \<open>The context of a running node\<close>

record 'db state_gossip_context =
  sgc_state :: state
  sgc_slot_clock :: "u64 option"
  sgc_store :: "'db file_store option"
  sgc_recent_roots :: recent_root_cache

definition state_gossip_context_new :: "state \<Rightarrow> 'db state_gossip_context" where
  "state_gossip_context_new s = \<lparr>sgc_state = s, sgc_slot_clock = None, sgc_store = None,
     sgc_recent_roots = recent_root_cache_default\<rparr>"

definition with_slot_clock :: "state \<Rightarrow> u64 \<Rightarrow> 'db state_gossip_context" where
  "with_slot_clock s clock = \<lparr>sgc_state = s, sgc_slot_clock = Some clock, sgc_store = None,
     sgc_recent_roots = recent_root_cache_default\<rparr>"

definition with_slot_clock_and_store ::
    "state \<Rightarrow> u64 \<Rightarrow> 'db file_store \<Rightarrow> 'db state_gossip_context" where
  "with_slot_clock_and_store s clock fs = \<lparr>sgc_state = s, sgc_slot_clock = Some clock, sgc_store = Some fs,
     sgc_recent_roots = recent_root_cache_default\<rparr>"

text \<open>\<open>now\<close> is the answer of \<^verbatim>\<open>unix_now_millis\<close>.\<close>

definition context_current_slot :: "u128 option \<Rightarrow> 'db state_gossip_context \<Rightarrow> slot option" where
  "context_current_slot now ctx =
     (case sgc_slot_clock ctx of
        Some clock \<Rightarrow> Some clock
      | None \<Rightarrow> (case now of
            None \<Rightarrow> None
          | Some now \<Rightarrow>
              Some (slot_index_from_unix_millis (genesis_time (st_config (sgc_state ctx))) now)))"

definition context_finalized_slot :: "'db state_gossip_context \<Rightarrow> slot option" where
  "context_finalized_slot ctx = Some (cp_slot (st_latest_finalized (sgc_state ctx)))"

definition knows_block_root_cold ::
    "('db, 'tx) redb \<Rightarrow> ssz_lib \<Rightarrow> 'db state_gossip_context \<Rightarrow> bytes32 \<Rightarrow> bool result" where
  "knows_block_root_cold R L ctx root =
     (case sgc_store ctx of
        None \<Rightarrow> Inr False
      | Some fs \<Rightarrow> and_then (fs_get_block R L fs root) (\<lambda>b. Inr (b \<noteq> None)))"

definition knows_block_root ::
    "('db, 'tx) redb \<Rightarrow> ssz_lib \<Rightarrow> 'db state_gossip_context \<Rightarrow> bytes32 \<Rightarrow>
     (bool \<times> 'db state_gossip_context) result" where
  "knows_block_root R L ctx root =
     (if root = zero_root then Inr (True, ctx)
      else if knows_direct_root (snapshot_from_state L (sgc_state ctx)) root then Inr (True, ctx)
      else
        let recent_roots = refresh_from_state L (sgc_recent_roots ctx) (sgc_state ctx);
            ctx = ctx\<lparr>sgc_recent_roots := recent_roots\<rparr>
        in if cache_contains recent_roots root then Inr (True, ctx)
           else and_then (knows_block_root_cold R L ctx root) (\<lambda>hit. Inr (hit, ctx)))"

section \<open>The cache holds the recent history\<close>

definition cache_wf :: "recent_root_cache \<Rightarrow> bool" where
  "cache_wf c \<longleftrightarrow> length (rc_entries c) = RECENT_ROOT_CACHE_LEN \<and>
     (\<forall>i < RECENT_ROOT_CACHE_LEN. \<forall>e. rc_entries c ! i = Some e \<longrightarrow>
        unat (re_slot e) mod RECENT_ROOT_CACHE_LEN = i)"

definition cached_roots :: "recent_root_cache \<Rightarrow> bytes32 set" where
  "cached_roots c = {re_root e | e. Some e \<in> set (rc_entries c)}"

lemma cache_contains_iff: "cache_wf c \<Longrightarrow> cache_contains c r \<longleftrightarrow> r \<in> cached_roots c"
  by (force simp: cache_contains_def cached_roots_def cache_wf_def list_ex_iff in_set_conv_nth
      split: option.splits)

lemma cache_insert_wf: "cache_wf c \<Longrightarrow> cache_wf (cache_insert c s r)"
  by (auto simp: cache_wf_def cache_insert_def Let_def nth_list_update)

lemma insert_historical_wf: "cache_wf c \<Longrightarrow> cache_wf (insert_historical c i rs)"
  by (induction c i rs rule: insert_historical.induct) (auto simp: cache_insert_wf)

lemma cache_insert_sound: "cached_roots (cache_insert c s r) \<subseteq> insert r (cached_roots c)"
  by (auto simp: cached_roots_def cache_insert_def Let_def dest!: set_update_subset_insert [THEN subsetD])

lemma insert_historical_sound: "cached_roots (insert_historical c i rs) \<subseteq> cached_roots c \<union> set rs"
proof (induction c i rs rule: insert_historical.induct)
  case (2 c i r rs)
  then show ?case using cache_insert_sound [of c "of_nat i" r] by (auto split: if_splits)
qed simp

lemma mod_distinct: "0 < k \<Longrightarrow> k < 200 \<Longrightarrow> i mod 200 \<noteq> (i + k) mod 200" for i k :: nat
  using mod_eq_dvd_iff_nat [of i "i + k" 200] by (auto dest: dvd_imp_le)

lemma insert_historical_other:
  "(\<forall>k < length rs. p \<noteq> (i + k) mod RECENT_ROOT_CACHE_LEN) \<Longrightarrow> i + length rs < 2 ^ 64 \<Longrightarrow>
   rc_entries (insert_historical c i rs) ! p = rc_entries c ! p"
proof (induction c i rs rule: insert_historical.induct)
  case (2 c i r rs)
  have rest: "\<forall>k < length rs. p \<noteq> (Suc i + k) mod RECENT_ROOT_CACHE_LEN"
    using 2(3) by (auto dest: spec [where x = "Suc k" for k])
  have "p \<noteq> i mod RECENT_ROOT_CACHE_LEN" using 2(3) by (auto dest: spec [where x = 0])
  moreover have "unat (of_nat i :: u64) = i" using 2(4) by (simp add: unat_of_nat)
  ultimately show ?case using 2 rest by (simp add: cache_insert_def Let_def)
qed simp

lemma insert_historical_complete:
  assumes "cache_wf c" "length rs \<le> RECENT_ROOT_CACHE_LEN" "i + length rs < 2 ^ 64"
    "r \<in> set rs" "r \<noteq> zero_root"
  shows "r \<in> cached_roots (insert_historical c i rs)"
  using assms
proof (induction c i rs rule: insert_historical.induct)
  case (2 c i x rs)
  show ?case
  proof (cases "r \<in> set rs")
    case True
    then show ?thesis using 2 by (auto simp: cache_insert_wf)
  next
    case False
    then have x: "x = r" using 2(6) by simp
    let ?c = "cache_insert c (of_nat i) r" and ?p = "i mod RECENT_ROOT_CACHE_LEN"
    have u: "unat (of_nat i :: u64) = i" using 2(5) by (simp add: unat_of_nat)
    have "?p \<noteq> (Suc i + k) mod RECENT_ROOT_CACHE_LEN" if "k < length rs" for k
      using mod_distinct [of "Suc k" i] that 2(4) by (simp add: RECENT_ROOT_CACHE_LEN_def)
    then have "rc_entries (insert_historical ?c (Suc i) rs) ! ?p = rc_entries ?c ! ?p"
      using 2(5) by (intro insert_historical_other) auto
    also have "\<dots> = Some \<lparr>re_slot = of_nat i, re_root = r\<rparr>"
      using 2(3) by (simp add: cache_insert_def Let_def u cache_wf_def RECENT_ROOT_CACHE_LEN_def)
    finally have "Some \<lparr>re_slot = of_nat i, re_root = r\<rparr> \<in> set (rc_entries (insert_historical ?c (Suc i) rs))"
      using insert_historical_wf [OF cache_insert_wf [OF 2(3)], of "of_nat i" r "Suc i" rs]
      by (auto simp: in_set_conv_nth cache_wf_def RECENT_ROOT_CACHE_LEN_def intro!: exI [of _ ?p])
    then show ?thesis using x 2(7) by (force simp: cached_roots_def)
  qed
qed simp

text \<open>A cache answers for a state when it was built from that state or will be rebuilt: the code
  compares the slots of the header and of the state only.\<close>

definition rebuilt_cache :: "ssz_lib \<Rightarrow> state \<Rightarrow> recent_root_cache" where
  "rebuilt_cache L s =
     (let hist = st_historical_block_hashes s; start = length hist - RECENT_ROOT_CACHE_LEN in
      (insert_historical (cache_insert recent_root_cache_default (bh_slot (st_latest_block_header s))
         (block_header_root L (st_latest_block_header s))) start (drop start hist))
      \<lparr>rc_latest_header_slot := bh_slot (st_latest_block_header s), rc_state_slot := st_slot s\<rparr>)"

definition cache_fresh :: "ssz_lib \<Rightarrow> recent_root_cache \<Rightarrow> state \<Rightarrow> bool" where
  "cache_fresh L c s \<longleftrightarrow>
     rc_latest_header_slot c = bh_slot (st_latest_block_header s) \<and> rc_state_slot c = st_slot s \<longrightarrow>
     c = rebuilt_cache L s"

definition recent_history :: "state \<Rightarrow> bytes32 set" where
  "recent_history s =
     set (drop (length (st_historical_block_hashes s) - RECENT_ROOT_CACHE_LEN) (st_historical_block_hashes s))"

lemma insert_historical_keys:
  "rc_entries c = rc_entries c' \<Longrightarrow> rc_entries (insert_historical c i rs) = rc_entries (insert_historical c' i rs)"
proof (induction c i rs arbitrary: c' rule: insert_historical.induct)
  case (2 c i r rs)
  have "rc_entries (cache_insert c (of_nat i) r) = rc_entries (cache_insert c' (of_nat i) r)"
    using 2(3) by (simp add: cache_insert_def Let_def)
  then show ?case using 2 by simp
qed simp

lemma refresh_fresh:
  assumes "cache_fresh L c s"
  shows "refresh_from_state L c s = rebuilt_cache L s"
proof (cases "rc_latest_header_slot c = bh_slot (st_latest_block_header s) \<and> rc_state_slot c = st_slot s")
  case True
  then show ?thesis using assms by (simp add: cache_fresh_def refresh_from_state_def)
next
  case False
  show ?thesis
    unfolding refresh_from_state_def rebuilt_cache_def Let_def if_not_P [OF False]
    by (intro recent_root_cache.equality)
      (simp_all add: insert_historical_keys cache_insert_def recent_root_cache_default_def Let_def)
qed

lemma rebuilt_cache_fresh: "cache_fresh L (rebuilt_cache L s) s"
  by (simp add: cache_fresh_def)

lemma cached_roots_keys [simp]:
  "cached_roots (c\<lparr>rc_latest_header_slot := a\<rparr>) = cached_roots c"
  "cached_roots (c\<lparr>rc_state_slot := b\<rparr>) = cached_roots c"
  "cache_wf (c\<lparr>rc_latest_header_slot := a\<rparr>) = cache_wf c"
  "cache_wf (c\<lparr>rc_state_slot := b\<rparr>) = cache_wf c"
  by (simp_all add: cached_roots_def cache_wf_def)

lemma default_cache: "cache_wf recent_root_cache_default" "cached_roots recent_root_cache_default = {}"
  by (auto simp: cache_wf_def cached_roots_def recent_root_cache_default_def)

lemma rebuilt_cache_wf: "cache_wf (rebuilt_cache L s)"
  by (simp add: rebuilt_cache_def Let_def insert_historical_wf cache_insert_wf default_cache)

lemma rebuilt_cache_roots:
  assumes "length (st_historical_block_hashes s) < 2 ^ 64"
  shows "recent_history s - {zero_root} \<subseteq> cached_roots (rebuilt_cache L s)"
    and "cached_roots (rebuilt_cache L s) \<subseteq>
      insert (block_header_root L (st_latest_block_header s)) (recent_history s)"
proof -
  let ?hist = "st_historical_block_hashes s"
  let ?c = "cache_insert recent_root_cache_default (bh_slot (st_latest_block_header s))
      (block_header_root L (st_latest_block_header s))"
  let ?start = "length ?hist - RECENT_ROOT_CACHE_LEN"
  have wf: "cache_wf ?c" by (simp add: cache_insert_wf default_cache)
  have "r \<in> cached_roots (insert_historical ?c ?start (drop ?start ?hist))"
    if "r \<in> recent_history s" "r \<noteq> zero_root" for r
    using that assms by (intro insert_historical_complete [OF wf]) (auto simp: recent_history_def)
  then show "recent_history s - {zero_root} \<subseteq> cached_roots (rebuilt_cache L s)"
    by (auto simp: rebuilt_cache_def Let_def)
  show "cached_roots (rebuilt_cache L s) \<subseteq>
      insert (block_header_root L (st_latest_block_header s)) (recent_history s)"
    using insert_historical_sound [of ?c ?start "drop ?start ?hist"]
      cache_insert_sound [of recent_root_cache_default "bh_slot (st_latest_block_header s)"
        "block_header_root L (st_latest_block_header s)"]
    by (auto simp: rebuilt_cache_def Let_def recent_history_def default_cache)
qed

section \<open>Properties\<close>

definition later_than_finalized :: "gossip_context \<Rightarrow> slot \<Rightarrow> bool" where
  "later_than_finalized ctx slot \<longleftrightarrow> (\<forall>f. ctx_finalized_slot ctx = Some f \<longrightarrow> f < slot)"

definition not_future :: "gossip_context \<Rightarrow> slot \<Rightarrow> bool" where
  "not_future ctx slot \<longleftrightarrow> (\<forall>c. ctx_current_slot ctx = Some c \<longrightarrow> slot \<le> c + 1)"

definition ordered_vote :: "attestation_data \<Rightarrow> bool" where
  "ordered_vote d \<longleftrightarrow> cp_slot (ad_source d) \<le> cp_slot (ad_target d) \<and>
     cp_slot (ad_target d) \<le> cp_slot (ad_head d) \<and> cp_slot (ad_head d) \<le> ad_slot d"

definition vote_in_context :: "gossip_context \<Rightarrow> attestation_data \<Rightarrow> bool" where
  "vote_in_context ctx d \<longleftrightarrow> ordered_vote d \<and> not_future ctx (ad_slot d) \<and>
     (\<forall>cp \<in> {ad_head d, ad_source d, ad_target d}. ctx_knows_block_root ctx (cp_root cp) = Inr True) \<and>
     (\<forall>f. ctx_finalized_slot ctx = Some f \<longrightarrow> f \<le> cp_slot (ad_source d))"

fun message_admissible :: "u64 \<Rightarrow> gossip_context \<Rightarrow> lean_gossipsub_message \<Rightarrow> bool" where
  "message_admissible setting ctx (GossipBlockMsg g) \<longleftrightarrow>
     (let block = bwa_block (sb_message (gb_block g));
          vote = att_data (bwa_proposer_attestation (sb_message (gb_block g)))
      in ctx_knows_block_root ctx (b_parent_root block) = Inr True \<and>
         later_than_finalized ctx (b_slot block) \<and> not_future ctx (b_slot block) \<and>
         ordered_vote vote \<and> ad_slot vote \<le> b_slot block)"
| "message_admissible setting ctx (GossipAttestationSubnetMsg subnet_id g) \<longleftrightarrow>
     subnet_id = sa_validator_id (ga_attestation g) mod max setting 1 \<and>
     vote_in_context ctx (sa_message (ga_attestation g))"
| "message_admissible setting ctx (GossipAggregatedMsg g) \<longleftrightarrow>
     (\<exists>byte \<in> set (bl_data (ap_participants (saa_proof (gaa_attestation g)))). byte \<noteq> 0) \<and>
     vote_in_context ctx (saa_data (gaa_attestation g))"

lemma attestation_fields_accept:
  "validate_attestation_fields d m = Accept \<longleftrightarrow> ordered_vote d \<and> (\<forall>x. m = Some x \<longrightarrow> ad_slot d \<le> x)"
  by (auto simp: validate_attestation_fields_def ordered_vote_def split: option.splits)

lemma attestation_data_accept:
  "validate_attestation_fields d None = Accept \<Longrightarrow>
   validate_attestation_data_with_context d ctx = Inr Accept \<longleftrightarrow> vote_in_context ctx d"
  by (auto simp: validate_attestation_data_with_context_def attestation_fields_accept vote_in_context_def
      ordered_vote_def not_future_def and_then_eq_Inr split: option.splits if_splits)

lemma subnet_basic_accept:
  "validate_subnet_attestation_basic setting subnet_id a = Accept \<longleftrightarrow>
     subnet_id = sa_validator_id a mod max setting 1 \<and> ordered_vote (sa_message a)"
proof -
  have "(if max setting 1 \<le> 1 then 0 else v mod max setting 1) = v mod max setting 1" for v :: u64
    by (auto simp: max_def)
  then show ?thesis
    by (auto simp: validate_subnet_attestation_basic_def attestation_committee_count_def Let_def
        attestation_fields_accept)
qed

text \<open>
  C10 (what the gossip filter lets through). A decoded message is accepted exactly when it is
  admissible: a block has a known parent, lies after the finalized slot and at most one slot
  ahead of the clock, and its proposer's vote is ordered and not later than the block; an
  attestation comes on the subnet of its validator (an aggregate names a participant), its
  source, target, head and slot are in order, all three roots are known, its slot is at most
  one ahead of the clock and its source is not before the finalized slot.
\<close>

theorem gossip_filter_accepts_iff:
  "validate_with_context setting m ctx = Inr Accept \<longleftrightarrow> message_admissible setting ctx m"
proof (cases m)
  case (GossipBlockMsg g)
  then show ?thesis
    by (auto simp: validate_block_with_context_def Let_def and_then_eq_Inr attestation_fields_accept
        later_than_finalized_def not_future_def not_le split: option.splits if_splits)
next
  case (GossipAttestationSubnetMsg w g)
  show ?thesis
  proof (cases "validate_subnet_attestation_basic setting w (ga_attestation g) = Accept")
    case True
    then show ?thesis
      using GossipAttestationSubnetMsg attestation_data_accept [of "sa_message (ga_attestation g)" ctx]
      by (simp add: validate_subnet_attestation_with_context_def validate_attestation_with_context_def
          subnet_basic_accept attestation_fields_accept)
  next
    case False
    then show ?thesis
      using GossipAttestationSubnetMsg
      by (auto simp: validate_subnet_attestation_with_context_def subnet_basic_accept vote_in_context_def)
  qed
next
  case (GossipAggregatedMsg g)
  show ?thesis
  proof (cases "validate_aggregated_attestation_basic (gaa_attestation g) = Accept")
    case True
    then show ?thesis
      using GossipAggregatedMsg attestation_data_accept [of "saa_data (gaa_attestation g)" ctx]
      by (auto simp: validate_aggregated_attestation_with_context_def validate_aggregated_attestation_basic_def
          bitlist_has_any_set_def list_ex_iff split: if_splits)
  next
    case False
    then show ?thesis
      using GossipAggregatedMsg
      by (auto simp: validate_aggregated_attestation_with_context_def validate_aggregated_attestation_basic_def
          bitlist_has_any_set_def list_ex_iff vote_in_context_def attestation_fields_accept split: if_splits)
  qed
qed

text \<open>
  C11 (the root lookup is exact). With a cache that was built from the current state, or is
  due for a rebuild, the lookup answers yes exactly for the zero root, the roots of the
  latest header and of the justified and finalized checkpoints, the last 200 entries of the
  block-hash history and the blocks of the store; the ring buffer neither loses nor invents
  a root. It fails only when reading the store fails.
\<close>

theorem knows_block_root_exact:
  assumes "cache_fresh L (sgc_recent_roots ctx) (sgc_state ctx)"
    and "length (st_historical_block_hashes (sgc_state ctx)) < 2 ^ 64"
  shows "case knows_block_root R L ctx root of
      Inl e \<Rightarrow> \<exists>fs. sgc_store ctx = Some fs \<and> fs_get_block R L fs root = Inl e
    | Inr (known, ctx') \<Rightarrow> cache_fresh L (sgc_recent_roots ctx') (sgc_state ctx) \<and>
        (known \<longleftrightarrow> root = zero_root \<or> root = block_header_root L (st_latest_block_header (sgc_state ctx)) \<or>
           root = cp_root (st_latest_justified (sgc_state ctx)) \<or>
           root = cp_root (st_latest_finalized (sgc_state ctx)) \<or> root \<in> recent_history (sgc_state ctx) \<or>
           (\<exists>fs b. sgc_store ctx = Some fs \<and> fs_get_block R L fs root = Inr (Some b)))"
proof -
  let ?s = "sgc_state ctx" and ?direct = "knows_direct_root (snapshot_from_state L (sgc_state ctx)) root"
  have direct: "?direct \<longleftrightarrow> root = block_header_root L (st_latest_block_header ?s) \<or>
      root = cp_root (st_latest_justified ?s) \<or> root = cp_root (st_latest_finalized ?s)"
    by (simp add: knows_direct_root_def snapshot_from_state_def)
  show ?thesis
  proof (cases "root = zero_root \<or> ?direct")
    case True
    then show ?thesis using assms(1) direct by (auto simp: knows_block_root_def)
  next
    case False
    have hit: "cache_contains (rebuilt_cache L ?s) root \<longleftrightarrow> root \<in> recent_history ?s"
      using False rebuilt_cache_roots [OF assms(2), of L] direct by (auto simp: cache_contains_iff [OF rebuilt_cache_wf])
    have eq: "knows_block_root R L ctx root =
        (if root \<in> recent_history ?s then Inr (True, ctx\<lparr>sgc_recent_roots := rebuilt_cache L ?s\<rparr>)
         else and_then (knows_block_root_cold R L ctx root)
           (\<lambda>hit. Inr (hit, ctx\<lparr>sgc_recent_roots := rebuilt_cache L ?s\<rparr>)))"
      using False by (simp add: knows_block_root_def Let_def refresh_fresh [OF assms(1)] hit
          knows_block_root_cold_def)
    show ?thesis
    proof (cases "sgc_store ctx")
      case None
      then show ?thesis using False direct by (simp add: eq knows_block_root_cold_def rebuilt_cache_fresh)
    next
      case (Some fs)
      then show ?thesis
        using False direct
        by (cases "fs_get_block R L fs root") (auto simp: eq knows_block_root_cold_def rebuilt_cache_fresh)
    qed
  qed
qed

definition sample_context :: "sample_db state_gossip_context" where
  "sample_context = with_slot_clock (sample_state\<lparr>st_historical_block_hashes := [7, 8]\<rparr>) 3"

theorem knows_block_root_exact_witness:
  "\<exists>ctx'. knows_block_root sample_redb sample_lib sample_context 8 = Inr (True, ctx')"
proof -
  have "cache_fresh sample_lib (sgc_recent_roots sample_context) (sgc_state sample_context)"
    "length (st_historical_block_hashes (sgc_state sample_context)) < 2 ^ 64"
    "sgc_store sample_context = None" "8 \<in> recent_history (sgc_state sample_context)"
    by (simp_all add: cache_fresh_def sample_context_def with_slot_clock_def recent_root_cache_default_def
        sample_state_def recent_history_def RECENT_ROOT_CACHE_LEN_def)
  then show ?thesis
    using knows_block_root_exact [of sample_lib sample_context sample_redb 8]
    by (cases "knows_block_root sample_redb sample_lib sample_context 8") auto
qed

text \<open>The cache is keyed on two slots: after a switch to another chain with the same slots the
  roots of the old chain are still served.\<close>

lemma switch_keeps_old_roots:
  assumes "bh_slot (st_latest_block_header s) = bh_slot (st_latest_block_header s')" "st_slot s = st_slot s'"
  shows "refresh_from_state L (rebuilt_cache L s) s' = rebuilt_cache L s"
  using assms by (simp add: refresh_from_state_def rebuilt_cache_def Let_def)

end
