(* ===== verification/RateLimiter.thy ===== *)
theory RateLimiter
  imports Prelude
begin

text \<open>
  Outbound messaging and its limits: \<^verbatim>\<open>src/networking/rate_limiter.rs\<close>, the events of
  \<^verbatim>\<open>src/networking/events.rs\<close>, and the publishers of \<^verbatim>\<open>src/networking/gossip.rs\<close> and
  \<^verbatim>\<open>src/networking/reqresp.rs\<close>. A time (\<^verbatim>\<open>Instant\<close>) is its number of nanoseconds, an argument of
  every operation that reads the clock; \<^verbatim>\<open>duration_since\<close> of a later instant is zero. The
  event bus is the list of events sent on it, a channel the list of messages put into it.
\<close>

section \<open>Definitions\<close>

type_synonym instant = nat
type_synonym peer_id = string

datatype network_event =
    PeerConnected peer_id bool
  | PeerDisconnected peer_id bool
  | PeerBanned peer_id string nat
  | GossipMessageEvent string "u8 list"
  | GossipDeferredUnknownRoots string "u8 list"
  | GossipValidated string bool
  | ReqRespRequest peer_id string "u8 list"
  | ReqRespResponse peer_id string "u8 list"
  | PeerScored peer_id "64 word"
  | RateLimited peer_id string

type_synonym event_bus = "network_event list"

definition emit :: "event_bus \<Rightarrow> network_event \<Rightarrow> event_bus" where
  "emit bus event = bus @ [event]"

record rate_limiter =
  rl_window :: nat
  rl_max_events :: u64
  rl_counts :: "(string, u64 \<times> instant) hmap"

definition rate_limiter_new :: "nat \<Rightarrow> u64 \<Rightarrow> rate_limiter" where
  "rate_limiter_new window max_events =
     \<lparr>rl_window = window, rl_max_events = max_events, rl_counts = []\<rparr>"

definition allow :: "instant \<Rightarrow> rate_limiter \<Rightarrow> string \<Rightarrow> bool \<times> rate_limiter" where
  "allow now rl key =
     (let entry = (case hm_get (rl_counts rl) key of None \<Rightarrow> (0, now) | Some e \<Rightarrow> e);
          entry = (if now - snd entry > rl_window rl then (0, now) else entry);
          entry = (fst entry + 1, snd entry)
      in (fst entry \<le> rl_max_events rl, rl\<lparr>rl_counts := hm_insert key entry (rl_counts rl)\<rparr>))"

definition SECOND :: nat where "SECOND = 1000000000"

record gossip_message =
  gm_peer_id :: "peer_id option"
  gm_topic :: string
  gm_payload :: "u8 list"

record gossip_publisher =
  gp_queue :: "gossip_message list"
  gp_events :: event_bus
  gp_limiter :: rate_limiter

definition gossip_publisher_new :: "event_bus \<Rightarrow> gossip_publisher" where
  "gossip_publisher_new events =
     \<lparr>gp_queue = [], gp_events = events, gp_limiter = rate_limiter_new SECOND 64\<rparr>"

definition publish :: "instant \<Rightarrow> gossip_publisher \<Rightarrow> string \<Rightarrow> u8 list \<Rightarrow> gossip_publisher" where
  "publish now g topic payload =
     (let (ok, limiter) = allow now (gp_limiter g) ''gossip_out'';
          g = g\<lparr>gp_limiter := limiter\<rparr>
      in if \<not> ok then g\<lparr>gp_events := emit (gp_events g) (RateLimited ''self'' ''gossip_out'')\<rparr>
         else g\<lparr>gp_queue := gp_queue g @ [\<lparr>gm_peer_id = None, gm_topic = topic, gm_payload = payload\<rparr>],
                gp_events := emit (gp_events g) (GossipMessageEvent topic payload)\<rparr>)"

datatype req_resp_message =
    Request peer_id string "u8 list"
  | Response peer_id string "u8 list"

record req_resp =
  rr_queue :: "req_resp_message list"
  rr_events :: event_bus
  rr_limiter :: rate_limiter

definition req_resp_new :: "event_bus \<Rightarrow> req_resp" where
  "req_resp_new events = \<lparr>rr_queue = [], rr_events = events, rr_limiter = rate_limiter_new SECOND 64\<rparr>"

definition send_request :: "instant \<Rightarrow> req_resp \<Rightarrow> peer_id \<Rightarrow> string \<Rightarrow> u8 list \<Rightarrow> req_resp" where
  "send_request now r peer protocol payload =
     (let (ok, limiter) = allow now (rr_limiter r) ''reqresp_out'';
          r = r\<lparr>rr_limiter := limiter\<rparr>
      in if \<not> ok then r\<lparr>rr_events := emit (rr_events r) (RateLimited ''self'' ''reqresp_out'')\<rparr>
         else r\<lparr>rr_queue := rr_queue r @ [Request peer protocol payload],
                rr_events := emit (rr_events r) (ReqRespRequest peer protocol payload)\<rparr>)"

definition send_response :: "instant \<Rightarrow> req_resp \<Rightarrow> peer_id \<Rightarrow> string \<Rightarrow> u8 list \<Rightarrow> req_resp" where
  "send_response now r peer protocol payload =
     (let (ok, limiter) = allow now (rr_limiter r) ''reqresp_out'';
          r = r\<lparr>rr_limiter := limiter\<rparr>
      in if \<not> ok then r\<lparr>rr_events := emit (rr_events r) (RateLimited ''self'' ''reqresp_out'')\<rparr>
         else r\<lparr>rr_queue := rr_queue r @ [Response peer protocol payload],
                rr_events := emit (rr_events r) (ReqRespResponse peer protocol payload)\<rparr>)"

section \<open>How many calls are let through\<close>

text \<open>The state after a sequence of calls, and how many of them for one key were allowed.\<close>

fun allow_all :: "rate_limiter \<Rightarrow> (instant \<times> string) list \<Rightarrow> rate_limiter" where
  "allow_all rl [] = rl"
| "allow_all rl ((now, key) # calls) = allow_all (snd (allow now rl key)) calls"

fun allowed :: "string \<Rightarrow> rate_limiter \<Rightarrow> (instant \<times> string) list \<Rightarrow> nat" where
  "allowed k rl [] = 0"
| "allowed k rl ((now, key) # calls) =
     (if key = k \<and> fst (allow now rl key) then 1 else 0) + allowed k (snd (allow now rl key)) calls"

definition calls_made :: "rate_limiter \<Rightarrow> nat \<Rightarrow> bool" where
  "calls_made rl n \<longleftrightarrow> (\<forall>k c t. hm_get (rl_counts rl) k = Some (c, t) \<longrightarrow> unat c \<le> n)"

lemma unat_plus_1: "unat c < 2 ^ 64 - 1 \<Longrightarrow> unat (c + 1 :: u64) = unat c + 1"
  by (subst unat_add_no_wrap) simp_all

lemma allow_fields [simp]:
  "rl_window (snd (allow now rl key)) = rl_window rl"
  "rl_max_events (snd (allow now rl key)) = rl_max_events rl"
  by (simp_all add: allow_def Let_def)

lemma allow_other: "k \<noteq> key \<Longrightarrow> hm_get (rl_counts (snd (allow now rl key))) k = hm_get (rl_counts rl) k"
  by (simp add: allow_def Let_def)

lemma allow_keep:
  assumes "hm_get (rl_counts rl) key = Some (c, t)" "now - t \<le> rl_window rl"
  shows "fst (allow now rl key) = (c + 1 \<le> rl_max_events rl)"
    "hm_get (rl_counts (snd (allow now rl key))) key = Some (c + 1, t)"
  using assms by (simp_all add: allow_def Let_def)

lemma allow_restart:
  assumes "hm_get (rl_counts rl) key = None \<or>
    (\<exists>c t. hm_get (rl_counts rl) key = Some (c, t) \<and> now - t > rl_window rl)"
  shows "fst (allow now rl key) = (1 \<le> rl_max_events rl)"
    "hm_get (rl_counts (snd (allow now rl key))) key = Some (1, now)"
  using assms by (auto simp: allow_def Let_def)

lemma allow_cases:
  obtains (keep) c t where "hm_get (rl_counts rl) key = Some (c, t)" "now - t \<le> rl_window rl"
  | (restart) "hm_get (rl_counts rl) key = None \<or>
      (\<exists>c t. hm_get (rl_counts rl) key = Some (c, t) \<and> now - t > rl_window rl)"
  by (cases "hm_get (rl_counts rl) key") (auto simp: not_less, meson not_less)

lemma calls_made_step:
  assumes "calls_made rl n" "n < 2 ^ 64 - 1"
  shows "calls_made (snd (allow now rl key)) (Suc n)"
  unfolding calls_made_def
proof (intro allI impI)
  fix k c t assume e: "hm_get (rl_counts (snd (allow now rl key))) k = Some (c, t)"
  show "unat c \<le> Suc n"
  proof (cases "k = key")
    case False
    then show ?thesis using assms(1) e allow_other [OF False] by (force simp: calls_made_def)
  next
    case True
    show ?thesis
    proof (cases rule: allow_cases [of rl key now])
      case (keep c' t')
      then have "unat c' \<le> n" using assms(1) unfolding calls_made_def by blast
      then show ?thesis using e True allow_keep(2) [OF keep] assms(2) by (auto simp: unat_plus_1)
    next
      case restart
      then show ?thesis using e True allow_restart(2) [OF restart] by auto
    qed
  qed
qed

lemma calls_made_all:
  "calls_made rl n \<Longrightarrow> n + length calls < 2 ^ 64 \<Longrightarrow> calls_made (allow_all rl calls) (n + length calls)"
proof (induction rl calls arbitrary: n rule: allow_all.induct)
  case (2 rl now key calls)
  then show ?case using calls_made_step [OF 2(2), of now key] 2(1) [of "Suc n"] by simp
qed simp

lemma allow_all_fields [simp]:
  "rl_window (allow_all rl calls) = rl_window rl" "rl_max_events (allow_all rl calls) = rl_max_events rl"
  by (induction rl calls rule: allow_all.induct) simp_all

text \<open>Once the window of a key started inside the interval, no call of the interval starts
  another.\<close>

lemma allowed_same_window:
  assumes "hm_get (rl_counts rl) k = Some (c, t)" "a \<le> t" "\<forall>(now, _) \<in> set calls. now \<le> a + rl_window rl"
    "unat c + length calls < 2 ^ 64"
  shows "allowed k rl calls \<le> unat (rl_max_events rl) - unat c"
  using assms
proof (induction k rl calls arbitrary: c rule: allowed.induct)
  case (2 k rl now key calls)
  show ?case
  proof (cases "key = k")
    case False
    then show ?thesis using 2 allow_other [of k key now rl] by simp
  next
    case True
    have near: "now - t \<le> rl_window rl" using 2 by auto
    have c: "unat (c + 1) = unat c + 1" using 2 by (intro unat_plus_1) simp
    have "allowed k (snd (allow now rl key)) calls \<le> unat (rl_max_events rl) - unat (c + 1)"
      using 2(1) [of "c + 1"] 2 near True allow_keep [of rl key c t now] c by simp
    then show ?thesis
      using True allow_keep(1) [of rl key c t now] 2 near c by (auto simp: word_le_nat_alt)
  qed
qed simp

lemma allowed_two_windows:
  assumes "\<forall>(now, _) \<in> set calls. a \<le> now \<and> now \<le> a + rl_window rl"
    "calls_made rl n" "n + length calls < 2 ^ 64"
  shows "allowed k rl calls \<le> (case hm_get (rl_counts rl) k of None \<Rightarrow> unat (rl_max_events rl)
    | Some (c, t) \<Rightarrow> (unat (rl_max_events rl) - unat c) + unat (rl_max_events rl))"
  using assms
proof (induction k rl calls arbitrary: n rule: allowed.induct)
  case (2 k rl now key calls)
  let ?rl = "snd (allow now rl key)" and ?max = "unat (rl_max_events rl)"
  have made: "calls_made ?rl (Suc n)" using calls_made_step [OF 2(3)] 2(4) by simp
  have IH: "allowed k ?rl calls \<le> (case hm_get (rl_counts ?rl) k of None \<Rightarrow> ?max
      | Some (c, t) \<Rightarrow> (?max - unat c) + ?max)"
    using 2(1) [OF _ made, unfolded allow_fields] 2(2,4) by simp
  show ?case
  proof (cases "key = k")
    case False
    then show ?thesis using IH allow_other [of k key now rl] by simp
  next
    case True
    show ?thesis
    proof (cases rule: allow_cases [of rl key now])
      case (keep c t)
      have "unat c \<le> n" using 2(3) keep(1) unfolding calls_made_def by blast
      then have "unat (c + 1) = unat c + 1" using 2(4) by (intro unat_plus_1) simp
      then show ?thesis using IH True keep allow_keep [OF keep] by (auto simp: word_le_nat_alt)
    next
      case restart
      have "allowed k ?rl calls \<le> ?max - unat (1 :: u64)"
        using allowed_same_window [of ?rl k 1 now a calls] allow_restart(2) [OF restart] True 2(2,4) by auto
      then show ?thesis
        using True allow_restart(1) [OF restart] by (auto simp: word_le_nat_alt split: option.splits)
    qed
  qed
qed (simp split: option.splits)

section \<open>Properties\<close>

text \<open>
  C38 (rate limit). However calls are spread over keys and time, in any interval as long as
  the window at most twice the configured number of calls for one key is let through.
\<close>

theorem rate_limit_bound:
  assumes "\<forall>(now, _) \<in> set calls. a \<le> now \<and> now \<le> a + window"
    and "length before + length calls < 2 ^ 64"
  shows "allowed key (allow_all (rate_limiter_new window max_events) before) calls \<le> 2 * unat max_events"
proof -
  let ?rl = "allow_all (rate_limiter_new window max_events) before"
  have "calls_made (rate_limiter_new window max_events) 0"
    by (simp add: calls_made_def rate_limiter_new_def)
  then have "calls_made ?rl (length before)" using calls_made_all [of _ 0 before] assms(2) by simp
  moreover have f: "rl_window ?rl = window" "rl_max_events ?rl = max_events"
    by (simp_all add: rate_limiter_new_def)
  ultimately have "calls_made ?rl (length before)" and f: "rl_window ?rl = window" "rl_max_events ?rl = max_events"
    by simp_all
  then have "allowed key ?rl calls \<le> (case hm_get (rl_counts ?rl) key of None \<Rightarrow> unat max_events
    | Some (c, t) \<Rightarrow> (unat max_events - unat c) + unat max_events)"
    using allowed_two_windows [of calls a ?rl "length before" key, unfolded f] assms by simp
  then show ?thesis by (auto split: option.splits)
qed

text \<open>The window is fixed, not sliding: here three calls within two time units are allowed
  although the limit is two calls in ten.\<close>

theorem rate_limit_bound_witness:
  "allowed ''k'' (allow_all (rate_limiter_new 10 2) [(0, ''k'')]) [(10, ''k''), (11, ''k''), (12, ''k'')] = 3 \<and>
   allowed ''k'' (allow_all (rate_limiter_new 10 2) [(0, ''k'')]) [(10, ''k''), (11, ''k''), (12, ''k'')] \<le> 2 * unat (2 :: u64)"
proof
  show "allowed ''k'' (allow_all (rate_limiter_new 10 2) [(0, ''k'')]) [(10, ''k''), (11, ''k''), (12, ''k'')] = 3"
    by (simp add: allow_def rate_limiter_new_def Let_def)
  show "allowed ''k'' (allow_all (rate_limiter_new 10 2) [(0, ''k'')]) [(10, ''k''), (11, ''k''), (12, ''k'')] \<le> 2 * unat (2 :: u64)"
    by (rule rate_limit_bound [where a = 10]) simp_all
qed

end
