(* ===== verification/PeerManager.thy ===== *)
theory PeerManager
  imports RateLimiter EventSystem
begin

text \<open>
  The peer registry with scores and back-off (\<^verbatim>\<open>src/networking/peer_manager.rs\<close>), the seed
  queue of \<^verbatim>\<open>src/networking/discovery.rs\<close>, and the inbound pipelines and the event loop of
  \<^verbatim>\<open>src/networking/mod.rs\<close> that drive them. Scores are signed 64-bit words. The metrics counters
  are left out: the networking runtime builds the registry without them. A pass over the
  scores reads the clock once.
\<close>

section \<open>Scores\<close>

type_synonym i64 = "64 word"

definition saturating_add_signed :: "i64 \<Rightarrow> i64 \<Rightarrow> i64" where
  "saturating_add_signed a b =
     (if sint a + sint b > 2 ^ 63 - 1 then of_int (2 ^ 63 - 1)
      else if sint a + sint b < - (2 ^ 63) then of_int (- (2 ^ 63))
      else a + b)"

text \<open>\<^verbatim>\<open>max\<close> and \<^verbatim>\<open>min\<close> of signed values.\<close>

definition smax :: "i64 \<Rightarrow> i64 \<Rightarrow> i64" where "smax a b = (if sint a \<le> sint b then b else a)"
definition smin :: "i64 \<Rightarrow> i64 \<Rightarrow> i64" where "smin a b = (if sint a \<le> sint b then a else b)"

definition decay_score :: "i64 \<Rightarrow> i64 \<Rightarrow> i64" where
  "decay_score decay_by score =
     (if sint score > 0 then smax (score - decay_by) 0
      else if sint score < 0 then smin (score + decay_by) 0
      else score)"

section \<open>The registry\<close>

record backoff_state =
  bo_attempts :: u32
  bo_next_allowed :: instant

record peer_manager =
  pm_peers :: "peer_id list"
  pm_scores :: "(peer_id, i64) hmap"
  pm_events :: event_bus
  pm_peer_count :: nat
  pm_backoff :: "(peer_id, backoff_state) hmap"

definition peer_manager_new :: "event_bus \<Rightarrow> peer_manager" where
  "peer_manager_new events =
     \<lparr>pm_peers = [], pm_scores = [], pm_events = events, pm_peer_count = 0, pm_backoff = []\<rparr>"

definition pm_connect :: "peer_manager \<Rightarrow> peer_id \<Rightarrow> bool \<Rightarrow> peer_manager" where
  "pm_connect pm peer inbound =
     (if peer \<notin> set (pm_peers pm)
      then
        let pm = pm\<lparr>pm_peers := pm_peers pm @ [peer]\<rparr>;
            pm = pm\<lparr>pm_peer_count := length (pm_peers pm)\<rparr>;
            pm = (if hm_contains (pm_scores pm) peer then pm
                  else pm\<lparr>pm_scores := hm_insert peer 0 (pm_scores pm)\<rparr>)
        in pm\<lparr>pm_backoff := hm_remove peer (pm_backoff pm)\<rparr>
      else pm)"

definition pm_disconnect :: "peer_manager \<Rightarrow> peer_id \<Rightarrow> bool \<Rightarrow> peer_manager" where
  "pm_disconnect pm peer inbound =
     (if peer \<in> set (pm_peers pm)
      then
        let pm = pm\<lparr>pm_peers := removeAll peer (pm_peers pm)\<rparr>;
            pm = pm\<lparr>pm_peer_count := length (pm_peers pm)\<rparr>
        in pm\<lparr>pm_scores := hm_remove peer (pm_scores pm)\<rparr>
      else pm)"

definition score_delta :: "peer_manager \<Rightarrow> peer_id \<Rightarrow> i64 \<Rightarrow> i64 \<times> peer_manager" where
  "score_delta pm peer delta =
     (let entry = (case hm_get (pm_scores pm) peer of None \<Rightarrow> 0 | Some s \<Rightarrow> s);
          entry = saturating_add_signed entry delta
      in (entry, pm\<lparr>pm_scores := hm_insert peer entry (pm_scores pm),
                    pm_events := emit (pm_events pm) (PeerScored peer entry)\<rparr>))"

definition successful_response_from_peer :: "peer_manager \<Rightarrow> peer_id \<Rightarrow> i64 \<times> peer_manager" where
  "successful_response_from_peer pm peer = score_delta pm peer 10"

definition failed_response_from_peer :: "peer_manager \<Rightarrow> peer_id \<Rightarrow> i64 \<times> peer_manager" where
  "failed_response_from_peer pm peer = score_delta pm peer (- 20)"

text \<open>\<^verbatim>\<open>saturating_pow\<close> of two and \<^verbatim>\<open>saturating_mul\<close> in \<^verbatim>\<open>u64\<close>, capped at two minutes.\<close>

definition backoff_secs :: "u32 \<Rightarrow> nat" where
  "backoff_secs attempts =
     (let k = unat attempts - 1;
          exp = (if k \<ge> 64 then 2 ^ 64 - 1 else 2 ^ k)
      in min (min (2 * exp) (2 ^ 64 - 1)) 120)"

definition saturating_succ :: "u32 \<Rightarrow> u32" where
  "saturating_succ n = (if n = - 1 then n else n + 1)"

definition record_backoff ::
    "instant \<Rightarrow> (peer_id, backoff_state) hmap \<Rightarrow> peer_id \<Rightarrow> nat \<times> (peer_id, backoff_state) hmap" where
  "record_backoff now backoff peer =
     (let entry = (case hm_get backoff peer of
            None \<Rightarrow> \<lparr>bo_attempts = 0, bo_next_allowed = now\<rparr> | Some e \<Rightarrow> e);
          attempts = saturating_succ (bo_attempts entry);
          backoff_for = backoff_secs attempts
      in (backoff_for,
          hm_insert peer \<lparr>bo_attempts = attempts, bo_next_allowed = now + backoff_for * SECOND\<rparr> backoff))"

definition ban_peer :: "instant \<Rightarrow> peer_manager \<Rightarrow> peer_id \<Rightarrow> peer_manager" where
  "ban_peer now pm peer =
     (let (backoff_for, backoff) = record_backoff now (pm_backoff pm) peer in
      pm\<lparr>pm_scores := hm_remove peer (pm_scores pm), pm_peers := removeAll peer (pm_peers pm),
         pm_backoff := backoff,
         pm_events := emit (emit (pm_events pm)
           (PeerBanned peer ''score below ban threshold (backoff {}s)'' backoff_for))
           (PeerDisconnected peer False)\<rparr>)"

definition decay_scores :: "i64 \<Rightarrow> peer_manager \<Rightarrow> peer_manager" where
  "decay_scores decay_by pm =
     pm\<lparr>pm_scores := map (\<lambda>(p, s). (p, decay_score decay_by s)) (pm_scores pm),
        pm_events := pm_events pm @
          map (\<lambda>(p, s). PeerScored p (decay_score decay_by s)) (pm_scores pm)\<rparr>"

definition decay_and_prune ::
    "instant \<Rightarrow> peer_manager \<Rightarrow> i64 \<Rightarrow> i64 \<Rightarrow> peer_id list \<times> peer_manager" where
  "decay_and_prune now pm decay_by ban_threshold =
     (let pm = decay_scores decay_by pm;
          to_remove = map fst (filter (\<lambda>(p, s). sint s \<le> sint ban_threshold) (pm_scores pm));
          pm = foldl (ban_peer now) pm to_remove;
          banned = to_remove
      in (banned, if banned \<noteq> [] then pm\<lparr>pm_peer_count := length (pm_peers pm)\<rparr> else pm))"

definition pm_score :: "peer_manager \<Rightarrow> peer_id \<Rightarrow> i64 option" where
  "pm_score pm peer = hm_get (pm_scores pm) peer"

definition pm_list :: "peer_manager \<Rightarrow> peer_id list" where
  "pm_list pm = pm_peers pm"

definition backoff_remaining :: "instant \<Rightarrow> peer_manager \<Rightarrow> peer_id \<Rightarrow> nat option" where
  "backoff_remaining now pm peer =
     (case hm_get (pm_backoff pm) peer of
        None \<Rightarrow> None
      | Some entry \<Rightarrow> if bo_next_allowed entry > now then Some (bo_next_allowed entry - now) else None)"

definition is_connected :: "peer_manager \<Rightarrow> peer_id \<Rightarrow> bool" where
  "is_connected pm peer \<longleftrightarrow> peer \<in> set (pm_peers pm)"

section \<open>Inbound pipelines\<close>

record net_state =
  ns_gossip_limiter :: rate_limiter
  ns_reqresp_limiter :: rate_limiter
  ns_topic_limiter :: rate_limiter
  ns_peers :: peer_manager

definition net_state_new :: "event_bus \<Rightarrow> net_state" where
  "net_state_new events =
     \<lparr>ns_gossip_limiter = rate_limiter_new SECOND 256, ns_reqresp_limiter = rate_limiter_new SECOND 128,
      ns_topic_limiter = rate_limiter_new (5 * SECOND) 10, ns_peers = peer_manager_new events\<rparr>"

definition net_emit :: "net_state \<Rightarrow> network_event \<Rightarrow> net_state" where
  "net_emit ns e = ns\<lparr>ns_peers := (ns_peers ns)\<lparr>pm_events := emit (pm_events (ns_peers ns)) e\<rparr>\<rparr>"

definition net_score :: "net_state \<Rightarrow> peer_id \<Rightarrow> i64 \<Rightarrow> net_state" where
  "net_score ns peer delta = ns\<lparr>ns_peers := snd (score_delta (ns_peers ns) peer delta)\<rparr>"

text \<open>One iteration of the gossip pipeline; the clock is read once for each limiter.\<close>

definition gossip_inbound :: "instant \<Rightarrow> instant \<Rightarrow> net_state \<Rightarrow> gossip_message \<Rightarrow> net_state" where
  "gossip_inbound now now' ns msg =
     (let peer_key = (case gm_peer_id msg of Some p \<Rightarrow> ''gossip_in:'' @ p | None \<Rightarrow> ''gossip_in'');
          peer = (case gm_peer_id msg of Some p \<Rightarrow> p | None \<Rightarrow> ''unknown'');
          (ok, limiter) = allow now (ns_gossip_limiter ns) peer_key;
          ns = ns\<lparr>ns_gossip_limiter := limiter\<rparr>
      in if \<not> ok
         then
           let ns = net_emit ns (RateLimited peer ''gossip_in'') in
           if peer \<noteq> ''unknown'' then net_score ns peer (- 5) else ns
         else
           let topic_key = ''gossip_topic:'' @ peer @ '':'' @ gm_topic msg;
               (ok, limiter) = allow now' (ns_topic_limiter ns) topic_key;
               ns = ns\<lparr>ns_topic_limiter := limiter\<rparr>
           in if \<not> ok
              then
                let ns = net_emit ns (RateLimited peer ''gossip_topic'') in
                if peer \<noteq> ''unknown'' then net_score ns peer (- 10) else ns
              else if peer \<noteq> ''unknown'' then net_score ns peer 1 else ns)"

text \<open>One iteration of the req/resp pipeline; requests and responses are treated alike.\<close>

definition reqresp_inbound :: "instant \<Rightarrow> net_state \<Rightarrow> req_resp_message \<Rightarrow> net_state" where
  "reqresp_inbound now ns msg =
     (let (peer, protocol) = (case msg of Request p q _ \<Rightarrow> (p, q) | Response p q _ \<Rightarrow> (p, q));
          key = ''reqresp_in:'' @ peer @ '':'' @ protocol;
          (ok, limiter) = allow now (ns_reqresp_limiter ns) key;
          ns = ns\<lparr>ns_reqresp_limiter := limiter\<rparr>
      in if \<not> ok
         then
           let ns = net_emit ns (RateLimited peer ''reqresp_in'') in
           ns\<lparr>ns_peers := snd (failed_response_from_peer (ns_peers ns) peer)\<rparr>
         else ns\<lparr>ns_peers := snd (successful_response_from_peer (ns_peers ns) peer)\<rparr>)"

text \<open>The task that keeps the registry in step with the connections of the swarm.\<close>

fun peer_event :: "peer_manager \<Rightarrow> network_event \<Rightarrow> peer_manager" where
  "peer_event pm (PeerConnected peer inbound) = pm_connect pm peer inbound"
| "peer_event pm (PeerDisconnected peer inbound) = pm_disconnect pm peer inbound"
| "peer_event pm _ = pm"

section \<open>Discovery\<close>

text \<open>The address type and its parser are those of \<^verbatim>\<open>libp2p\<close>.\<close>

record 'addr discovery =
  dc_seeds :: "'addr list"
  dc_seed_set :: "'addr list"

definition discovery_new :: "'addr discovery" where
  "discovery_new = \<lparr>dc_seeds = [], dc_seed_set = []\<rparr>"

definition add_seed :: "(string \<Rightarrow> 'addr option) \<Rightarrow> 'addr discovery \<Rightarrow> string \<Rightarrow> 'addr discovery" where
  "add_seed parse dc seed_addr =
     (case parse seed_addr of
        None \<Rightarrow> dc
      | Some addr \<Rightarrow>
          if addr \<in> set (dc_seed_set dc) then dc
          else dc\<lparr>dc_seed_set := dc_seed_set dc @ [addr], dc_seeds := dc_seeds dc @ [addr]\<rparr>)"

definition next_seed :: "'addr discovery \<Rightarrow> 'addr option \<times> 'addr discovery" where
  "next_seed dc =
     (case dc_seeds dc of
        [] \<Rightarrow> (None, dc)
      | next # rest \<Rightarrow> (Some next, dc\<lparr>dc_seeds := rest @ [next]\<rparr>))"

text \<open>One tick of the loop: the address to dial, if any. \<open>addr_peer\<close> is the peer id of the first
  \<^verbatim>\<open>P2p\<close> component of an address.\<close>

definition discovery_tick ::
    "('addr \<Rightarrow> peer_id option) \<Rightarrow> instant \<Rightarrow> peer_manager \<Rightarrow> 'addr discovery \<Rightarrow>
     'addr option \<times> 'addr discovery" where
  "discovery_tick addr_peer now pm dc =
     (case next_seed dc of
        (None, dc) \<Rightarrow> (None, dc)
      | (Some addr, dc) \<Rightarrow>
          let should_skip = (case addr_peer addr of None \<Rightarrow> False | Some p \<Rightarrow> is_connected pm p) in
          if (case addr_peer addr of None \<Rightarrow> False | Some p \<Rightarrow> backoff_remaining now pm p \<noteq> None)
          then (None, dc)
          else if should_skip then (None, dc)
          else (Some addr, dc))"

section \<open>The invariant of the registry\<close>

definition pm_inv :: "peer_manager \<Rightarrow> bool" where
  "pm_inv pm \<longleftrightarrow> distinct (pm_peers pm) \<and> pm_peer_count pm = length (pm_peers pm) \<and>
     hm_wf (pm_scores pm) \<and> hm_wf (pm_backoff pm) \<and>
     (\<forall>p \<in> set (pm_peers pm). hm_contains (pm_scores pm) p)"

lemma hm_contains_insert [simp]: "hm_contains (AList.update k v m) j \<longleftrightarrow> j = k \<or> hm_contains m j"
  by (simp add: hm_contains_def)

lemma hm_contains_remove [simp]: "hm_contains (AList.delete k m) j \<longleftrightarrow> j \<noteq> k \<and> hm_contains m j"
  by (simp add: hm_contains_def)

lemma connect_inv: "pm_inv pm \<Longrightarrow> pm_inv (pm_connect pm peer inbound)"
  by (auto simp: pm_inv_def pm_connect_def Let_def)

lemma disconnect_inv: "pm_inv pm \<Longrightarrow> pm_inv (pm_disconnect pm peer inbound)"
  by (auto simp: pm_inv_def pm_disconnect_def Let_def distinct_removeAll)

lemma score_delta_inv: "pm_inv pm \<Longrightarrow> pm_inv (snd (score_delta pm peer delta))"
  by (auto simp: pm_inv_def score_delta_def Let_def)

lemma emit_inv [simp]: "pm_inv (pm\<lparr>pm_events := es\<rparr>) = pm_inv pm"
  by (simp add: pm_inv_def)

text \<open>The loop over the peers to remove, apart from the counter that is set afterwards.\<close>

lemma decay_scores_get: "hm_get (pm_scores (decay_scores d pm)) p = map_option (decay_score d) (pm_score pm p)"
proof -
  have "map_of (map (\<lambda>(p, s). (p, decay_score d s)) m) p = map_option (decay_score d) (map_of m p)" for m
    by (induction m) auto
  then show ?thesis by (simp add: decay_scores_def pm_score_def)
qed

lemma ban_peer_fields:
  "pm_scores (ban_peer now pm p) = hm_remove p (pm_scores pm)"
  "pm_peers (ban_peer now pm p) = removeAll p (pm_peers pm)"
  "pm_peer_count (ban_peer now pm p) = pm_peer_count pm"
  "pm_backoff (ban_peer now pm p) = snd (record_backoff now (pm_backoff pm) p)"
  "pm_events (ban_peer now pm p) = pm_events pm @
     [PeerBanned p ''score below ban threshold (backoff {}s)'' (fst (record_backoff now (pm_backoff pm) p)),
      PeerDisconnected p False]"
  by (simp_all add: ban_peer_def split_def Let_def emit_def)

lemma record_backoff_wf: "hm_wf b \<Longrightarrow> hm_wf (snd (record_backoff now b p))"
  by (simp add: record_backoff_def Let_def)

lemma record_backoff_other: "q \<noteq> p \<Longrightarrow> hm_get (snd (record_backoff now b p)) q = hm_get b q"
  by (simp add: record_backoff_def Let_def)

lemma foldl_ban_fields:
  "hm_wf (pm_backoff pm) \<Longrightarrow> hm_wf (pm_backoff (foldl (ban_peer now) pm ps))"
  "hm_wf (pm_scores pm) \<Longrightarrow> hm_wf (pm_scores (foldl (ban_peer now) pm ps))"
  "pm_peers (foldl (ban_peer now) pm ps) = filter (\<lambda>p. p \<notin> set ps) (pm_peers pm)"
  "hm_get (pm_scores (foldl (ban_peer now) pm ps)) q = (if q \<in> set ps then None else hm_get (pm_scores pm) q)"
  "pm_peer_count (foldl (ban_peer now) pm ps) = pm_peer_count pm"
  by (induction ps arbitrary: pm)
    (auto simp: ban_peer_fields record_backoff_wf removeAll_filter_not_eq filter_filter intro: filter_cong)

lemma foldl_ban_events: "\<exists>es. pm_events (foldl (ban_peer now) pm ps) = pm_events pm @ es"
proof (induction ps arbitrary: pm)
  case (Cons p ps)
  then obtain es where "pm_events (foldl (ban_peer now) (ban_peer now pm p) ps) = pm_events (ban_peer now pm p) @ es"
    by blast
  then show ?case by (simp add: ban_peer_fields)
qed simp

lemma foldl_ban_backoff:
  assumes "p \<in> set ps" "distinct ps"
  shows "hm_get (pm_backoff (foldl (ban_peer now) pm ps)) p =
    hm_get (snd (record_backoff now (pm_backoff pm) p)) p"
  using assms
proof (induction ps arbitrary: pm)
  case (Cons q ps)
  have other: "p \<notin> set ps \<Longrightarrow> hm_get (pm_backoff (foldl (ban_peer now) pm' ps)) p = hm_get (pm_backoff pm') p" for pm'
    by (induction ps arbitrary: pm') (auto simp: ban_peer_fields record_backoff_other)
  show ?case
  proof (cases "p = q")
    case True
    then show ?thesis using Cons other by (simp add: ban_peer_fields)
  next
    case False
    then have "hm_get (pm_backoff (ban_peer now pm q)) p = hm_get (pm_backoff pm) p"
      by (simp add: ban_peer_fields record_backoff_other)
    then show ?thesis using False Cons by (simp add: record_backoff_def Let_def)
  qed
qed simp

lemma backoff_secs_bounds: "2 \<le> backoff_secs n \<and> backoff_secs n \<le> 120"
  by (auto simp: backoff_secs_def Let_def min_def)

lemma backoff_secs_doubles: "0 < unat n \<Longrightarrow> unat n < 7 \<Longrightarrow> backoff_secs n = 2 ^ unat n"
proof -
  assume n: "0 < unat n" "unat n < 7"
  then have "unat n \<in> {1, 2, 3, 4, 5, 6}" by auto
  then show ?thesis by (auto simp: backoff_secs_def Let_def min_def)
qed

lemma decay_scores_wf: "hm_wf (pm_scores pm) \<Longrightarrow> hm_wf (pm_scores (decay_scores d pm))"
proof -
  have "map fst (pm_scores (decay_scores d pm)) = map fst (pm_scores pm)"
    by (simp add: decay_scores_def split_def)
  then show "hm_wf (pm_scores pm) \<Longrightarrow> ?thesis" by (simp add: hm_wf_def)
qed

lemma banned_keys:
  assumes "hm_wf (pm_scores pm)"
  shows "p \<in> set (map fst (filter (\<lambda>(p, s). sint s \<le> sint th) (pm_scores (decay_scores d pm)))) \<longleftrightarrow>
      (\<exists>s. pm_score pm p = Some s \<and> sint (decay_score d s) \<le> sint th)"
    and "distinct (map fst (filter (\<lambda>(p, s). sint s \<le> sint th) (pm_scores (decay_scores d pm))))"
proof -
  have wf: "hm_wf (pm_scores (decay_scores d pm))" using assms by (rule decay_scores_wf)
  have "p \<in> set (map fst (filter (\<lambda>(p, s). sint s \<le> sint th) (pm_scores (decay_scores d pm)))) \<longleftrightarrow>
      (\<exists>s. hm_get (pm_scores (decay_scores d pm)) p = Some s \<and> sint s \<le> sint th)"
    using wf by (force simp: hm_wf_def map_of_eq_Some_iff)
  then show "p \<in> set (map fst (filter (\<lambda>(p, s). sint s \<le> sint th) (pm_scores (decay_scores d pm)))) \<longleftrightarrow>
      (\<exists>s. pm_score pm p = Some s \<and> sint (decay_score d s) \<le> sint th)"
    by (auto simp: decay_scores_get)
  show "distinct (map fst (filter (\<lambda>(p, s). sint s \<le> sint th) (pm_scores (decay_scores d pm))))"
    using wf hm_wf_filter by (auto simp: hm_wf_def)
qed

lemma decay_and_prune_inv: "pm_inv pm \<Longrightarrow> pm_inv (snd (decay_and_prune now pm d th))"
proof -
  assume inv: "pm_inv pm"
  let ?d = "decay_scores d pm"
  have wf: "hm_wf (pm_scores ?d)"
    using inv by (simp add: pm_inv_def decay_scores_wf)
  have same: "pm_peers ?d = pm_peers pm" "pm_backoff ?d = pm_backoff pm" "pm_peer_count ?d = pm_peer_count pm"
    by (simp_all add: decay_scores_def)
  have scored: "hm_contains (pm_scores ?d) p \<longleftrightarrow> hm_contains (pm_scores pm) p" for p
    by (simp add: hm_contains_def decay_scores_get pm_score_def)
  show ?thesis
    using inv wf same scored unfolding pm_inv_def decay_and_prune_def Let_def
    by (auto simp: foldl_ban_fields hm_contains_def)
qed

section \<open>The networking tasks as an event system\<close>

datatype net_event =
    GossipIn instant instant gossip_message
  | ReqRespIn instant req_resp_message
  | PeerEv network_event
  | DecayTick instant i64 i64

fun net_step :: "net_state \<Rightarrow> net_event \<Rightarrow> net_state result" where
  "net_step ns (GossipIn now now' msg) = Inr (gossip_inbound now now' ns msg)"
| "net_step ns (ReqRespIn now msg) = Inr (reqresp_inbound now ns msg)"
| "net_step ns (PeerEv e) = Inr (ns\<lparr>ns_peers := peer_event (ns_peers ns) e\<rparr>)"
| "net_step ns (DecayTick now decay_by ban_threshold) =
     Inr (ns\<lparr>ns_peers := snd (decay_and_prune now (ns_peers ns) decay_by ban_threshold)\<rparr>)"

definition events_grow :: "net_state \<Rightarrow> net_state \<Rightarrow> bool" where
  "events_grow ns ns' \<longleftrightarrow> (\<exists>es. pm_events (ns_peers ns') = pm_events (ns_peers ns) @ es)"

lemma net_score_ok: "pm_inv (ns_peers ns) \<Longrightarrow> pm_inv (ns_peers (net_score ns p d)) \<and> events_grow ns (net_score ns p d)"
  by (simp add: net_score_def score_delta_inv events_grow_def) (simp add: score_delta_def Let_def emit_def)

lemma net_emit_ok: "pm_inv (ns_peers (net_emit ns e)) = pm_inv (ns_peers ns)" "events_grow ns (net_emit ns e)"
  by (simp_all add: net_emit_def events_grow_def emit_def)

lemma events_grow_refl: "events_grow ns ns"
  by (simp add: events_grow_def)

lemma events_grow_trans: "events_grow ns ns' \<Longrightarrow> events_grow ns' ns'' \<Longrightarrow> events_grow ns ns''"
  by (auto simp: events_grow_def)

lemma events_grow_limiters [simp]:
  "events_grow (ns\<lparr>ns_gossip_limiter := a\<rparr>) ns' = events_grow ns ns'"
  "events_grow (ns\<lparr>ns_reqresp_limiter := a\<rparr>) ns' = events_grow ns ns'"
  "events_grow (ns\<lparr>ns_topic_limiter := a\<rparr>) ns' = events_grow ns ns'"
  by (simp_all add: events_grow_def)

definition net_ok :: "net_state \<Rightarrow> net_state \<Rightarrow> bool" where
  "net_ok ns ns' \<longleftrightarrow> pm_inv (ns_peers ns') \<and> events_grow ns ns'"

lemma net_ok_limiters:
  "net_ok ns ns' \<Longrightarrow> net_ok ns (ns'\<lparr>ns_gossip_limiter := a\<rparr>)"
  "net_ok ns ns' \<Longrightarrow> net_ok ns (ns'\<lparr>ns_reqresp_limiter := a\<rparr>)"
  "net_ok ns ns' \<Longrightarrow> net_ok ns (ns'\<lparr>ns_topic_limiter := a\<rparr>)"
  by (simp_all add: net_ok_def events_grow_def)

lemma net_ok_score: "net_ok ns ns' \<Longrightarrow> net_ok ns (net_score ns' p d)"
  using net_score_ok [of ns' p d] events_grow_trans by (auto simp: net_ok_def)

lemma net_ok_emit: "net_ok ns ns' \<Longrightarrow> net_ok ns (net_emit ns' e)"
  using net_emit_ok [of ns' e] events_grow_trans by (auto simp: net_ok_def)

lemma net_ok_refl: "pm_inv (ns_peers ns) \<Longrightarrow> net_ok ns ns"
  by (simp add: net_ok_def events_grow_refl)

lemmas net_ok_intros = net_ok_limiters net_ok_score net_ok_emit net_ok_refl

lemma gossip_inbound_ok: "pm_inv (ns_peers ns) \<Longrightarrow> net_ok ns (gossip_inbound now now' ns msg)"
  by (auto simp: gossip_inbound_def Let_def split_def intro!: net_ok_intros)

lemma response_score:
  "ns\<lparr>ns_peers := snd (failed_response_from_peer (ns_peers ns) p)\<rparr> = net_score ns p (- 20)"
  "ns\<lparr>ns_peers := snd (successful_response_from_peer (ns_peers ns) p)\<rparr> = net_score ns p 10"
  by (simp_all add: net_score_def failed_response_from_peer_def successful_response_from_peer_def)

lemma reqresp_inbound_eq:
  "reqresp_inbound now ns msg =
     (let (peer, protocol) = (case msg of Request p q _ \<Rightarrow> (p, q) | Response p q _ \<Rightarrow> (p, q));
          (ok, limiter) = allow now (ns_reqresp_limiter ns) (''reqresp_in:'' @ peer @ '':'' @ protocol);
          ns = ns\<lparr>ns_reqresp_limiter := limiter\<rparr>
      in if ok then net_score ns peer 10
         else net_score (net_emit ns (RateLimited peer ''reqresp_in'')) peer (- 20))"
  unfolding reqresp_inbound_def Let_def response_score by (simp add: split_def)

lemma reqresp_inbound_ok: "pm_inv (ns_peers ns) \<Longrightarrow> net_ok ns (reqresp_inbound now ns msg)"
  by (auto simp: reqresp_inbound_eq Let_def split_def intro!: net_ok_intros)

lemma peer_event_ok:
  "pm_inv pm \<Longrightarrow> pm_inv (peer_event pm e) \<and> pm_events (peer_event pm e) = pm_events pm"
  by (cases e) (auto simp: connect_inv disconnect_inv, auto simp: pm_connect_def pm_disconnect_def Let_def)

lemma decay_events: "\<exists>es. pm_events (snd (decay_and_prune now pm d th)) = pm_events pm @ es"
proof -
  let ?ps = "map fst (filter (\<lambda>(p, s). sint s \<le> sint th) (pm_scores (decay_scores d pm)))"
  obtain es where "pm_events (foldl (ban_peer now) (decay_scores d pm) ?ps) = pm_events (decay_scores d pm) @ es"
    using foldl_ban_events by blast
  then show ?thesis by (simp add: decay_and_prune_def Let_def) (simp add: decay_scores_def)
qed

lemma net_step_ok: "pm_inv (ns_peers ns) \<Longrightarrow> net_step ns e = Inr ns' \<Longrightarrow> net_ok ns ns'"
proof (cases e)
  case (PeerEv e')
  then show "pm_inv (ns_peers ns) \<Longrightarrow> net_step ns e = Inr ns' \<Longrightarrow> net_ok ns ns'"
    by (auto simp: net_ok_def events_grow_def peer_event_ok)
next
  case (DecayTick now d th)
  then show "pm_inv (ns_peers ns) \<Longrightarrow> net_step ns e = Inr ns' \<Longrightarrow> net_ok ns ns'"
    using decay_events decay_and_prune_inv by (auto simp: net_ok_def events_grow_def)
qed (auto simp: gossip_inbound_ok reqresp_inbound_ok)

interpretation net_events: event_system net_step "\<lambda>_ _. True" "\<lambda>ns. pm_inv (ns_peers ns)" events_grow
proof
  fix ns e ns' assume "pm_inv (ns_peers ns)" "net_step ns e = Inr ns'"
  then show "pm_inv (ns_peers ns') \<and> events_grow ns ns'" using net_step_ok net_ok_def by blast
next
  fix ns e show "\<exists>ns'. net_step ns e = Inr ns'" by (cases e) simp_all
qed (auto intro: events_grow_refl events_grow_trans)

lemma new_inv: "pm_inv (ns_peers (net_state_new events))"
  by (simp add: pm_inv_def net_state_new_def peer_manager_new_def)

section \<open>Locks\<close>

text \<open>
  The registry is shared by tasks that run concurrently, with one asynchronous mutex per
  collection. An operation is the sequence in which it takes and gives back these locks: a
  guard bound to a variable is held to the end of the function, a guard inside an expression
  to the end of the statement. A step lets one task take a free lock or give one back.
\<close>

datatype lock = Peers_lock | Scores_lock | Backoff_lock
datatype lock_op = Acquire lock | Release lock

definition connect_locks :: "bool \<Rightarrow> lock_op list" where
  "connect_locks inserted =
     [Acquire Peers_lock] @
     (if inserted then [Acquire Scores_lock, Release Scores_lock, Acquire Backoff_lock, Release Backoff_lock]
      else []) @ [Release Peers_lock]"

definition disconnect_locks :: "bool \<Rightarrow> lock_op list" where
  "disconnect_locks removed =
     [Acquire Peers_lock] @ (if removed then [Acquire Scores_lock, Release Scores_lock] else []) @
     [Release Peers_lock]"

definition score_locks :: "lock_op list" where
  "score_locks = [Acquire Scores_lock, Release Scores_lock]"

definition list_locks :: "lock_op list" where
  "list_locks = [Acquire Peers_lock, Release Peers_lock]"

definition backoff_locks :: "lock_op list" where
  "backoff_locks = [Acquire Backoff_lock, Release Backoff_lock]"

definition decay_and_prune_locks :: "lock_op list" where
  "decay_and_prune_locks =
     [Acquire Scores_lock, Acquire Peers_lock, Acquire Backoff_lock,
      Release Backoff_lock, Release Peers_lock, Release Scores_lock]"

type_synonym lock_config = "lock_op list list \<times> (lock \<Rightarrow> nat option)"

inductive lock_step :: "lock_config \<Rightarrow> lock_config \<Rightarrow> bool" where
  acquire: "i < length tasks \<Longrightarrow> tasks ! i = Acquire l # rest \<Longrightarrow> owner l = None \<Longrightarrow>
    lock_step (tasks, owner) (tasks[i := rest], owner(l := Some i))"
| release: "i < length tasks \<Longrightarrow> tasks ! i = Release l # rest \<Longrightarrow> owner l = Some i \<Longrightarrow>
    lock_step (tasks, owner) (tasks[i := rest], owner(l := None))"

definition deadlocked :: "lock_config \<Rightarrow> bool" where
  "deadlocked c \<longleftrightarrow> (\<exists>task \<in> set (fst c). task \<noteq> []) \<and> (\<nexists>c'. lock_step c c')"

inductive_cases lock_stepE: "lock_step (tasks, owner) c"

text \<open>Tasks that take the locks in one order, with the locks held so far.\<close>

fun rank :: "lock \<Rightarrow> nat" where
  "rank Peers_lock = 0" | "rank Scores_lock = 1" | "rank Backoff_lock = 2"

fun in_order :: "lock set \<Rightarrow> lock_op list \<Rightarrow> bool" where
  "in_order H [] \<longleftrightarrow> H = {}"
| "in_order H (Acquire l # ops) \<longleftrightarrow> (\<forall>h \<in> H. rank h < rank l) \<and> in_order (insert l H) ops"
| "in_order H (Release l # ops) \<longleftrightarrow> l \<in> H \<and> in_order (H - {l}) ops"

definition held :: "(lock \<Rightarrow> nat option) \<Rightarrow> nat \<Rightarrow> lock set" where
  "held owner i = {l. owner l = Some i}"

definition lock_inv :: "lock_config \<Rightarrow> bool" where
  "lock_inv c \<longleftrightarrow> (\<forall>i < length (fst c). in_order (held (snd c) i) (fst c ! i)) \<and>
     (\<forall>l i. snd c l = Some i \<longrightarrow> i < length (fst c))"

lemma lock_step_inv:
  assumes "lock_step c c'" "lock_inv c"
  shows "lock_inv c'"
  using assms
proof cases
  case (acquire i tasks l rest owner)
  have "held (owner(l := Some i)) j = (if j = i then insert l (held owner i) else held owner j)" for j
    using acquire(5) by (auto simp: held_def)
  then show ?thesis using acquire assms(2) by (auto simp: lock_inv_def nth_list_update)
next
  case (release i tasks l rest owner)
  have "held (owner(l := None)) j = (if j = i then held owner i - {l} else held owner j)" for j
    using release(5) by (auto simp: held_def)
  moreover have "in_order (held owner i - {l}) rest"
    using release assms(2) by (auto simp: lock_inv_def dest!: spec [where x = i])
  ultimately show ?thesis using release assms(2) by (auto simp: lock_inv_def nth_list_update)
qed

lemma rank_bound: "rank l < 3"
  by (cases l) simp_all

lemma lock_inv_progress:
  assumes inv: "lock_inv (tasks, owner)" and stuck: "\<nexists>c'. lock_step (tasks, owner) c'"
  shows "task \<in> set tasks \<Longrightarrow> task = []"
proof (rule ccontr)
  assume "task \<in> set tasks" "task \<noteq> []"
  define waits where "waits l \<longleftrightarrow> (\<exists>i < length tasks. \<exists>rest. tasks ! i = Acquire l # rest)" for l
  have wait: "\<exists>l rest. tasks ! i = Acquire l # rest" if "i < length tasks" "tasks ! i \<noteq> []" for i
  proof (cases "tasks ! i")
    case (Cons op rest)
    show ?thesis
    proof (cases op)
      case (Release l)
      then have "owner l = Some i" using inv that(1) Cons by (auto simp: lock_inv_def held_def)
      then show ?thesis using lock_step.release [OF that(1)] Cons Release stuck by blast
    qed (use Cons in auto)
  qed (use that in simp)
  obtain k where k: "k < length tasks" "tasks ! k \<noteq> []"
    using \<open>task \<in> set tasks\<close> \<open>task \<noteq> []\<close> by (auto simp: in_set_conv_nth)
  obtain l rest where "tasks ! k = Acquire l # rest" using wait [OF k] by blast
  then have "waits l" using k(1) by (auto simp: waits_def)
  then obtain m where m: "waits m" "\<And>l. waits l \<Longrightarrow> rank l \<le> rank m"
    using ex_has_greatest_nat [of waits l rank 3] rank_bound by blast
  then obtain i rest where i: "i < length tasks" "tasks ! i = Acquire m # rest" by (auto simp: waits_def)
  then obtain j where j: "owner m = Some j" using stuck lock_step.acquire [OF i] by blast
  then have j': "j < length tasks" "m \<in> held owner j" "in_order (held owner j) (tasks ! j)"
    using inv by (auto simp: lock_inv_def held_def)
  then have "tasks ! j \<noteq> []" by auto
  then obtain l rest' where l: "tasks ! j = Acquire l # rest'" using wait j'(1) by blast
  then have "rank m < rank l" using j'(2,3) by auto
  moreover have "rank l \<le> rank m" using m(2) [of l] l j'(1) by (auto simp: waits_def)
  ultimately show False by simp
qed

lemma lock_inv_reach: "lock_step\<^sup>*\<^sup>* c c' \<Longrightarrow> lock_inv c \<Longrightarrow> lock_inv c'"
  by (induction rule: rtranclp_induct) (auto intro: lock_step_inv)

definition ordered_ops :: "lock_op list set" where
  "ordered_ops = {connect_locks True, connect_locks False, disconnect_locks True, disconnect_locks False,
     score_locks, list_locks, backoff_locks}"

lemma ordered_ops_in_order: "ops \<in> ordered_ops \<Longrightarrow> in_order {} ops"
  by (auto simp: ordered_ops_def connect_locks_def disconnect_locks_def score_locks_def list_locks_def
      backoff_locks_def)

lemma ordered_tasks_inv: "set tasks \<subseteq> ordered_ops \<Longrightarrow> lock_inv (tasks, \<lambda>_. None)"
  by (auto simp: lock_inv_def held_def intro!: ordered_ops_in_order)

section \<open>Properties\<close>

text \<open>
  C36 (the registry stays consistent). Whatever mixture of gossip messages, requests, swarm
  events and decay passes the networking tasks process, the published peer count is the
  number of connected peers, no peer is listed twice, every connected peer has a score, and
  the event log only grows.
\<close>

theorem peer_registry_consistent:
  assumes "reaches net_step (\<lambda>_ _. True) (net_state_new events) ns"
  shows "pm_peer_count (ns_peers ns) = card (set (pm_list (ns_peers ns))) \<and> distinct (pm_list (ns_peers ns)) \<and>
    (\<forall>p. is_connected (ns_peers ns) p \<longrightarrow> pm_score (ns_peers ns) p \<noteq> None) \<and>
    (\<exists>es. pm_events (ns_peers ns) = events @ es)"
proof -
  have "pm_inv (ns_peers ns)" "events_grow (net_state_new events) ns"
    using net_events.reaches_inv [OF assms new_inv] by auto
  then show ?thesis
    by (auto simp: pm_inv_def pm_list_def is_connected_def pm_score_def hm_contains_def events_grow_def
        distinct_card net_state_new_def peer_manager_new_def)
qed

theorem peer_registry_consistent_witness:
  "\<exists>ns. net_step (net_state_new []) (PeerEv (PeerConnected ''p'' True)) = Inr ns \<and>
     pm_peer_count (ns_peers ns) = card (set (pm_list (ns_peers ns))) \<and> pm_list (ns_peers ns) = [''p'']"
proof -
  obtain ns where ns: "net_step (net_state_new []) (PeerEv (PeerConnected ''p'' True)) = Inr ns" by simp
  then have "reaches net_step (\<lambda>_ _. True) (net_state_new []) ns"
    by (rule reaches.event [where guard = "\<lambda>_ _. True", OF reaches.start TrueI])
  then have "pm_peer_count (ns_peers ns) = card (set (pm_list (ns_peers ns)))"
    using peer_registry_consistent by blast
  moreover have "pm_list (ns_peers ns) = [''p'']"
    using ns by (auto simp: pm_list_def net_state_new_def peer_manager_new_def pm_connect_def Let_def)
  ultimately show ?thesis using ns by blast
qed

lemma sint_exact:
  fixes a b :: i64
  shows "- (2 ^ 63) \<le> sint a - sint b \<Longrightarrow> sint a - sint b < 2 ^ 63 \<Longrightarrow> sint (a - b) = sint a - sint b"
    and "- (2 ^ 63) \<le> sint a + sint b \<Longrightarrow> sint a + sint b < 2 ^ 63 \<Longrightarrow> sint (a + b) = sint a + sint b"
  by (simp_all add: sint_word_ariths signed_take_bit_int_eq_self)

lemma decay_score_int:
  assumes "0 \<le> sint d"
  shows "sint (decay_score d s) =
    (if 0 < sint s then max (sint s - sint d) 0 else min (sint s + sint d) 0)"
proof -
  have b: "- (2 ^ 63) \<le> sint s" "sint s < 2 ^ 63" "sint d < 2 ^ 63"
    using sint_ge [of s] sint_lt [of s] sint_lt [of d] by simp_all
  have "0 < sint s \<Longrightarrow> sint (s - d) = sint s - sint d" "sint s < 0 \<Longrightarrow> sint (s + d) = sint s + sint d"
    using assms b by (intro sint_exact; simp)+
  then show ?thesis using assms by (auto simp: decay_score_def smax_def smin_def max_def min_def)
qed

text \<open>
  C37 (a decay pass bans exactly the low scores). The peers banned by \<^verbatim>\<open>decay_and_prune\<close>, trusted
  or not, are those whose decayed score is at or below the threshold; they lose their score
  and their connection entry and may not be dialled for two seconds to two minutes. Every
  other peer keeps its connection and has its decayed score. A score decays toward zero and
  not past it: a positive one by subtracting the amount, a negative one by adding it.
\<close>

theorem decay_and_prune_bans:
  assumes "hm_wf (pm_scores pm)" "decay_and_prune now pm decay_by threshold = (banned, pm')"
  shows "(p \<in> set banned \<longleftrightarrow> (\<exists>s. pm_score pm p = Some s \<and> sint (decay_score decay_by s) \<le> sint threshold)) \<and>
    (if p \<in> set banned
     then pm_score pm' p = None \<and> \<not> is_connected pm' p \<and>
       (\<exists>secs. 2 \<le> secs \<and> secs \<le> 120 \<and> backoff_remaining now pm' p = Some (secs * SECOND))
     else pm_score pm' p = map_option (decay_score decay_by) (pm_score pm p) \<and>
       is_connected pm' p = is_connected pm p) \<and>
    (0 \<le> sint decay_by \<longrightarrow> sint (decay_score decay_by s) =
       (if 0 < sint s then max (sint s - sint decay_by) 0 else min (sint s + sint decay_by) 0))"
proof -
  let ?d = "decay_scores decay_by pm"
  let ?ps = "map fst (filter (\<lambda>(p, s). sint s \<le> sint threshold) (pm_scores ?d))"
  let ?f = "foldl (ban_peer now) ?d ?ps"
  have b: "banned = ?ps" and pm': "pm_scores pm' = pm_scores ?f" "pm_peers pm' = pm_peers ?f" "pm_backoff pm' = pm_backoff ?f"
    using assms(2) by (auto simp: decay_and_prune_def Let_def split: if_splits)
  have peers: "pm_peers ?d = pm_peers pm" by (simp add: decay_scores_def)
  have "\<exists>secs. 2 \<le> secs \<and> secs \<le> 120 \<and> backoff_remaining now pm' p = Some (secs * SECOND)"
    if "p \<in> set banned"
  proof -
    have "hm_get (pm_backoff pm') p = hm_get (snd (record_backoff now (pm_backoff ?d) p)) p"
      using that banned_keys(2) [OF assms(1)] unfolding pm' b by (intro foldl_ban_backoff)
    then show ?thesis
      using backoff_secs_bounds
      by (fastforce simp: backoff_remaining_def record_backoff_def Let_def SECOND_def)
  qed
  then show ?thesis
    using banned_keys(1) [OF assms(1), of p threshold decay_by]
    by (intro conjI impI decay_score_int)
      (auto simp: b pm_score_def [of pm'] pm' foldl_ban_fields decay_scores_get is_connected_def peers)
qed

theorem decay_and_prune_bans_witness:
  "\<exists>banned pm'. decay_and_prune 0 (snd (score_delta (peer_manager_new []) ''p'' (- 101))) 1 (- 100) = (banned, pm') \<and>
     ''p'' \<in> set banned \<and> pm_score pm' ''p'' = None \<and> sint (decay_score 1 (- 101)) = - 100"
proof -
  let ?pm = "snd (score_delta (peer_manager_new []) ''p'' (- 101))"
  obtain banned pm' where r: "decay_and_prune 0 ?pm 1 (- 100) = (banned, pm')" by fastforce
  have "hm_wf (pm_scores ?pm)" "pm_score ?pm ''p'' = Some (- 101)"
    by (simp_all add: score_delta_def peer_manager_new_def saturating_add_signed_def pm_score_def hm_wf_def)
  then show ?thesis using r decay_and_prune_bans [of ?pm 0 1 "- 100" banned pm' "''p''" "- 101"] by auto
qed

text \<open>
  C9 (the decay pass can deadlock the registry). Any number of concurrent calls of the other
  operations of the registry never deadlocks, because they take the locks in one order. The
  decay pass takes the lock of the scores before that of the peers, while a connection takes
  them the other way round: one of each can block each other for ever.
\<close>

theorem decay_pass_can_deadlock:
  "(\<forall>tasks c. set tasks \<subseteq> ordered_ops \<longrightarrow> lock_step\<^sup>*\<^sup>* (tasks, \<lambda>_. None) c \<longrightarrow> \<not> deadlocked c) \<and>
   (\<exists>c. lock_step\<^sup>*\<^sup>* ([connect_locks True, decay_and_prune_locks], \<lambda>_. None) c \<and> deadlocked c)"
proof (intro conjI allI impI)
  fix tasks c assume "set tasks \<subseteq> ordered_ops" "lock_step\<^sup>*\<^sup>* (tasks, \<lambda>_. None) c"
  then have "lock_inv c" by (blast intro: lock_inv_reach ordered_tasks_inv)
  then show "\<not> deadlocked c" using lock_inv_progress [of "fst c" "snd c"] by (auto simp: deadlocked_def)
next
  let ?start = "([connect_locks True, decay_and_prune_locks], \<lambda>_. None) :: lock_config"
  let ?mid = "([tl (connect_locks True), decay_and_prune_locks], (\<lambda>_. None)(Peers_lock \<mapsto> 0)) :: lock_config"
  let ?final = "([tl (connect_locks True), tl decay_and_prune_locks],
    (\<lambda>_. None)(Peers_lock \<mapsto> 0, Scores_lock \<mapsto> 1)) :: lock_config"
  have first: "lock_step ?start ?mid"
    using lock_step.acquire [of 0 "fst ?start" Peers_lock "tl (connect_locks True)" "\<lambda>_. None"]
    by (simp add: connect_locks_def)
  have second: "lock_step ?mid ?final"
    using lock_step.acquire [of 1 "fst ?mid" Scores_lock "tl decay_and_prune_locks" "snd ?mid"]
    by (simp add: decay_and_prune_locks_def)
  have reach: "lock_step\<^sup>*\<^sup>* ?start ?final"
    by (rule rtranclp.rtrancl_into_rtrancl [OF r_into_rtranclp [where r = lock_step, OF first] second])
  have stuck: "\<not> lock_step ?final c" for c
  proof
    assume "lock_step ?final c"
    then show False
      by cases (auto simp: connect_locks_def decay_and_prune_locks_def less_Suc_eq)
  qed
  have "tl (connect_locks True) \<noteq> []" by (simp add: connect_locks_def)
  then have "deadlocked ?final" unfolding deadlocked_def using stuck by simp
  then show "\<exists>c. lock_step\<^sup>*\<^sup>* ?start c \<and> deadlocked c" using reach by blast
qed

theorem decay_pass_can_deadlock_witness:
  "\<not> deadlocked ([connect_locks True, disconnect_locks True, score_locks], \<lambda>_. None)"
proof -
  have "set [connect_locks True, disconnect_locks True, score_locks] \<subseteq> ordered_ops"
    by (simp add: ordered_ops_def)
  then show ?thesis
    using decay_pass_can_deadlock [THEN conjunct1, rule_format] rtranclp.rtrancl_refl by blast
qed

end
