(* ===== verification/MemoryStore.thy ===== *)
theory MemoryStore
  imports StateTransition PendingCache
begin

text \<open>
  The in-memory backends of the storage layer: \<^verbatim>\<open>MemoryStore\<close> of \<^verbatim>\<open>src/storage/mod.rs\<close> and
  \<^verbatim>\<open>MemoryIndexStore\<close> of \<^verbatim>\<open>src/storage/index_store.rs\<close>. A \<^verbatim>\<open>BTreeMap\<close> is an association list
  sorted by key. Log messages are left out.
\<close>

section \<open>Sorted maps\<close>

fun bt_insert :: "'k::linorder \<Rightarrow> 'v \<Rightarrow> ('k \<times> 'v) list \<Rightarrow> ('k \<times> 'v) list" where
  "bt_insert k v [] = [(k, v)]"
| "bt_insert k v ((k', v') # m) =
     (if k < k' then (k, v) # (k', v') # m
      else if k = k' then (k, v) # m
      else (k', v') # bt_insert k v m)"

definition bt_wf :: "('k::linorder \<times> 'v) list \<Rightarrow> bool" where
  "bt_wf m \<longleftrightarrow> sorted_wrt (<) (map fst m)"

lemma set_bt_insert: "fst ` set (bt_insert k v m) = insert k (fst ` set m)"
  by (induction k v m rule: bt_insert.induct) auto

lemma bt_wf_Cons: "bt_wf ((k, v) # m) \<longleftrightarrow> (\<forall>x \<in> fst ` set m. k < x) \<and> bt_wf m"
  by (simp add: bt_wf_def)

lemma bt_wf_insert [simp]: "bt_wf m \<Longrightarrow> bt_wf (bt_insert k v m)"
proof (induction k v m rule: bt_insert.induct)
  case (2 k v k' v' m)
  then show ?case unfolding bt_insert.simps by (simp add: bt_wf_Cons set_bt_insert del: ball_simps) fastforce
qed (simp add: bt_wf_def)

lemma bt_get_insert [simp]: "bt_wf m \<Longrightarrow> map_of (bt_insert k v m) = (map_of m)(k \<mapsto> v)"
proof (induction k v m rule: bt_insert.induct)
  case (2 k v k' v' m)
  then show ?case by (cases "k < k'"; cases "k = k'") (auto simp: bt_wf_def fun_eq_iff)
qed auto

lemma bt_wf_delete [simp]: "bt_wf m \<Longrightarrow> bt_wf (AList.delete k m)"
  by (induction m) (auto simp: bt_wf_def AList.delete_eq)

lemma bt_wf_distinct: "bt_wf m \<Longrightarrow> distinct (map fst m)"
  by (simp add: bt_wf_def strict_sorted_iff)

section \<open>MemoryIndexStore\<close>

record fork_choice_meta =
  fcm_head :: "bytes32 option"
  fcm_finalized :: "bytes32 option"
  fcm_justified :: "bytes32 option"

record index_batch =
  ib_state_block_upserts :: "(u64 \<times> bytes32) list"
  ib_block_upserts :: "(u64 \<times> bytes32) list"
  ib_state_deletes :: "u64 list"
  ib_block_deletes :: "u64 list"
  ib_meta :: "fork_choice_meta option"

record memory_index_store =
  mi_state_block_by_slot :: "(u64 \<times> bytes32) list"
  mi_block_by_slot :: "(u64 \<times> bytes32) list"
  mi_meta :: fork_choice_meta

definition memory_index_store_new :: memory_index_store where
  "memory_index_store_new = \<lparr>mi_state_block_by_slot = [], mi_block_by_slot = [],
     mi_meta = \<lparr>fcm_head = None, fcm_finalized = None, fcm_justified = None\<rparr>\<rparr>"

definition get_state_block_root_by_slot :: "memory_index_store \<Rightarrow> u64 \<Rightarrow> bytes32 option" where
  "get_state_block_root_by_slot s slot = map_of (mi_state_block_by_slot s) slot"

definition get_block_root_by_slot :: "memory_index_store \<Rightarrow> u64 \<Rightarrow> bytes32 option" where
  "get_block_root_by_slot s slot = map_of (mi_block_by_slot s) slot"

definition range_below :: "u64 \<Rightarrow> (u64 \<times> bytes32) list \<Rightarrow> (u64 \<times> bytes32) list" where
  "range_below upper = takeWhile (\<lambda>(slot, _). slot < upper)"

definition iter_state_block_slots_lt :: "memory_index_store \<Rightarrow> u64 \<Rightarrow> (u64 \<times> bytes32) list" where
  "iter_state_block_slots_lt s upper_exclusive = range_below upper_exclusive (mi_state_block_by_slot s)"

definition iter_block_slots_lt :: "memory_index_store \<Rightarrow> u64 \<Rightarrow> (u64 \<times> bytes32) list" where
  "iter_block_slots_lt s upper_exclusive = range_below upper_exclusive (mi_block_by_slot s)"

definition get_meta :: "memory_index_store \<Rightarrow> fork_choice_meta" where
  "get_meta s = mi_meta s"

definition upsert_all :: "(u64 \<times> bytes32) list \<Rightarrow> (u64 \<times> bytes32) list \<Rightarrow> (u64 \<times> bytes32) list" where
  "upsert_all rows m = fold (\<lambda>(slot, root). bt_insert slot root) rows m"

definition delete_all :: "u64 list \<Rightarrow> (u64 \<times> bytes32) list \<Rightarrow> (u64 \<times> bytes32) list" where
  "delete_all slots m = fold AList.delete slots m"

definition apply_batch :: "memory_index_store \<Rightarrow> index_batch \<Rightarrow> memory_index_store result" where
  "apply_batch s batch =
     (let s = s\<lparr>mi_state_block_by_slot := upsert_all (ib_state_block_upserts batch) (mi_state_block_by_slot s)\<rparr>;
          s = s\<lparr>mi_block_by_slot := upsert_all (ib_block_upserts batch) (mi_block_by_slot s)\<rparr>;
          s = s\<lparr>mi_state_block_by_slot := delete_all (ib_state_deletes batch) (mi_state_block_by_slot s)\<rparr>;
          s = s\<lparr>mi_block_by_slot := delete_all (ib_block_deletes batch) (mi_block_by_slot s)\<rparr>
      in Inr (case ib_meta batch of None \<Rightarrow> s | Some m \<Rightarrow> s\<lparr>mi_meta := m\<rparr>))"

definition mi_inv :: "memory_index_store \<Rightarrow> bool" where
  "mi_inv s \<longleftrightarrow> bt_wf (mi_state_block_by_slot s) \<and> bt_wf (mi_block_by_slot s)"

text \<open>The rows of a slot table after a batch: the last upsert of a slot counts, and a delete
  of the slot removes it whatever was upserted.\<close>

definition batched :: "(u64 \<times> bytes32) list \<Rightarrow> u64 list \<Rightarrow> (u64 \<rightharpoonup> bytes32) \<Rightarrow> u64 \<rightharpoonup> bytes32" where
  "batched upserts deletes m slot =
     (if slot \<in> set deletes then None
      else case map_of (rev upserts) slot of None \<Rightarrow> m slot | Some root \<Rightarrow> Some root)"

lemma upsert_all_spec:
  "bt_wf m \<Longrightarrow> bt_wf (upsert_all rows m) \<and> map_of (upsert_all rows m) = map_of m ++ map_of (rev rows)"
proof (induction rows arbitrary: m)
  case (Cons r rows)
  obtain slot root where r: "r = (slot, root)" by (cases r)
  have "upsert_all (r # rows) m = upsert_all rows (bt_insert slot root m)"
    by (simp add: upsert_all_def r)
  with Cons.IH [of "bt_insert slot root m"] Cons.prems show ?case
    by (simp add: r map_add_def fun_eq_iff split: option.split)
qed (simp add: upsert_all_def)

lemma delete_all_spec:
  "bt_wf m \<Longrightarrow> bt_wf (delete_all slots m) \<and> map_of (delete_all slots m) = map_of m |` (- set slots)"
proof (induction slots arbitrary: m)
  case (Cons slot slots)
  have "delete_all (slot # slots) m = delete_all slots (AList.delete slot m)"
    by (simp add: delete_all_def)
  with Cons.IH [of "AList.delete slot m"] Cons.prems show ?case
    by (auto simp: restrict_map_def fun_eq_iff)
qed (simp add: delete_all_def restrict_map_def)

lemma batched_eq:
  assumes "bt_wf m"
  shows "bt_wf (delete_all deletes (upsert_all upserts m))"
    "map_of (delete_all deletes (upsert_all upserts m)) = batched upserts deletes (map_of m)"
  using upsert_all_spec [OF assms, of upserts] delete_all_spec [of "upsert_all upserts m" deletes]
  by (simp_all add: batched_def restrict_map_def map_add_def fun_eq_iff)

lemma range_below_spec:
  assumes "bt_wf m"
  shows "bt_wf (range_below upper m)"
    "(slot, root) \<in> set (range_below upper m) \<longleftrightarrow> map_of m slot = Some root \<and> slot < upper"
proof -
  have eq: "range_below upper m = filter (\<lambda>(slot, _). slot < upper) m"
    using assms unfolding range_below_def bt_wf_def by (induction m) (auto simp: filter_empty_conv intro!: filter_empty_conv [THEN iffD2, symmetric])
  show "bt_wf (range_below upper m)"
    using assms unfolding eq bt_wf_def by (induction m) auto
  show "(slot, root) \<in> set (range_below upper m) \<longleftrightarrow> map_of m slot = Some root \<and> slot < upper"
    using bt_wf_distinct [OF assms] by (auto simp: eq)
qed

section \<open>MemoryStore\<close>

record memory_store =
  ms_states :: "(bytes32, state) hmap"
  ms_state_root_to_block_root :: "(bytes32, bytes32) hmap"
  ms_blocks :: "(bytes32, block) hmap"
  ms_signed_blocks :: "(bytes32, signed_block) hmap"
  ms_state_by_slot :: "(u64, bytes32) hmap"
  ms_block_by_slot :: "(u64, bytes32) hmap"
  ms_head :: "bytes32 option"
  ms_finalized :: "bytes32 option"
  ms_finalized_slot :: "u64 option"
  ms_justified :: "bytes32 option"

definition memory_store_new :: memory_store where
  "memory_store_new = \<lparr>ms_states = [], ms_state_root_to_block_root = [], ms_blocks = [],
     ms_signed_blocks = [], ms_state_by_slot = [], ms_block_by_slot = [], ms_head = None,
     ms_finalized = None, ms_finalized_slot = None, ms_justified = None\<rparr>"

definition ms_get_state :: "memory_store \<Rightarrow> bytes32 \<Rightarrow> state option" where
  "ms_get_state ms root =
     (let owner = (case hm_get (ms_state_root_to_block_root ms) root of None \<Rightarrow> root | Some r \<Rightarrow> r)
      in hm_get (ms_states ms) owner)"

definition ms_put_state :: "ssz_lib \<Rightarrow> memory_store \<Rightarrow> bytes32 \<Rightarrow> state \<Rightarrow> memory_store" where
  "ms_put_state L ms root s =
     ms\<lparr>ms_state_by_slot := hm_insert (st_slot s) root (ms_state_by_slot ms),
        ms_state_root_to_block_root := hm_insert (state_root L s) root (ms_state_root_to_block_root ms),
        ms_states := hm_insert root s (ms_states ms)\<rparr>"

definition ms_get_block :: "memory_store \<Rightarrow> bytes32 \<Rightarrow> block option" where
  "ms_get_block ms root = hm_get (ms_blocks ms) root"

definition ms_get_signed_block :: "memory_store \<Rightarrow> bytes32 \<Rightarrow> signed_block option" where
  "ms_get_signed_block ms root = hm_get (ms_signed_blocks ms) root"

definition ms_put_block :: "memory_store \<Rightarrow> bytes32 \<Rightarrow> block \<Rightarrow> memory_store" where
  "ms_put_block ms root b =
     ms\<lparr>ms_block_by_slot := hm_insert (b_slot b) root (ms_block_by_slot ms),
        ms_blocks := hm_insert root b (ms_blocks ms)\<rparr>"

text \<open>The caller's state is changed in place; a refused block changes neither it nor the store.\<close>

definition ms_put_signed_block ::
    "ssz_lib \<Rightarrow> ('pk, 'sk, 'sig, 'agg) pq_lib \<Rightarrow> memory_store \<Rightarrow> bytes32 \<Rightarrow> signed_block \<Rightarrow> state \<Rightarrow>
     (memory_store \<times> state) result" where
  "ms_put_signed_block L Q ms root sb s =
     (case process_signed_block L Q s sb of
        (Inl e, _) \<Rightarrow> Inl e
      | (Inr _, post) \<Rightarrow>
          let b = bwa_block (sb_message sb); slot = b_slot b in
          Inr (ms\<lparr>ms_state_by_slot := hm_insert slot root (ms_state_by_slot ms),
                  ms_state_root_to_block_root :=
                    hm_insert (state_root L post) root (ms_state_root_to_block_root ms),
                  ms_states := hm_insert root post (ms_states ms),
                  ms_block_by_slot := hm_insert slot root (ms_block_by_slot ms),
                  ms_blocks := hm_insert root b (ms_blocks ms),
                  ms_signed_blocks := hm_insert root sb (ms_signed_blocks ms),
                  ms_head := Some root, ms_justified := Some (cp_root (st_latest_justified post)),
                  ms_finalized := Some (cp_root (st_latest_finalized post)),
                  ms_finalized_slot := Some (cp_slot (st_latest_finalized post))\<rparr>, post))"

definition ms_get_state_by_slot :: "memory_store \<Rightarrow> u64 \<Rightarrow> state option" where
  "ms_get_state_by_slot ms slot =
     (case hm_get (ms_state_by_slot ms) slot of None \<Rightarrow> None | Some root \<Rightarrow> hm_get (ms_states ms) root)"

definition ms_get_block_by_slot :: "memory_store \<Rightarrow> u64 \<Rightarrow> block option" where
  "ms_get_block_by_slot ms slot =
     (case hm_get (ms_block_by_slot ms) slot of None \<Rightarrow> None | Some root \<Rightarrow> hm_get (ms_blocks ms) root)"

definition ms_set_head :: "memory_store \<Rightarrow> bytes32 \<Rightarrow> memory_store" where
  "ms_set_head ms root = ms\<lparr>ms_head := Some root\<rparr>"

definition ms_set_justified :: "memory_store \<Rightarrow> bytes32 \<Rightarrow> memory_store" where
  "ms_set_justified ms root = ms\<lparr>ms_justified := Some root\<rparr>"

definition ms_set_finalized_checkpoint :: "memory_store \<Rightarrow> checkpoint \<Rightarrow> memory_store" where
  "ms_set_finalized_checkpoint ms c =
     (if (case ms_finalized_slot ms of Some current \<Rightarrow> cp_slot c < current | None \<Rightarrow> False) then ms
      else ms\<lparr>ms_finalized := Some (cp_root c), ms_finalized_slot := Some (cp_slot c)\<rparr>)"

definition ms_set_finalized :: "memory_store \<Rightarrow> bytes32 \<Rightarrow> memory_store" where
  "ms_set_finalized ms root =
     (case hm_get (ms_blocks ms) root of
        None \<Rightarrow> ms
      | Some b \<Rightarrow>
          if (case ms_finalized_slot ms of Some current \<Rightarrow> b_slot b < current | None \<Rightarrow> False) then ms
          else ms\<lparr>ms_finalized := Some root, ms_finalized_slot := Some (b_slot b)\<rparr>)"

text \<open>Every slot row points to an object that is stored under its root.\<close>

definition ms_inv :: "memory_store \<Rightarrow> bool" where
  "ms_inv ms \<longleftrightarrow>
     (\<forall>slot root. hm_get (ms_block_by_slot ms) slot = Some root \<longrightarrow> ms_get_block ms root \<noteq> None) \<and>
     (\<forall>slot root. hm_get (ms_state_by_slot ms) slot = Some root \<longrightarrow> hm_get (ms_states ms) root \<noteq> None) \<and>
     (\<forall>r root. hm_get (ms_state_root_to_block_root ms) r = Some root \<longrightarrow> hm_get (ms_states ms) root \<noteq> None)"

lemma ms_inv_ops:
  "ms_inv memory_store_new"
  "ms_inv ms \<Longrightarrow> ms_inv (ms_put_state L ms root s)"
  "ms_inv ms \<Longrightarrow> ms_inv (ms_put_block ms root b)"
  "ms_inv ms \<Longrightarrow> ms_inv (ms_set_head ms root)"
  "ms_inv ms \<Longrightarrow> ms_inv (ms_set_justified ms root)"
  "ms_inv ms \<Longrightarrow> ms_inv (ms_set_finalized ms root)"
  "ms_inv ms \<Longrightarrow> ms_inv (ms_set_finalized_checkpoint ms c)"
  by (auto simp: ms_inv_def memory_store_new_def ms_put_state_def ms_put_block_def ms_get_block_def
      ms_set_head_def ms_set_justified_def ms_set_finalized_def ms_set_finalized_checkpoint_def
      split: option.splits)

lemma ms_put_signed_block_ok:
  assumes "ms_put_signed_block L Q ms root sb s = Inr (ms', post)"
  shows "process_signed_block L Q s sb = (Inr (), post)"
    "ms_get_signed_block ms' = (ms_get_signed_block ms)(root \<mapsto> sb)"
    "ms_get_block ms' = (ms_get_block ms)(root \<mapsto> bwa_block (sb_message sb))"
    "ms_get_block_by_slot ms' (b_slot (bwa_block (sb_message sb))) = Some (bwa_block (sb_message sb))"
    "ms_get_state_by_slot ms' (b_slot (bwa_block (sb_message sb))) = Some post"
    "ms_get_state ms' (state_root L post) = Some post"
    "ms_inv ms \<Longrightarrow> ms_inv ms'"
    "ms_head ms' = Some root" "ms_finalized_slot ms' = Some (cp_slot (st_latest_finalized post))"
  using assms
  by (auto simp: ms_put_signed_block_def Let_def ms_get_signed_block_def ms_get_block_def fun_eq_iff
      ms_get_block_by_slot_def ms_get_state_by_slot_def ms_get_state_def ms_inv_def
      split: prod.splits sum.splits if_splits)

end
