(* ===== verification/ReqRespHandler.thy ===== *)
theory ReqRespHandler
  imports ReqResp FileStore MemoryStore
begin

text \<open>
  The request handlers of \<^verbatim>\<open>src/networking/reqresp_handler.rs\<close>. The handler sees a store only
  through the lookups of the \<^verbatim>\<open>Store\<close> trait; \<open>store_view\<close> holds those it calls, and
  \<open>file_store_view\<close> and \<open>memory_store_view\<close> are the two stores of the crate seen through it.
  The theorem gives the answers of the handler in terms of the lookups, failures included.
\<close>

section \<open>The handlers\<close>

record store_view =
  sv_head :: "bytes32 option"
  sv_finalized :: "bytes32 option"
  sv_get_block :: "bytes32 \<Rightarrow> block option result"
  sv_get_signed_block :: "bytes32 \<Rightarrow> signed_block option result"
  sv_get_block_by_slot :: "u64 \<Rightarrow> block option result"

definition file_store_view :: "('db, 'tx) redb \<Rightarrow> ssz_lib \<Rightarrow> 'db file_store \<Rightarrow> store_view" where
  "file_store_view R L fs = \<lparr>sv_head = fs_head fs, sv_finalized = fs_finalized fs,
     sv_get_block = fs_get_block R L fs, sv_get_signed_block = fs_get_signed_block R L fs,
     sv_get_block_by_slot = fs_get_block_by_slot R L fs\<rparr>"

definition memory_store_view :: "memory_store \<Rightarrow> store_view" where
  "memory_store_view ms = \<lparr>sv_head = ms_head ms, sv_finalized = ms_finalized ms,
     sv_get_block = Inr \<circ> ms_get_block ms, sv_get_signed_block = Inr \<circ> ms_get_signed_block ms,
     sv_get_block_by_slot = Inr \<circ> ms_get_block_by_slot ms\<rparr>"

definition noop_on_request :: "lean_request_message \<Rightarrow> lean_response_message list" where
  "noop_on_request request = []"

definition build_status :: "ssz_lib \<Rightarrow> store_view \<Rightarrow> state \<Rightarrow> status result" where
  "build_status L v s =
     and_then (case sv_head v of
                 None \<Rightarrow> Inr None
               | Some root \<Rightarrow> and_then (sv_get_block v root) (\<lambda>b.
                   Inr (map_option (\<lambda>block. (root, b_slot block)) b))) (\<lambda>hit.
     let (head_root, head_slot) = (case hit of
           Some x \<Rightarrow> x
         | None \<Rightarrow> (block_header_root L (st_latest_block_header s), st_slot s)) in
     Inr \<lparr>status_finalized_root =
            (case sv_finalized v of None \<Rightarrow> cp_root (st_latest_finalized s) | Some r \<Rightarrow> r),
          status_finalized_slot = cp_slot (st_latest_finalized s),
          status_head_root = head_root, status_head_slot = head_slot\<rparr>)"

definition checked_mul :: "u64 \<Rightarrow> u64 \<Rightarrow> u64 option" where
  "checked_mul a b = (if unat a * unat b < 2 ^ 64 then Some (a * b) else None)"

definition checked_add :: "u64 \<Rightarrow> u64 \<Rightarrow> u64 option" where
  "checked_add a b = (if unat a + unat b < 2 ^ 64 then Some (a + b) else None)"

text \<open>The loop over the offsets \<open>offset ..< offset + n\<close> of a range request.\<close>

fun range_loop ::
    "ssz_lib \<Rightarrow> store_view \<Rightarrow> u64 \<Rightarrow> u64 \<Rightarrow> u64 \<Rightarrow> nat \<Rightarrow> lean_response_message list \<Rightarrow>
     lean_response_message list result" where
  "range_loop L v start_slot step offset 0 blocks = Inr blocks"
| "range_loop L v start_slot step offset (Suc n) blocks =
     (case checked_mul offset step of
        None \<Rightarrow> Inr blocks
      | Some step_offset \<Rightarrow>
     (case checked_add start_slot step_offset of
        None \<Rightarrow> Inr blocks
      | Some slot \<Rightarrow>
          and_then (sv_get_block_by_slot v slot) (\<lambda>b.
          case b of
            None \<Rightarrow> range_loop L v start_slot step (offset + 1) n blocks
          | Some block \<Rightarrow>
              and_then (sv_get_signed_block v (block_root L block)) (\<lambda>f.
              range_loop L v start_slot step (offset + 1) n
                (case f of None \<Rightarrow> blocks | Some found \<Rightarrow> blocks @ [BlocksByRangeBlock found])))))"

fun root_loop ::
    "store_view \<Rightarrow> bytes32 list \<Rightarrow> lean_response_message list \<Rightarrow> lean_response_message list result" where
  "root_loop v [] blocks = Inr blocks"
| "root_loop v (root # roots) blocks =
     and_then (sv_get_signed_block v root) (\<lambda>f.
     root_loop v roots (case f of None \<Rightarrow> blocks | Some found \<Rightarrow> blocks @ [BlocksByRootBlock found]))"

fun on_request ::
    "ssz_lib \<Rightarrow> store_view \<Rightarrow> state \<Rightarrow> lean_request_message \<Rightarrow> lean_response_message list result" where
  "on_request L v s (StatusRequest _) =
     and_then (build_status L v s) (\<lambda>st. Inr [StatusResponse st])"
| "on_request L v s (BlocksByRangeMessage req) =
     (let n = min (range_count req) (of_nat MAX_BLOCKS_PER_REQUEST); step = max (range_step req) 1
      in range_loop L v (range_start_slot req) step 0 (unat n) [])"
| "on_request L v s (BlocksByRootMessage req) =
     root_loop v (take MAX_BLOCKS_PER_ROOT_REQUEST (req_roots req)) []"

section \<open>What the answers are\<close>

text \<open>The slots of a range request: multiples of the step from the start, at most 1024 of
  them and none past the last slot.\<close>

definition range_slots :: "blocks_by_range_request \<Rightarrow> u64 list" where
  "range_slots req =
     map (\<lambda>i. of_nat (unat (range_start_slot req) + i * max 1 (unat (range_step req))))
       (filter (\<lambda>i. unat (range_start_slot req) + i * max 1 (unat (range_step req)) < 2 ^ 64)
         [0..<min (unat (range_count req)) MAX_BLOCKS_PER_REQUEST])"

definition serve_slot :: "ssz_lib \<Rightarrow> store_view \<Rightarrow> u64 \<Rightarrow> signed_block option result" where
  "serve_slot L v slot =
     and_then (sv_get_block_by_slot v slot) (\<lambda>b.
     case b of None \<Rightarrow> Inr None | Some block \<Rightarrow> sv_get_signed_block v (block_root L block))"

lemma root_loop_eq:
  "root_loop v roots blocks = and_then (traverse (sv_get_signed_block v) roots) (\<lambda>found.
     Inr (blocks @ map BlocksByRootBlock (somes found)))"
proof (induction roots arbitrary: blocks)
  case (Cons root roots)
  then show ?case by (auto simp: and_then_def split: sum.splits option.splits)
qed simp

lemma checked_slot:
  fixes offset step start :: u64
  assumes "0 < unat step"
  shows "Option.bind (checked_mul offset step) (checked_add start) =
    (if unat start + unat offset * unat step < 2 ^ 64
     then Some (of_nat (unat start + unat offset * unat step)) else None)"
proof (cases "unat offset * unat step < 2 ^ 64")
  case True
  then have "unat (offset * step) = unat offset * unat step"
    by (simp add: unat_mult_lem [THEN iffD1])
  with True show ?thesis by (simp add: checked_mul_def checked_add_def)
next
  case False
  then show ?thesis by (simp add: checked_mul_def)
qed

lemma range_loop_eq:
  assumes "0 < unat step" "unat offset + n < 2 ^ 64"
  shows "range_loop L v start step offset n blocks =
    and_then (traverse (serve_slot L v)
      (map (\<lambda>i. of_nat (unat start + i * unat step))
        (filter (\<lambda>i. unat start + i * unat step < 2 ^ 64) [unat offset..<unat offset + n]))) (\<lambda>found.
    Inr (blocks @ map BlocksByRangeBlock (somes found)))"
  using assms(2)
proof (induction n arbitrary: offset blocks)
  case (Suc n)
  have suc: "unat (offset + 1) = Suc (unat offset)"
    using Suc.prems by (simp add: unat_word_ariths)
  let ?at = "\<lambda>i. unat start + i * unat step"
  have upt: "[unat offset..<unat offset + Suc n] = unat offset # [unat (offset + 1)..<unat (offset + 1) + n]"
    by (simp add: suc upt_rec [of "unat offset"])
  show ?case
  proof (cases "?at (unat offset) < 2 ^ 64")
    case False
    have "?at (unat offset) \<le> ?at i" if "unat offset \<le> i" for i
      using that by simp
    then have "filter (\<lambda>i. ?at i < 2 ^ 64) [unat offset..<unat offset + Suc n] = []"
      using False by (auto simp: filter_empty_conv not_less intro: order_trans)
    moreover have "checked_mul offset step = None \<or>
        (\<exists>m. checked_mul offset step = Some m \<and> checked_add start m = None)"
      using checked_slot [OF assms(1), of offset start] False by (cases "checked_mul offset step") auto
    ultimately show ?thesis by auto
  next
    case True
    then obtain m where m: "checked_mul offset step = Some m"
      "checked_add start m = Some (of_nat (?at (unat offset)))"
      using checked_slot [OF assms(1), of offset start] by (cases "checked_mul offset step") auto
    have "unat (offset + 1) + n < 2 ^ 64" using Suc.prems by (simp add: suc)
    note IH = Suc.IH [OF this]
    show ?thesis
      unfolding upt range_loop.simps m option.case IH
      using True by (auto simp: serve_slot_def [of L v "start + offset * step"] and_then_def
        split: sum.splits option.splits)
  qed
qed simp

lemma range_slots_props:
  "length (range_slots req) \<le> MAX_BLOCKS_PER_REQUEST" "sorted_wrt (<) (range_slots req)"
  "slot \<in> set (range_slots req) \<longleftrightarrow> (\<exists>i < min (unat (range_count req)) MAX_BLOCKS_PER_REQUEST.
     unat slot = unat (range_start_slot req) + i * max 1 (unat (range_step req)))"
proof -
  let ?at = "\<lambda>i. unat (range_start_slot req) + i * max 1 (unat (range_step req))"
  let ?is = "filter (\<lambda>i. ?at i < 2 ^ 64) [0..<min (unat (range_count req)) MAX_BLOCKS_PER_REQUEST]"
  have "length ?is \<le> length [0..<min (unat (range_count req)) MAX_BLOCKS_PER_REQUEST]"
    by (rule length_filter_le)
  then show "length (range_slots req) \<le> MAX_BLOCKS_PER_REQUEST" by (simp add: range_slots_def)
  have at: "unat (of_nat (?at i) :: u64) = ?at i" if "i \<in> set ?is" for i
    using that by (simp add: unat_of_nat take_bit_nat_eq_self del: of_nat_add of_nat_mult)
  have less: "(of_nat (?at i) :: u64) < of_nat (?at j)" if "i \<in> set ?is" "j \<in> set ?is" "i < j" for i j
    using that(3) unfolding word_less_nat_alt at [OF that(1)] at [OF that(2)] by simp
  have "sorted_wrt (<) ?is" by (simp add: sorted_wrt_filter)
  then have "sorted_wrt (\<lambda>i j. (of_nat (?at i) :: u64) < of_nat (?at j)) ?is"
    using less by (rule sorted_wrt_mono_rel [rotated])
  then show "sorted_wrt (<) (range_slots req)" by (simp add: range_slots_def sorted_wrt_map)
  have "slot \<in> set (range_slots req) \<longleftrightarrow> (\<exists>i \<in> set ?is. slot = of_nat (?at i))"
    unfolding range_slots_def set_map by blast
  also have "\<dots> \<longleftrightarrow> (\<exists>i \<in> set ?is. unat slot = ?at i)"
  proof (rule bex_cong [OF refl])
    fix i assume "i \<in> set ?is"
    from at [OF this] show "slot = of_nat (?at i) \<longleftrightarrow> unat slot = ?at i"
      unfolding word_unat_eq_iff by (rule arg_cong)
  qed
  also have "\<dots> \<longleftrightarrow> (\<exists>i < min (unat (range_count req)) MAX_BLOCKS_PER_REQUEST. unat slot = ?at i)"
  proof -
    have "unat slot < 2 ^ 64" using unsigned_less [of slot] by simp
    then show ?thesis by fastforce
  qed
  finally show "slot \<in> set (range_slots req) \<longleftrightarrow> (\<exists>i < min (unat (range_count req)) MAX_BLOCKS_PER_REQUEST.
     unat slot = unat (range_start_slot req) + i * max 1 (unat (range_step req)))" .
qed

lemma on_request_range:
  "on_request L v s (BlocksByRangeMessage req) =
     and_then (traverse (serve_slot L v) (range_slots req)) (\<lambda>found.
     Inr (map BlocksByRangeBlock (somes found)))"
proof -
  let ?n = "min (range_count req) (of_nat MAX_BLOCKS_PER_REQUEST)" and ?step = "max (range_step req) 1"
  have n: "unat ?n = min (unat (range_count req)) MAX_BLOCKS_PER_REQUEST"
    by (simp add: MAX_BLOCKS_PER_REQUEST_def min_def word_le_nat_alt)
  have step: "unat ?step = max 1 (unat (range_step req))"
    by (simp add: max_def word_le_nat_alt)
  show ?thesis
    using range_loop_eq [of ?step 0 "unat ?n" L v "range_start_slot req" "[]"]
    unfolding on_request.simps Let_def range_slots_def n step
    by (simp add: MAX_BLOCKS_PER_REQUEST_def del: of_nat_add of_nat_mult)
qed

text \<open>
  C34 (requests are answered from the store). A blocks-by-root request is answered with the
  signed blocks of the first 1024 roots that the store has, in the order of the request. A
  blocks-by-range request is answered with the signed blocks that the store has at the
  slots \<open>start + i * step\<close> for the first 1024 numbers \<open>i\<close> below the count, in ascending order;
  slots past the last one are left out and a step of zero counts as one. Neither loop
  overflows. A lookup that fails is the answer to the whole request.
\<close>

theorem requests_answered_from_store:
  "on_request L v s (BlocksByRootMessage q) =
     and_then (traverse (sv_get_signed_block v) (take MAX_BLOCKS_PER_ROOT_REQUEST (req_roots q))) (\<lambda>found.
     Inr (map BlocksByRootBlock (somes found))) \<and>
   on_request L v s (BlocksByRangeMessage req) =
     and_then (traverse (serve_slot L v) (range_slots req)) (\<lambda>found.
     Inr (map BlocksByRangeBlock (somes found))) \<and>
   length (range_slots req) \<le> MAX_BLOCKS_PER_REQUEST \<and> sorted_wrt (<) (range_slots req) \<and>
   (slot \<in> set (range_slots req) \<longleftrightarrow> (\<exists>i < min (unat (range_count req)) MAX_BLOCKS_PER_REQUEST.
     unat slot = unat (range_start_slot req) + i * max 1 (unat (range_step req))))"
  using range_slots_props on_request_range by (simp add: root_loop_eq)

end
