(* ===== verification/Spec2Isabelle.thy ===== *)
theory Spec2Isabelle
  imports Transition ForkChoiceProps FileStoreProps GossipContext PeerManager ReqRespHandler
begin

text \<open>
  Verification of Peam, a client of the lean consensus protocol written in Rust.

  The program. Peers send blocks and votes over gossip and ask for blocks over a
  request/response protocol (\<^verbatim>\<open>src/networking/\<close>). A message is decoded from SSZ bytes
  (\<^verbatim>\<open>src/containers/\<close>, \<^verbatim>\<open>src/types/\<close>), filtered against the slot clock and the known chain,
  and its signatures are verified (\<^verbatim>\<open>src/crypto/pq.rs\<close>). An accepted block runs through the
  state transition (\<^verbatim>\<open>src/containers/state.rs\<close>), which also decides justification and
  finalization, is written to the store (\<^verbatim>\<open>src/storage/\<close>) and enters the fork choice
  (\<^verbatim>\<open>src/fork_choice.rs\<close>), which selects the head from the latest votes.

  \<^bold>\<open>Foundations.\<close>
  \<^item> \<open>Prelude\<close>: machine integers as words, results in which every early return, panic and
    undefined behaviour is a value (\<open>error\<close>), hash maps as association lists.
  \<^item> \<open>Slot\<close> (\<^verbatim>\<open>src/slot.rs\<close>): the slot clock and the rule which slots are justifiable. The
    theorems show that the integer square root is exact and that the test is the 3SF-mini
    rule for distances below \<open>2 ^ 62\<close>.
  \<^item> \<open>Bits\<close>, \<open>TextOps\<close>: bit fields in byte vectors; splitting, trimming and number parsing of
    strings.
  \<^item> \<open>EventSystem\<close>: the locales \<open>event_invariant\<close> and \<open>event_system\<close> of components that react
    to events. They are interpreted for the fork choice (\<open>fc_events\<close>), the disk store
    (\<open>store_events\<close>) and the networking state (\<open>net_events\<close>).

  \<^bold>\<open>Data and codecs.\<close>
  \<^item> \<open>Bytes\<close> (\<^verbatim>\<open>src/types/\<close>, \<^verbatim>\<open>src/unsafe_vec.rs\<close>): byte strings and the locales \<open>fixed_layout\<close> and
    \<open>fixed_codec\<close> that an encoder/decoder pair of fixed length satisfies.
  \<^item> \<open>Containers\<close>, \<open>FixedCodec\<close>, \<open>VarCodec\<close>, \<open>StateCodec\<close> (\<^verbatim>\<open>src/containers/\<close>): the structs as
    records; encoders, the trusting and the checked decoders and the hash-tree roots. Every
    codec is an interpretation of \<open>fixed_codec\<close> or \<open>var_codec\<close>; round trips, exact acceptance
    and absence of panics follow, and where a decoder does panic or misread, a theorem
    shows on which bytes.
  \<^item> \<open>ReqResp\<close> (\<^verbatim>\<open>containers/req_resp.rs\<close>, \<^verbatim>\<open>containers/gossip.rs\<close>,
    \<^verbatim>\<open>networking/reqresp_messages.rs\<close>): messages, protocol names and dispatch.

  \<^bold>\<open>State transition.\<close>
  \<^item> \<open>Justification\<close>, \<open>VoteBitmap\<close>, \<open>StateTransition\<close> (\<^verbatim>\<open>src/containers/state.rs\<close>): the justified
    window, the vote bitmap, genesis, slots, headers, attestations, signed blocks. The bit
    fields refine sets of slots and of validators.
  \<^item> \<open>VoteTally\<close>, \<open>Finality\<close>: \<open>process_attestations\<close> refines a tally on sets; finality never
    moves back, justification needs two thirds of the validators and finalization a
    justified successor.
  \<^item> \<open>Pq\<close> (\<^verbatim>\<open>src/crypto/pq.rs\<close>), \<open>Transition\<close>: signatures; a transition extends the chain and
    keeps the state well formed, an accepted block is signed.

  \<^bold>\<open>Fork choice\<close> (\<^verbatim>\<open>src/fork_choice.rs\<close>).
  \<^item> \<open>ForkChoice\<close> has the operations. \<open>ProtoArray\<close> treats the node arena as a weighted tree,
    \<open>ForkChoiceInv\<close> gives the invariant of the store, \<open>ForkChoiceHead\<close> the reference GHOST
    walk and the safe target, \<open>Prune\<close> pruning, \<open>ForkChoiceOps\<close> and \<open>ForkChoiceProps\<close> the
    operations and their properties. On every store that any sequence of operations reaches
    from an anchor, no operation gets stuck, the head is the GHOST head, weights are numbers
    of votes and finality is monotone; pruning keeps exactly the descendants, and the search
    for an attestation target ends at the block its two walks describe.

  \<^bold>\<open>Storage\<close> (\<^verbatim>\<open>src/storage/\<close>).
  \<^item> \<open>PendingCache\<close> (\<^verbatim>\<open>pending.rs\<close>) refines a map. \<open>CanonicalDb\<close> (\<^verbatim>\<open>canonical_db.rs\<close>,
    \<^verbatim>\<open>storage_utils.rs\<close>) wraps the database, \<open>DbEffects\<close> says what its methods do to the
    content, \<open>FileStore\<close> (\<^verbatim>\<open>file_store.rs\<close>, \<^verbatim>\<open>index.rs\<close>, \<^verbatim>\<open>prune.rs\<close>) has the store, \<open>FileStoreInv\<close>
    its invariant, \<open>FileStoreProps\<close> what survives a restart, what is read back and what
    pruning may remove. \<open>MemoryStore\<close> (\<^verbatim>\<open>mod.rs\<close>, \<^verbatim>\<open>index_store.rs\<close>) has the in-memory backends.

  \<^bold>\<open>Networking\<close> (\<^verbatim>\<open>src/networking/\<close>).
  \<^item> \<open>GossipVerify\<close> (\<^verbatim>\<open>validate.rs\<close>): gossip validation of blocks agrees with block import.
    \<open>GossipTopics\<close> (\<^verbatim>\<open>gossipsub/lean/\<close>): topic names and the decoding they select.
    \<open>GossipContext\<close> (\<^verbatim>\<open>gossipsub/validate.rs\<close>, \<^verbatim>\<open>context.rs\<close>): which messages pass the filter and
    which roots count as known. \<open>ReqRespHandler\<close> (\<^verbatim>\<open>reqresp_handler.rs\<close>): how requests are
    answered. \<open>RateLimiter\<close> (\<^verbatim>\<open>rate_limiter.rs\<close>, \<^verbatim>\<open>events.rs\<close>, \<^verbatim>\<open>gossip.rs\<close>, \<^verbatim>\<open>reqresp.rs\<close>) and
    \<open>PeerManager\<close> (\<^verbatim>\<open>peer_manager.rs\<close>, \<^verbatim>\<open>discovery.rs\<close>, \<^verbatim>\<open>mod.rs\<close>): limits, peer scores, bans and
    the locking order.

  \<^bold>\<open>Parameters.\<close> Code that is not part of the repository is an argument: \<open>L\<close> the SSZ list and
  hashing library (\<open>ssz_lib\<close>), \<open>Q\<close> the signature libraries (\<open>pq_lib\<close>), \<open>R\<close> the embedded
  database (\<open>redb\<close>), \<open>sha256\<close> the hash of blob envelopes. What the theorems use of them are
  named hypotheses (\<open>list_ops_bounded\<close>, \<open>block_body_valid\<close>, \<open>state_lists\<close>, \<open>redb_laws\<close>, the laws
  of the scheme); \<open>SampleLib\<close>, \<open>SampleDb\<close> and the samples of \<open>StateCodec\<close>, \<open>Pq\<close> and \<open>ReqResp\<close>
  are instances that satisfy them. The clock
  is an argument of the functions that read it.

  \<^bold>\<open>Loops and fuel.\<close> Loops over collections are structural recursion. Loops over a counter
  carry a termination proof or count the remaining rounds. Walks along parent links of the
  fork choice and the bit loops of the verifiers take fuel, and running out is the value
  \<open>Diverge\<close>: the number of nodes bounds a walk because slots fall along parent links, and
  eight rounds empty a byte. The theorems show that \<open>Diverge\<close> is not reached on stores that
  satisfy the invariant.

  \<^bold>\<open>Not modelled.\<close> The libp2p event loop (\<^verbatim>\<open>networking/p2p.rs\<close>), node assembly, configuration and
  key files (\<^verbatim>\<open>node/mod.rs\<close>, \<^verbatim>\<open>app.rs\<close>, \<^verbatim>\<open>main.rs\<close>), the timer-driven duties and the
  synchronisation scheduler (\<^verbatim>\<open>node/tasks.rs\<close>, \<^verbatim>\<open>node/sync/\<close>), the HTTP download of checkpoint
  states, metrics and log output: they are input/output and task scheduling around the
  functions above. A lock is held for one operation, so operations on shared objects are
  steps; only for the peer registry, which takes several locks, is the order of
  acquisition modelled. The vendored proof systems stand behind \<open>pq_lib\<close>.
\<close>

end
